(* ===== verification/Relay_Prelude.thy ===== *)
theory Relay_Prelude
  imports Main "HOL-Library.List_Lexorder" "HOL-Library.Char_ord" "HOL-Library.Product_Lexorder"
    "HOL-Library.Multiset" "HOL-Library.Word"
begin

text \<open>
  Shared vocabulary of the archive-relay development: the Go notions every component
  uses (durations, slices that may be nil, bounded channels, result values) and the
  generic facts on lists that the component proofs rest on.

  \<^item> Times and durations are \<open>int\<close> nanoseconds, as \<open>time.Duration\<close> is.
  \<^item> A Go slice that may be \<open>nil\<close> is a \<open>'a slice\<close> (\<open>None\<close> is \<open>nil\<close>); ranging over
    it is ranging over \<open>elems\<close>.
  \<^item> A Go string is a byte string (\<open>char\<close> is a byte), compared byte-wise, which is the
    lexicographic order of \<open>List_Lexorder\<close> over \<open>Char_ord\<close>.
  \<^item> A Go \<open>error\<close> result is a sum: \<open>Inl e\<close> is the error, \<open>Inr v\<close> the value.
\<close>

named_theorems worker_simps \<open>evaluation of the batch worker's closures\<close>

type_synonym duration = int
type_synonym instant = int
type_synonym 'a slice = "'a list option"
type_synonym ('e, 'a) result = "'e + 'a"

abbreviation millisecond :: duration where "millisecond \<equiv> 1000000"
abbreviation second :: duration where "second \<equiv> 1000000000"
abbreviation minute :: duration where "minute \<equiv> 60 * second"
abbreviation hour :: duration where "hour \<equiv> 60 * minute"

section \<open>Definitions\<close>

text \<open>How one \<open>PrepareBatch\<close>/\<open>Append\<close>/\<open>Send\<close> sequence ends. A failing \<open>Send\<close> may
  have reached the server before its acknowledgement was lost (the flag).\<close>

datatype send_outcome =
    PrepareFails string
  | AppendFails string
  | SendFails string bool
  | SendOK

text \<open>The elements a \<open>range\<close> over a possibly-nil slice visits.\<close>

fun elems :: "'a slice \<Rightarrow> 'a list" where
  "elems None = []"
| "elems (Some xs) = xs"

text \<open>\<open>strings.Join\<close>.\<close>

fun join :: "string \<Rightarrow> string list \<Rightarrow> string" where
  "join sep [] = []"
| "join sep [x] = x"
| "join sep (x # y # ys) = x @ sep @ join sep (y # ys)"

text \<open>\<open>strings.TrimSpace\<close> and \<open>strings.Split\<close> with a one-byte separator. White space is that of
  ASCII: the multi-byte spaces of Unicode do not occur in the headers, URLs, identifiers and SQL
  texts the sources trim.\<close>

definition space :: "char \<Rightarrow> bool" where
  "space c \<longleftrightarrow> c \<in> {CHR '' '', CHR 0x09, CHR 0x0A, CHR 0x0B, CHR 0x0C, CHR 0x0D}"

definition trimSpace :: "string \<Rightarrow> string" where
  "trimSpace s = rev (dropWhile space (rev (dropWhile space s)))"

fun splitOn :: "char \<Rightarrow> string \<Rightarrow> string list" where
  "splitOn c [] = [[]]"
| "splitOn c (x # xs) =
     (if x = c then [] # splitOn c xs
      else case splitOn c xs of [] \<Rightarrow> [[x]] | y # ys \<Rightarrow> (x # y) # ys)"

text \<open>\<open>strings.EqualFold\<close> on ASCII strings.\<close>

definition lowerChar :: "char \<Rightarrow> char" where
  "lowerChar c = (if of_char c \<in> {65..90 :: nat} then char_of (of_char c + 32 :: nat) else c)"

definition equalFold :: "string \<Rightarrow> string \<Rightarrow> bool" where
  "equalFold s t \<longleftrightarrow> map lowerChar s = map lowerChar t"

text \<open>Decimal numerals (\<open>%d\<close>, \<open>strconv.Itoa\<close>).\<close>

fun decimalOf :: "nat \<Rightarrow> string" where
  "decimalOf n = (if n < 10 then [char_of (48 + n)] else decimalOf (n div 10) @ [char_of (48 + n mod 10)])"

declare decimalOf.simps [simp del]

text \<open>Keep the first element of every key class, in order: SQL's \<open>LIMIT 1 BY key\<close>
  and Go's seen-map loops.\<close>

fun first_by_aux :: "('a \<Rightarrow> 'k) \<Rightarrow> 'k set \<Rightarrow> 'a list \<Rightarrow> 'a list" where
  "first_by_aux k S [] = []"
| "first_by_aux k S (x # xs) =
     (if k x \<in> S then first_by_aux k S xs else x # first_by_aux k (insert (k x) S) xs)"

definition first_by :: "('a \<Rightarrow> 'k) \<Rightarrow> 'a list \<Rightarrow> 'a list" where
  "first_by k xs = first_by_aux k {} xs"

section \<open>Lists\<close>

lemma first_by_aux_subset: "set (first_by_aux k S xs) \<subseteq> set xs"
  by (induction xs arbitrary: S) auto

lemma first_by_aux_avoids: "x \<in> set (first_by_aux k S xs) \<Longrightarrow> k x \<notin> S"
  by (induction xs arbitrary: S) (auto split: if_splits)

lemma first_by_aux_keys: "k ` set (first_by_aux k S xs) = k ` set xs - S"
  by (induction xs arbitrary: S) auto

lemma first_by_aux_distinct: "distinct (map k (first_by_aux k S xs))"
proof (induction xs arbitrary: S)
  case (Cons x xs)
  then show ?case using first_by_aux_avoids[of _ k "insert (k x) S" xs] by force
qed simp

lemma first_by_aux_sorted: "sorted_wrt R xs \<Longrightarrow> sorted_wrt R (first_by_aux k S xs)"
proof (induction xs arbitrary: S)
  case (Cons x xs)
  then show ?case using first_by_aux_subset[of k _ xs] by fastforce
qed simp

lemma first_by_subset: "set (first_by k xs) \<subseteq> set xs"
  by (simp add: first_by_def first_by_aux_subset)

lemma first_by_keys: "k ` set (first_by k xs) = k ` set xs"
  by (simp add: first_by_def first_by_aux_keys)

lemma first_by_distinct: "distinct (map k (first_by k xs))"
  by (simp add: first_by_def first_by_aux_distinct)

lemma first_by_sorted: "sorted_wrt R xs \<Longrightarrow> sorted_wrt R (first_by k xs)"
  by (simp add: first_by_def first_by_aux_sorted)

text \<open>In a list sorted by \<open>R\<close>, the survivor of a class is \<open>R\<close>-below every member.\<close>

lemma first_by_aux_least:
  assumes "sorted_wrt R xs" "x \<in> set xs" "k x \<notin> S" "\<And>z. R z z"
  shows "\<exists>y \<in> set (first_by_aux k S xs). k y = k x \<and> R y x"
  using assms
proof (induction xs arbitrary: S)
  case (Cons a xs)
  show ?case
  proof (cases "k a \<in> S")
    case True
    with Cons.prems have "x \<in> set xs" "sorted_wrt R xs" by auto
    with True show ?thesis using Cons.IH[of S] Cons.prems(3,4) by auto
  next
    case new: False
    show ?thesis
    proof (cases "k x = k a")
      case True
      have "R a x" using Cons.prems by auto
      with True new show ?thesis by auto
    next
      case False
      with Cons.prems have "x \<in> set xs" "sorted_wrt R xs" "k x \<notin> insert (k a) S" by auto
      then obtain y where "y \<in> set (first_by_aux k (insert (k a) S) xs)" "k y = k x" "R y x"
        using Cons.IH[of "insert (k a) S"] Cons.prems(4) by blast
      with new show ?thesis by auto
    qed
  qed
qed simp

lemma first_by_least:
  assumes "sorted_wrt R xs" "x \<in> set xs" "\<And>z. R z z"
  shows "\<exists>y \<in> set (first_by k xs). k y = k x \<and> R y x"
  using first_by_aux_least[OF assms(1,2), of k "{}"] assms(3) by (simp add: first_by_def)

lemma first_by_id: "distinct (map k xs) \<Longrightarrow> first_by k xs = xs"
proof -
  have "distinct (map k xs) \<Longrightarrow> S \<inter> k ` set xs = {} \<Longrightarrow> first_by_aux k S xs = xs" for S
    by (induction xs arbitrary: S) auto
  then show "distinct (map k xs) \<Longrightarrow> first_by k xs = xs" by (simp add: first_by_def)
qed

lemma distinct_map_sorted_wrt: "distinct (map g xs) \<longleftrightarrow> sorted_wrt (\<lambda>x y. g x \<noteq> g y) xs"
  by (induction xs) auto

lemma first_by_keeps_distinct: "distinct (map g xs) \<Longrightarrow> distinct (map g (first_by k xs))"
  by (simp add: distinct_map_sorted_wrt first_by_sorted)

lemma first_by_inj:
  assumes "inj_on k (set xs)"
  shows "set (first_by k xs) = set xs"
  by (rule inj_on_image_eq_iff[THEN iffD1, OF assms first_by_subset order_refl]) (rule first_by_keys)

lemma distinct_subset_mset:
  assumes "distinct xs" "set xs \<subseteq> set ys"
  shows "mset xs \<subseteq># mset ys"
proof -
  have "mset xs = mset_set (set xs)" using assms(1) by (simp add: mset_set_set)
  also have "\<dots> \<subseteq># mset_set (set ys)" using assms(2) by (simp add: subset_imp_msubset_mset_set)
  also have "\<dots> \<subseteq># mset ys" by (rule mset_set_set_mset_msubset[of "mset ys", simplified])
  finally show ?thesis .
qed

lemma take_drop_append [simp]: "take n xs @ drop n xs @ ys = xs @ ys"
  by (metis append_assoc append_take_drop_id)

text \<open>Cutting a sorted list: what is cut off is above everything kept, and a cut of size \<open>n\<close>
  stays below a bound that \<open>n\<close> elements respect.\<close>

lemma sorted_take_below:
  assumes "sorted (map g xs)" "x \<in> set xs" "x \<notin> set (take n xs)"
  shows "length (take n xs) = n \<and> (\<forall>y \<in> set (take n xs). g y \<le> g x)"
proof -
  have eq: "xs = take n xs @ drop n xs" by simp
  then have x: "x \<in> set (drop n xs)" using assms(2,3) by (metis Un_iff set_append)
  then have "n < length xs" by (metis drop_all empty_iff list.set(1) not_le)
  moreover have "sorted (map g (take n xs) @ map g (drop n xs))" using assms(1) eq by (metis map_append)
  ultimately show ?thesis using x by (auto simp: sorted_append)
qed

lemma sorted_take_many_below:
  assumes "sorted (map g xs)" "n \<le> length (filter (\<lambda>y. g y \<le> b) xs)"
  shows "length (take n xs) = n \<and> (\<forall>y \<in> set (take n xs). g y \<le> b)"
  using assms
proof (induction xs arbitrary: n)
  case (Cons x xs)
  show ?case
  proof (cases n)
    case (Suc m)
    have above: "g x \<le> g y" if "y \<in> set (x # xs)" for y
      using Cons.prems(1) that by auto
    have "filter (\<lambda>y. g y \<le> b) (x # xs) \<noteq> []" using Cons.prems(2) Suc by auto
    then obtain y where "y \<in> set (x # xs)" "g y \<le> b" unfolding filter_empty_conv by blast
    then have "g x \<le> b" using above order_trans by blast
    moreover from this have "m \<le> length (filter (\<lambda>y. g y \<le> b) xs)" using Cons.prems(2) Suc by simp
    moreover have "sorted (map g xs)" using Cons.prems(1) by simp
    ultimately have "length (take m xs) = m" "\<forall>y \<in> set (take m xs). g y \<le> b"
      using Cons.IH[of m] by blast+
    then show ?thesis using \<open>g x \<le> b\<close> unfolding Suc take_Suc_Cons by (simp del: length_take)
  qed simp
qed simp

lemma length_filter_mono:
  assumes "mset xs \<subseteq># mset ys"
  shows "length (filter P xs) \<le> length (filter P ys)"
proof -
  have "mset (filter P xs) \<subseteq># mset (filter P ys)" using assms by (simp add: multiset_filter_mono)
  then have "size (mset (filter P xs)) \<le> size (mset (filter P ys))" by (rule size_mset_mono)
  then show ?thesis by (simp only: size_mset)
qed

text \<open>Reading off what an evaluated optional pair says.\<close>

lemma some_pairE:
  assumes "case x of Some (a, b) \<Rightarrow> P a b | None \<Rightarrow> False"
  obtains a b where "x = Some (a, b)" "P a b"
  using assms by (auto split: option.splits prod.splits)

section \<open>Strings\<close>

lemma splitOn_clean: "c \<notin> set s \<Longrightarrow> splitOn c s = [s]"
  by (induction s) auto

lemma splitOn_append: "c \<notin> set s \<Longrightarrow> splitOn c (s @ c # t) = s # splitOn c t"
  by (induction s) auto

lemma splitOn_join:
  "ss \<noteq> [] \<Longrightarrow> list_all (\<lambda>s. c \<notin> set s) ss \<Longrightarrow> splitOn c (join [c] ss) = ss"
  by (induction "[c]" ss rule: join.induct) (simp_all add: splitOn_clean splitOn_append)

lemma trimSpace_clean: "s \<noteq> [] \<Longrightarrow> \<not> space (hd s) \<Longrightarrow> \<not> space (last s) \<Longrightarrow> trimSpace s = s"
proof -
  have keep: "t \<noteq> [] \<Longrightarrow> \<not> space (hd t) \<Longrightarrow> dropWhile space t = t" for t by (cases t) simp_all
  show "s \<noteq> [] \<Longrightarrow> \<not> space (hd s) \<Longrightarrow> \<not> space (last s) \<Longrightarrow> trimSpace s = s"
    using keep[of s] keep[of "rev s"] by (simp add: trimSpace_def hd_rev)
qed

lemma trimSpace_padded:
  assumes "list_all space u" "list_all space v"
  shows "trimSpace (u @ s @ v) = trimSpace s"
proof -
  have drop: "dropWhile space (w @ x) = dropWhile space x" if "list_all space w" for w x using that by (induction w) simp_all
  have "dropWhile space (rev (dropWhile space (s @ v))) = dropWhile space (rev (dropWhile space s))"
  proof (cases "list_all space s")
    case True
    then have "dropWhile space (s @ v) = []" "dropWhile space s = []"
      using assms(2) drop[of "s @ v" "[]"] drop[of s "[]"] by simp_all
    then show ?thesis by (simp only: rev.simps dropWhile.simps)
  next
    case False
    then have "dropWhile space (s @ v) = dropWhile space s @ v" by (auto simp: list_all_iff dropWhile_append)
    then show ?thesis using drop[of "rev v"] assms(2) by (simp add: list_all_iff)
  qed
  then show ?thesis using drop[OF assms(1)] by (simp add: trimSpace_def)
qed

end
