(* ===== verification/Classifier.thy ===== *)
theory Classifier
  imports Relay_Prelude
begin

text \<open>
  The kind-to-tier classifier (\<open>internal/store/classifier.go\<close>) and the Nostr event and
  filter values every component passes around. An event and a filter carry exactly the
  fields the sources construct and read; a Go \<open>int\<close> kind and an \<open>int64\<close> timestamp are
  \<open>int\<close>. The classifier override (\<open>config.Classifier\<close>) is a map from kinds to tier
  names.
\<close>

record event =
  ev_id :: string
  ev_pubkey :: string
  ev_created_at :: int
  ev_kind :: int
  ev_tags :: "string slice slice"
  ev_content :: string
  ev_sig :: string

text \<open>\<open>f_tags\<close> is a Go map: the association list is one iteration order of it.\<close>

record nostr_filter =
  f_ids :: "string list"
  f_kinds :: "int list"
  f_authors :: "string list"
  f_tags :: "(string \<times> string list) list"
  f_since :: "int option"
  f_until :: "int option"
  f_limit :: int

type_synonym override = "int \<rightharpoonup> string"

section \<open>Definitions\<close>

definition TierPermanent :: string where "TierPermanent = ''permanent''"
definition TierArchive :: string where "TierArchive = ''archive''"
definition TierSocial :: string where "TierSocial = ''social''"
definition TierDrop :: string where "TierDrop = ''drop''"

definition activeTiers :: "string list" where
  "activeTiers = [TierPermanent, TierArchive, TierSocial]"

definition InScopeKinds :: "int list" where
  "InScopeKinds = [0, 1, 3, 6, 7, 16, 9735, 10002]"

definition classify :: "int \<Rightarrow> string" where
  "classify kind =
     (if kind \<in> {0, 3, 9735, 10002} then TierPermanent
      else if kind = 1 then TierArchive
      else if kind \<in> {6, 7, 16} then TierSocial
      else TierDrop)"

definition TierForKind :: "int \<Rightarrow> string" where
  "TierForKind kind = classify kind"

definition classifyWithOverride :: "int \<Rightarrow> override \<Rightarrow> string" where
  "classifyWithOverride kind ov = (case ov kind of Some t \<Rightarrow> t | None \<Rightarrow> classify kind)"

definition tierForEvent :: "event \<Rightarrow> override \<Rightarrow> string" where
  "tierForEvent evt ov = classifyWithOverride (ev_kind evt) ov"

definition isReplaceableKind :: "int \<Rightarrow> bool" where
  "isReplaceableKind kind \<longleftrightarrow> kind \<in> {0, 3, 10002}"

section \<open>Lemmas\<close>

lemmas tier_defs = TierPermanent_def TierArchive_def TierSocial_def TierDrop_def

lemma tiers_distinct [simp]:
  "TierPermanent \<noteq> TierArchive" "TierPermanent \<noteq> TierSocial" "TierArchive \<noteq> TierSocial"
  "TierPermanent \<noteq> TierDrop" "TierArchive \<noteq> TierDrop" "TierSocial \<noteq> TierDrop"
  by (simp_all add: tier_defs)

declare tiers_distinct [symmetric, simp]

lemma classify_active: "classify k \<noteq> TierDrop \<longleftrightarrow> classify k \<in> set activeTiers"
  by (auto simp: classify_def activeTiers_def)

lemma classify_in_scope: "classify k \<noteq> TierDrop \<longleftrightarrow> k \<in> set InScopeKinds"
  by (auto simp: classify_def InScopeKinds_def)

text \<open>The scope list the crawler subscribes with and the classifier agree: a kind is
  in \<open>InScopeKinds\<close> exactly when the classifier stores it, in which case its tier is one of
  the three tiers that have a batcher.\<close>

theorem scope_agrees_with_classifier:
  "k \<in> set InScopeKinds \<longleftrightarrow> TierForKind k \<in> set activeTiers"
  using classify_active[of k] classify_in_scope[of k] by (simp add: TierForKind_def)

end
