(* ===== verification/Batcher.thy ===== *)
theory Batcher
  imports Relay_Prelude "HOL-Library.Sublist"
begin

text \<open>
  The per-tier insert batcher (\<open>internal/store/batcher.go\<close>): a bounded input channel, a
  single worker goroutine that owns the buffer, and the closures \<open>stage\<close>, \<open>sendOne\<close>,
  \<open>attempt\<close>, \<open>replyAll\<close> of its \<open>run\<close> loop, one definition each. A step of the system is
  one of: a producer's \<open>enqueue\<close>, a client's \<open>FlushAll\<close> request, \<open>shutdown\<close>, or one
  iteration of the worker's \<open>select\<close>; which ready case the \<open>select\<close> takes and how each
  ClickHouse call ends are not determined, so the steps are a relation.

  The record holds the channels (\<open>b_in\<close>, \<open>b_flushReq\<close>), the worker's locals (\<open>w_\<close>
  fields) and what the outside sees: the rows physically written (\<open>b_table\<close>), the
  callback invocations (\<open>b_flushed\<close>), the feed offers (\<open>b_offered\<close>), the answers sent
  on reply channels and the loss count logged at shutdown. \<open>b_accepted\<close> and \<open>b_acked\<close>
  are history: the events \<open>enqueue\<close> returned nil for, and the events of every chunk whose
  \<open>Send\<close> returned nil. A reply channel carries its identity and, as history, how many
  events had been accepted when the request was made. The event type is a parameter:
  the worker never looks inside an event.
\<close>

datatype batch_error = ErrBatchFull | ErrBatcherStopped | ErrRequestTimeout | ErrSend string

datatype workerState = Normal | Retry | Stopped

record reply_chan =
  r_ident :: nat
  r_snapshot :: nat

record 'e batcher =
  b_maxSize :: nat
  b_cap :: nat
  b_in :: "'e list"
  b_flushReq :: "reply_chan list"
  b_stop :: bool
  w_state :: workerState
  w_buf :: "'e list"
  w_pending :: "'e list"
  w_replies :: "reply_chan list"
  w_queued :: nat
  w_fails :: nat
  w_retryC :: "duration option"
  b_table :: "'e list"
  b_flushed :: "'e list list"
  b_offered :: "'e list"
  b_answers :: "(reply_chan \<times> batch_error option) list"
  b_lost :: "nat option"
  b_accepted :: "'e list"
  b_acked :: "'e list"

section \<open>Definitions\<close>

definition newBatcher :: "nat \<Rightarrow> 'e batcher" where
  "newBatcher maxSize =
     (let cap = maxSize * 2; cap = (if cap < 1024 then 1024 else cap) in
      \<lparr>b_maxSize = maxSize, b_cap = cap, b_in = [], b_flushReq = [], b_stop = False,
       w_state = Normal, w_buf = [], w_pending = [], w_replies = [], w_queued = 0,
       w_fails = 0, w_retryC = None, b_table = [], b_flushed = [], b_offered = [],
       b_answers = [], b_lost = None, b_accepted = [], b_acked = []\<rparr>)"

definition enqueue :: "'e \<Rightarrow> 'e batcher \<Rightarrow> batch_error option \<times> 'e batcher" where
  "enqueue evt b =
     (if b_stop b then (Some ErrBatchFull, b)
      else if length (b_in b) < b_cap b
      then (None, b\<lparr>b_in := b_in b @ [evt], b_accepted := b_accepted b @ [evt]\<rparr>)
      else (Some ErrBatchFull, b))"

text \<open>\<open>flushContext\<close>: the table after the insert, and the error.\<close>

fun flushContext :: "send_outcome \<Rightarrow> 'e list \<Rightarrow> 'e list \<Rightarrow> batch_error option \<times> 'e list" where
  "flushContext (PrepareFails e) events table = (Some (ErrSend e), table)"
| "flushContext (AppendFails e) events table = (Some (ErrSend e), table)"
| "flushContext (SendFails e stored) events table =
     (Some (ErrSend e), if stored then table @ events else table)"
| "flushContext SendOK events table = (None, table @ events)"

definition replyAll :: "batch_error option \<Rightarrow> 'e batcher \<Rightarrow> 'e batcher" where
  "replyAll err b =
     b\<lparr>b_answers := b_answers b @ map (\<lambda>r. (r, err)) (w_replies b), w_replies := []\<rparr>"

definition stage :: "nat \<Rightarrow> 'e batcher \<Rightarrow> 'e batcher" where
  "stage n b =
     (let p = w_buf b @ take n (b_in b) in
      b\<lparr>w_pending := p, w_buf := [], b_in := drop n (b_in b),
        w_state := (if p \<noteq> [] then Retry else w_state b)\<rparr>)"

definition sendOne :: "send_outcome \<Rightarrow> 'e batcher \<Rightarrow> batch_error option \<times> 'e batcher" where
  "sendOne oc b =
     (let n = min (length (w_pending b)) (b_maxSize b); chunk = take n (w_pending b) in
      case flushContext oc chunk (b_table b) of
        (Some e, tbl) \<Rightarrow> (Some e, b\<lparr>b_table := tbl\<rparr>)
      | (None, tbl) \<Rightarrow>
          (None, b\<lparr>b_table := tbl, b_acked := b_acked b @ chunk,
                   b_flushed := b_flushed b @ [chunk], b_offered := b_offered b @ chunk,
                   w_pending := drop n (w_pending b)\<rparr>))"

definition backoff :: "nat \<Rightarrow> duration" where
  "backoff fails = min (30 * second) (second * 2 ^ min fails 5)"

text \<open>The part of \<open>attempt\<close> after a successful (or no) send.\<close>

definition attemptRest :: "'e batcher \<Rightarrow> 'e batcher" where
  "attemptRest b =
     (let b1 = (if w_pending b = [] \<and> w_queued b > 0
                then (stage (w_queued b) b)\<lparr>w_queued := 0\<rparr> else b) in
      if w_pending b1 \<noteq> [] then b1\<lparr>w_retryC := Some 0\<rparr>
      else replyAll None (b1\<lparr>w_state := Normal, w_retryC := None\<rparr>))"

definition attempt :: "send_outcome \<Rightarrow> 'e batcher \<Rightarrow> 'e batcher" where
  "attempt oc b =
     (if w_pending b \<noteq> [] then
        (case sendOne oc b of
           (Some e, b1) \<Rightarrow>
             (replyAll (Some e) b1)
               \<lparr>w_queued := 0, w_retryC := Some (backoff (w_fails b)), w_fails := Suc (w_fails b)\<rparr>
         | (None, b1) \<Rightarrow> attemptRest (b1\<lparr>w_fails := 0\<rparr>))
      else attemptRest b)"

text \<open>The final flush of the stop case: one outcome is consumed per chunk sent; \<open>None\<close>
  means the given outcomes ran out before the loop ended.\<close>

definition restage :: "'e batcher \<Rightarrow> 'e batcher" where
  "restage b = (if w_pending b = [] then (stage (length (b_in b)) b)\<lparr>w_state := Stopped\<rparr> else b)"

definition lostCount :: "'e batcher \<Rightarrow> nat" where
  "lostCount b = length (w_pending b) + length (w_buf b) + length (b_in b)"

fun finalLoop :: "send_outcome list \<Rightarrow> 'e batcher \<Rightarrow> (batch_error option \<times> 'e batcher) option" where
  "finalLoop [] b = (if w_pending (restage b) = [] then Some (None, restage b) else None)"
| "finalLoop (oc # ocs) b =
     (if w_pending (restage b) = [] then Some (None, restage b)
      else case sendOne oc (restage b) of
        (Some e, b2) \<Rightarrow> Some (Some e, b2\<lparr>b_lost := Some (lostCount b2)\<rparr>)
      | (None, b2) \<Rightarrow> finalLoop ocs b2)"

definition onStop :: "send_outcome list \<Rightarrow> 'e batcher \<Rightarrow> 'e batcher option" where
  "onStop ocs b =
     map_option (\<lambda>(err, b'). replyAll err b') (finalLoop ocs (b\<lparr>w_state := Stopped\<rparr>))"

definition onInput :: "send_outcome \<Rightarrow> 'e \<Rightarrow> 'e batcher \<Rightarrow> 'e batcher" where
  "onInput oc evt b =
     (let b1 = b\<lparr>w_buf := w_buf b @ [evt]\<rparr> in
      if length (w_buf b1) \<ge> b_maxSize b1
      then attempt oc (stage (length (b_in b1)) b1) else b1)"

definition onTick :: "send_outcome \<Rightarrow> 'e batcher \<Rightarrow> 'e batcher" where
  "onTick oc b = attempt oc (stage (length (b_in b)) b)"

definition onFlushReq :: "send_outcome \<Rightarrow> reply_chan \<Rightarrow> 'e batcher \<Rightarrow> 'e batcher" where
  "onFlushReq oc reply b =
     (let b1 = b\<lparr>w_replies := w_replies b @ [reply], w_queued := length (b_in b)\<rparr>;
          b2 = (if w_pending b1 = [] then (stage (w_queued b1) b1)\<lparr>w_queued := 0\<rparr> else b1)
      in attempt oc b2)"

text \<open>\<open>FlushAll\<close>, the requesting half: its two selects on \<open>stop\<close>, the request channel
  (capacity 16) and the 30 s timer.\<close>

definition flushRequest :: "nat \<Rightarrow> 'e batcher \<Rightarrow> batch_error option \<times> 'e batcher" where
  "flushRequest ident b =
     (if b_stop b then (Some ErrBatcherStopped, b)
      else if length (b_flushReq b) < 16
      then (None, b\<lparr>b_flushReq := b_flushReq b @
              [\<lparr>r_ident = ident, r_snapshot = length (b_accepted b)\<rparr>]\<rparr>)
      else (Some ErrRequestTimeout, b))"

definition shutdown :: "'e batcher \<Rightarrow> 'e batcher" where
  "shutdown b = b\<lparr>b_stop := True\<rparr>"

text \<open>One step of the batcher: a call by a producer or client, or one \<open>select\<close> case of
  \<open>run\<close>. The input and the ticker are only selected in state \<open>Normal\<close>.\<close>

inductive bstep :: "'e batcher \<Rightarrow> 'e batcher \<Rightarrow> bool" where
  b_enqueue: "bstep b (snd (enqueue evt b))"
| b_request: "bstep b (snd (flushRequest ident b))"
| b_shutdown: "bstep b (shutdown b)"
| b_input: "w_state b = Normal \<Longrightarrow> b_in b = evt # rest \<Longrightarrow>
     bstep b (onInput oc evt (b\<lparr>b_in := rest\<rparr>))"
| b_tick: "w_state b = Normal \<Longrightarrow> bstep b (onTick oc b)"
| b_flushReq: "w_state b \<noteq> Stopped \<Longrightarrow> b_flushReq b = r # rs \<Longrightarrow>
     bstep b (onFlushReq oc r (b\<lparr>b_flushReq := rs\<rparr>))"
| b_retry: "w_state b \<noteq> Stopped \<Longrightarrow> w_retryC b = Some d \<Longrightarrow> bstep b (attempt oc b)"
| b_stop: "w_state b \<noteq> Stopped \<Longrightarrow> b_stop b \<Longrightarrow> onStop ocs b = Some b' \<Longrightarrow> bstep b b'"

inductive breachable :: "nat \<Rightarrow> 'e batcher \<Rightarrow> bool" for maxSize :: nat where
  b_init: "breachable maxSize (newBatcher maxSize)"
| b_step: "breachable maxSize b \<Longrightarrow> bstep b b' \<Longrightarrow> breachable maxSize b'"

text \<open>The worker run on its own retry timer, every outcome given.\<close>

fun attempts :: "send_outcome list \<Rightarrow> 'e batcher \<Rightarrow> 'e batcher" where
  "attempts [] b = b"
| "attempts (oc # ocs) b = (if w_state b = Retry then attempts ocs (attempt oc b) else b)"

text \<open>The abstract batcher: a durable log and a FIFO of accepted events not yet in it.\<close>

definition waiting :: "'e batcher \<Rightarrow> 'e list" where
  "waiting b = w_pending b @ w_buf b @ b_in b"

definition fifo :: "'e batcher \<Rightarrow> bool" where
  "fifo b \<longleftrightarrow> b_acked b @ waiting b = b_accepted b"

text \<open>The specification the batcher implements: accepted events join the waiting end,
  and a non-empty prefix of at most \<open>m\<close> events moves to the log at a time.\<close>

inductive log_step :: "nat \<Rightarrow> 'e list \<times> 'e list \<Rightarrow> 'e list \<times> 'e list \<Rightarrow> bool" for m :: nat where
  accept: "log_step m (d, w) (d, w @ [e])"
| persist: "0 < length c \<Longrightarrow> length c \<le> m \<Longrightarrow> log_step m (d, c @ w) (d @ c, w)"

definition abs_log :: "'e batcher \<Rightarrow> 'e list \<times> 'e list" where
  "abs_log b = (b_acked b, waiting b)"

text \<open>Every outstanding flush request is covered by what the worker still has to send,
  and every request answered nil by what it has sent.\<close>

definition covered :: "'e batcher \<Rightarrow> bool" where
  "covered b \<longleftrightarrow>
     (\<forall>r \<in> set (w_replies b). r_snapshot r \<le> length (b_acked b) + length (w_pending b) + w_queued b) \<and>
     (\<forall>(r, err) \<in> set (b_answers b). err = None \<longrightarrow> r_snapshot r \<le> length (b_acked b)) \<and>
     (\<forall>r \<in> set (b_flushReq b). r_snapshot r \<le> length (b_accepted b))"

fun phase :: "workerState \<Rightarrow> 'e batcher \<Rightarrow> bool" where
  "phase Normal b \<longleftrightarrow> w_pending b = [] \<and> w_replies b = [] \<and> w_queued b = 0 \<and> w_retryC b = None"
| "phase Retry b \<longleftrightarrow> w_buf b = [] \<and> w_pending b \<noteq> [] \<and> w_retryC b \<noteq> None"
| "phase Stopped b \<longleftrightarrow> w_replies b = [] \<and> b_stop b"

definition binv :: "'e batcher \<Rightarrow> bool" where
  "binv b \<longleftrightarrow> fifo b \<and> (w_state b \<noteq> Stopped \<longrightarrow> w_queued b \<le> length (b_in b)) \<and>
     covered b \<and> phase (w_state b) b"

text \<open>The state between \<open>stage\<close> and \<open>attempt\<close>.\<close>

definition staged :: "'e batcher \<Rightarrow> bool" where
  "staged b \<longleftrightarrow> fifo b \<and> w_queued b \<le> length (b_in b) \<and> covered b \<and> w_buf b = [] \<and>
     w_state b = (if w_pending b = [] then Normal else Retry) \<and>
     (w_pending b = [] \<longrightarrow> w_queued b = 0)"

text \<open>Bounded memory: the input channel within its capacity, the buffer below a batch,
  a staged snapshot within a batch plus a channel.\<close>

definition bounded :: "'e batcher \<Rightarrow> bool" where
  "bounded b \<longleftrightarrow> length (b_in b) \<le> b_cap b \<and> length (b_flushReq b) \<le> 16 \<and>
     length (w_buf b) < max 1 (b_maxSize b) \<and>
     length (w_pending b) \<le> max 1 (b_maxSize b) + b_cap b"

text \<open>What reached the outside: acknowledged events are in the table, the callback and the
  feed saw exactly the acknowledged chunks, and no chunk exceeds \<open>maxSize\<close>.\<close>

definition durable :: "'e batcher \<Rightarrow> bool" where
  "durable b \<longleftrightarrow> mset (b_acked b) \<subseteq># mset (b_table b) \<and> concat (b_flushed b) = b_acked b \<and>
     b_offered b = b_acked b \<and> (\<forall>c \<in> set (b_flushed b). length c \<le> b_maxSize b)"

section \<open>The worker's closures\<close>

lemmas [worker_simps] = stage_def replyAll_def Let_def

lemma flushContext_err [simp]:
  "(fst (flushContext oc c t) = None) = (oc = SendOK)"
  by (cases oc) auto

lemma sendOne_OK:
  "sendOne SendOK b =
     (let n = min (length (w_pending b)) (b_maxSize b); chunk = take n (w_pending b) in
      (None, b\<lparr>b_table := b_table b @ chunk, b_acked := b_acked b @ chunk,
               b_flushed := b_flushed b @ [chunk], b_offered := b_offered b @ chunk,
               w_pending := drop n (w_pending b)\<rparr>))"
  by (simp add: sendOne_def Let_def)

lemma sendOne_fails:
  assumes "oc \<noteq> SendOK"
  shows "\<exists>e stored. sendOne oc b = (Some (ErrSend e), b\<lparr>b_table := b_table b @
    (if stored then take (min (length (w_pending b)) (b_maxSize b)) (w_pending b) else [])\<rparr>)"
proof (cases oc)
  case (SendFails e stored)
  then show ?thesis by (intro exI[of _ e] exI[of _ stored]) (simp add: sendOne_def Let_def)
next
  case (PrepareFails e)
  then show ?thesis by (intro exI[of _ e] exI[of _ False]) (simp add: sendOne_def Let_def)
next
  case (AppendFails e)
  then show ?thesis by (intro exI[of _ e] exI[of _ False]) (simp add: sendOne_def Let_def)
qed (use assms in simp)

lemma stage_fifo: "fifo b \<Longrightarrow> w_pending b = [] \<Longrightarrow> fifo (stage n b)"
  by (simp add: fifo_def waiting_def worker_simps)

lemma sendOne_fifo: "fifo b \<Longrightarrow> fifo (snd (sendOne SendOK b))"
  by (simp add: fifo_def waiting_def sendOne_OK Let_def)

lemma fifo_cong:
  assumes "b_acked b' = b_acked b" "w_pending b' = w_pending b" "w_buf b' = w_buf b"
    "b_in b' = b_in b" "b_accepted b' = b_accepted b"
  shows "fifo b' = fifo b"
  using assms by (simp add: fifo_def waiting_def)

lemma attemptRest_inv:
  assumes "fifo b" "w_queued b \<le> length (b_in b)" "covered b" "w_buf b = []" "w_state b \<noteq> Stopped"
    "w_pending b \<noteq> [] \<Longrightarrow> w_state b = Retry"
  shows "binv (attemptRest b)"
proof (cases "w_pending b = []")
  case empty: True
  show ?thesis
  proof (cases "w_queued b = 0")
    case True
    with empty assms show ?thesis
      by (auto simp: attemptRest_def binv_def covered_def fifo_def waiting_def replyAll_def)
  next
    case False
    with empty assms have "take (w_queued b) (b_in b) \<noteq> []" by auto
    with empty False assms show ?thesis
      by (auto simp: attemptRest_def binv_def covered_def fifo_def waiting_def worker_simps)
  qed
next
  case False
  with assms show ?thesis
    by (auto simp: attemptRest_def binv_def covered_def fifo_def waiting_def)
qed

lemma attempt_fail_inv:
  assumes "staged b" "w_pending b \<noteq> []" "oc \<noteq> SendOK"
  shows "binv (attempt oc b)"
  using assms sendOne_fails[OF assms(3), of b]
  by (auto simp: attempt_def binv_def staged_def covered_def fifo_def waiting_def replyAll_def)

lemma attempt_ok_inv:
  assumes "staged b" "w_pending b \<noteq> []"
  shows "binv (attempt SendOK b)"
proof -
  let ?b = "(snd (sendOne SendOK b))\<lparr>w_fails := 0\<rparr>"
  have eq: "attempt SendOK b = attemptRest ?b"
    using assms(2) by (simp add: attempt_def sendOne_OK Let_def)
  have "fifo (snd (sendOne SendOK b))" using assms(1) by (simp add: staged_def sendOne_fifo)
  then have "fifo ?b" by (simp add: fifo_def waiting_def)
  moreover have "covered ?b"
    using assms by (fastforce simp: staged_def covered_def sendOne_OK Let_def)
  ultimately show ?thesis unfolding eq
    using assms by (intro attemptRest_inv) (auto simp: staged_def sendOne_OK Let_def)
qed

lemma attempt_inv:
  assumes "staged b"
  shows "binv (attempt oc b)"
proof (cases "w_pending b = []")
  case True
  with assms show ?thesis
    by (simp add: attempt_def) (intro attemptRest_inv, auto simp: staged_def)
next
  case False
  with assms show ?thesis by (cases "oc = SendOK") (auto intro: attempt_ok_inv attempt_fail_inv)
qed

lemma retry_staged: "binv b \<Longrightarrow> w_state b = Retry \<Longrightarrow> staged b"
  by (simp add: binv_def staged_def)

lemma stage_staged:
  assumes "fifo b" "w_queued b = 0" "covered b" "w_state b = Normal" "w_pending b = []"
    "w_replies b = []"
  shows "staged (stage (length (b_in b)) b)"
  using assms by (auto simp: staged_def fifo_def waiting_def covered_def worker_simps)

section \<open>Every step keeps the invariant\<close>

lemma enqueue_inv: "binv b \<Longrightarrow> binv (snd (enqueue evt b))"
  by (cases "w_state b") (auto simp: enqueue_def binv_def fifo_def waiting_def covered_def)

lemma flushRequest_inv: "binv b \<Longrightarrow> binv (snd (flushRequest ident b))"
  by (cases "w_state b") (auto simp: flushRequest_def binv_def fifo_def waiting_def covered_def)

lemma shutdown_inv: "binv b \<Longrightarrow> binv (shutdown b)"
  by (cases "w_state b") (auto simp: shutdown_def binv_def fifo_def waiting_def covered_def)

lemma onTick_inv: "binv b \<Longrightarrow> w_state b = Normal \<Longrightarrow> binv (onTick oc b)"
  unfolding onTick_def by (intro attempt_inv stage_staged) (auto simp: binv_def)

lemma onInput_inv:
  assumes "binv b" "w_state b = Normal" "b_in b = evt # rest"
  shows "binv (onInput oc evt (b\<lparr>b_in := rest\<rparr>))"
proof -
  let ?b = "b\<lparr>b_in := rest, w_buf := w_buf b @ [evt]\<rparr>"
  have *: "fifo ?b" "w_queued ?b = 0" "covered ?b" "w_state ?b = Normal" "w_pending ?b = []"
    "w_replies ?b = []" "w_retryC ?b = None"
    using assms by (auto simp: binv_def fifo_def waiting_def covered_def)
  then have "binv ?b" by (simp add: binv_def)
  moreover have "binv (attempt oc (stage (length (b_in ?b)) ?b))"
    by (rule attempt_inv[OF stage_staged[OF *(1-6)]])
  ultimately show ?thesis by (simp add: onInput_def Let_def)
qed

lemma onFlushReq_inv:
  assumes "binv b" "w_state b \<noteq> Stopped" "b_flushReq b = r # rs"
  shows "binv (onFlushReq oc r (b\<lparr>b_flushReq := rs\<rparr>))"
proof -
  let ?b = "b\<lparr>b_flushReq := rs, w_replies := w_replies b @ [r], w_queued := length (b_in b)\<rparr>"
  have "r_snapshot r \<le> length (b_accepted b)"
    using assms(1,3) by (simp add: binv_def covered_def)
  also have "b_accepted b = b_acked b @ waiting b" using assms(1) by (simp add: binv_def fifo_def)
  finally have snap: "r_snapshot r \<le> length (b_acked b) + length (waiting b)" by simp
  have "staged (if w_pending ?b = [] then (stage (w_queued ?b) ?b)\<lparr>w_queued := 0\<rparr> else ?b)"
  proof (cases "w_state b")
    case Normal
    with assms have "w_pending b = []" "w_replies b = []" by (auto simp: binv_def)
    then show ?thesis using assms Normal snap
      by (simp add: staged_def binv_def fifo_def waiting_def covered_def worker_simps)
  next
    case Retry
    with assms have p: "w_pending b \<noteq> []" "w_buf b = []" by (auto simp: binv_def)
    with assms(1,3) snap have "covered ?b"
      by (fastforce simp: binv_def covered_def waiting_def)
    with Retry p assms(1) show ?thesis
      by (simp add: staged_def binv_def fifo_def waiting_def)
  qed (use assms in simp)
  then show ?thesis unfolding onFlushReq_def Let_def
    by (intro attempt_inv) (cases "w_pending b = []"; simp)
qed

text \<open>The final loop: what it keeps, and what it has achieved when it ends.\<close>

definition closing :: "'e batcher \<Rightarrow> bool" where
  "closing b \<longleftrightarrow> fifo b \<and> w_state b = Stopped \<and> b_stop b \<and>
     (\<forall>r \<in> set (w_replies b). r_snapshot r \<le> length (b_accepted b)) \<and>
     (\<forall>(r, err) \<in> set (b_answers b). err = None \<longrightarrow> r_snapshot r \<le> length (b_acked b)) \<and>
     (\<forall>r \<in> set (b_flushReq b). r_snapshot r \<le> length (b_accepted b))"

lemma restage_closing: "closing b \<Longrightarrow> closing (restage b)"
  by (auto simp: closing_def restage_def fifo_def waiting_def worker_simps)

lemma restage_empty: "w_pending (restage b) = [] \<Longrightarrow> waiting (restage b) = []"
  by (auto simp: restage_def waiting_def worker_simps split: if_splits)

lemma sendOne_closing: "closing b \<Longrightarrow> closing (snd (sendOne SendOK b))"
  by (fastforce simp: closing_def fifo_def waiting_def sendOne_OK Let_def)

lemma closing_fail: "closing b \<Longrightarrow> closing (b\<lparr>b_table := t, b_lost := l\<rparr>)"
  by (simp add: closing_def fifo_def waiting_def)

lemma finalLoop_closing:
  assumes "finalLoop ocs b = Some (err, b')" "closing b"
  shows "closing b' \<and> (err = None \<longrightarrow> waiting b' = []) \<and>
    (err \<noteq> None \<longrightarrow> b_lost b' = Some (length (waiting b')))"
  using assms
proof (induction ocs arbitrary: b)
  case Nil
  then show ?case by (auto simp: restage_closing restage_empty split: if_splits)
next
  case (Cons oc ocs)
  note cl = restage_closing[OF Cons.prems(2)]
  show ?case
  proof (cases "w_pending (restage b) = []")
    case True
    with Cons.prems cl show ?thesis by (auto simp: restage_empty)
  next
    case False
    show ?thesis
    proof (cases "oc = SendOK")
      case True
      with False Cons.prems(1) have "finalLoop ocs (snd (sendOne SendOK (restage b))) = Some (err, b')"
        by (simp add: sendOne_OK Let_def)
      then show ?thesis by (rule Cons.IH) (rule sendOne_closing[OF cl])
    next
      case fail: False
      then obtain e t where "sendOne oc (restage b) = (Some e, (restage b)\<lparr>b_table := t\<rparr>)"
        using sendOne_fails by blast
      with False Cons.prems(1) have "err = Some e"
        "b' = (restage b)\<lparr>b_table := t, b_lost := Some (lostCount (restage b))\<rparr>"
        by (auto simp: lostCount_def)
      then show ?thesis using closing_fail[OF cl] by (simp add: waiting_def lostCount_def)
    qed
  qed
qed

lemma covered_snapshots:
  assumes "binv b" "w_state b \<noteq> Stopped" "r \<in> set (w_replies b)"
  shows "r_snapshot r \<le> length (b_accepted b)"
proof -
  have "r_snapshot r \<le> length (b_acked b) + length (w_pending b) + w_queued b"
    and "w_queued b \<le> length (b_in b)" and eq: "b_accepted b = b_acked b @ waiting b"
    using assms by (auto simp: binv_def covered_def fifo_def)
  then show ?thesis unfolding eq by (simp add: waiting_def)
qed

lemma onStop_closing:
  assumes "binv b" "w_state b \<noteq> Stopped" "b_stop b" "onStop ocs b = Some b'"
  shows "binv b' \<and> w_state b' = Stopped \<and>
    (waiting b' = [] \<or> b_lost b' = Some (length (waiting b')))"
proof -
  obtain err c where fl: "finalLoop ocs (b\<lparr>w_state := Stopped\<rparr>) = Some (err, c)"
    and b': "b' = replyAll err c" using assms(4) by (auto simp: onStop_def)
  have "closing (b\<lparr>w_state := Stopped\<rparr>)"
    using assms covered_snapshots[OF assms(1,2)]
    by (auto simp: closing_def binv_def fifo_def waiting_def covered_def)
  from finalLoop_closing[OF fl this] have cl: "closing c"
    and fin: "err = None \<Longrightarrow> waiting c = []"
    and lost: "err \<noteq> None \<Longrightarrow> b_lost c = Some (length (waiting c))" by auto
  have "err = None \<Longrightarrow> b_acked c = b_accepted c" using fin cl by (simp add: closing_def fifo_def)
  with cl have "binv b'"
    by (auto simp: b' replyAll_def binv_def closing_def fifo_def waiting_def covered_def)
  with cl fin lost show ?thesis
    by (cases "err = None") (auto simp: b' replyAll_def closing_def waiting_def)
qed

lemma bstep_inv: "bstep b b' \<Longrightarrow> binv b \<Longrightarrow> binv b'"
proof (induction rule: bstep.induct)
  case (b_retry b d oc)
  then have "w_state b = Retry" by (cases "w_state b") (auto simp: binv_def)
  with b_retry show ?case by (intro attempt_inv retry_staged)
qed (auto intro: enqueue_inv flushRequest_inv shutdown_inv onInput_inv onTick_inv onFlushReq_inv
      dest: onStop_closing)

lemma newBatcher_inv: "binv (newBatcher n)"
  by (simp add: newBatcher_def binv_def fifo_def waiting_def covered_def Let_def)

lemma breachable_inv: "breachable n b \<Longrightarrow> binv b"
  by (induction rule: breachable.induct) (auto intro: newBatcher_inv bstep_inv)

section \<open>Facts kept by the worker, proved once\<close>

text \<open>A property kept by a send, by staging and by writes to the worker's control locals is
  kept by everything the \<open>run\<close> loop composes from them.\<close>

locale worker_kept =
  fixes P :: "'e batcher \<Rightarrow> bool"
  assumes sent: "P b \<Longrightarrow> P (snd (sendOne oc b))"
    and staging: "P b \<Longrightarrow> P (stage n b)"
    and set_state: "P b \<Longrightarrow> P (b\<lparr>w_state := st\<rparr>)"
    and set_queued: "P b \<Longrightarrow> P (b\<lparr>w_queued := q\<rparr>)"
    and set_fails: "P b \<Longrightarrow> P (b\<lparr>w_fails := f\<rparr>)"
    and set_retry: "P b \<Longrightarrow> P (b\<lparr>w_retryC := d\<rparr>)"
    and set_replies: "P b \<Longrightarrow> P (b\<lparr>w_replies := rs\<rparr>)"
    and set_answers: "P b \<Longrightarrow> P (b\<lparr>b_answers := ans\<rparr>)"
    and set_lost: "P b \<Longrightarrow> P (b\<lparr>b_lost := l\<rparr>)"
begin

lemma kept_reply: "P b \<Longrightarrow> P (replyAll e b)"
  by (simp add: replyAll_def set_replies set_answers)

lemma kept_attemptRest: "P b \<Longrightarrow> P (attemptRest b)"
  by (simp add: attemptRest_def Let_def kept_reply set_retry set_queued set_state staging)

lemma kept_attempt:
  assumes "P b"
  shows "P (attempt oc b)"
proof (cases "w_pending b = []")
  case True
  then show ?thesis using assms by (simp add: attempt_def kept_attemptRest)
next
  case False
  obtain err b1 where s: "sendOne oc b = (err, b1)" by (cases "sendOne oc b")
  have "P b1" using sent[OF assms, of oc] s by simp
  with False s show ?thesis
    by (cases err) (simp_all add: attempt_def kept_attemptRest kept_reply set_fails set_retry set_queued)
qed

lemma kept_restage: "P b \<Longrightarrow> P (restage b)"
  by (simp add: restage_def set_state staging)

lemma kept_finalLoop: "finalLoop ocs b = Some (err, b') \<Longrightarrow> P b \<Longrightarrow> P b'"
proof (induction ocs arbitrary: b)
  case Nil
  then show ?case by (auto simp: kept_restage split: if_splits)
next
  case (Cons oc ocs)
  obtain e b1 where s: "sendOne oc (restage b) = (e, b1)" by (cases "sendOne oc (restage b)")
  have "P b1" using sent[OF kept_restage[OF Cons.prems(2)], of oc] s by simp
  with Cons.IH[of b1] Cons.prems s show ?case
    by (cases e) (auto simp: kept_restage set_lost split: if_splits)
qed

lemma kept_onStop: "onStop ocs b = Some b' \<Longrightarrow> P b \<Longrightarrow> P b'"
  by (auto simp: onStop_def kept_reply set_state dest: kept_finalLoop)

lemma kept_onTick: "P b \<Longrightarrow> P (onTick oc b)"
  by (simp add: onTick_def kept_attempt staging)

lemma kept_onFlushReq: "P b \<Longrightarrow> P (onFlushReq oc r b)"
  by (simp add: onFlushReq_def Let_def kept_attempt staging set_queued set_replies)

end

text \<open>With the calls of producers and clients, it is kept by every step.\<close>

locale step_kept = worker_kept P for P :: "'e batcher \<Rightarrow> bool" +
  assumes enqueued: "P b \<Longrightarrow> P (snd (enqueue evt b))"
    and requested: "P b \<Longrightarrow> P (snd (flushRequest ident b))"
    and stopping: "P b \<Longrightarrow> P (shutdown b)"
    and popped: "P b \<Longrightarrow> b_flushReq b = r # rs \<Longrightarrow> P (b\<lparr>b_flushReq := rs\<rparr>)"
    and received: "P b \<Longrightarrow> b_in b = evt # rest \<Longrightarrow> P (onInput oc evt (b\<lparr>b_in := rest\<rparr>))"
begin

lemma kept_bstep: "bstep b b' \<Longrightarrow> P b \<Longrightarrow> P b'"
  by (induction rule: bstep.induct)
    (auto intro: enqueued requested stopping received kept_onTick kept_onFlushReq kept_attempt
       kept_onStop popped)

end

text \<open>If it holds at the start, it holds in every reachable state.\<close>

locale batcher_kept = step_kept P for P :: "'e batcher \<Rightarrow> bool" +
  fixes maxSize :: nat
  assumes start: "P (newBatcher maxSize)"
begin

lemma kept_breachable: "breachable maxSize b \<Longrightarrow> P b"
  by (induction rule: breachable.induct) (auto intro: start kept_bstep)

end

lemma sendOne_durable: "durable b \<Longrightarrow> durable (snd (sendOne oc b))"
proof (cases "oc = SendOK")
  case True
  then show "durable b \<Longrightarrow> ?thesis" by (simp add: durable_def sendOne_OK Let_def subset_mset.add_mono)
next
  case False
  from sendOne_fails[OF this, of b] obtain e st where
    "sendOne oc b = (Some (ErrSend e), b\<lparr>b_table := b_table b @
       (if st then take (min (length (w_pending b)) (b_maxSize b)) (w_pending b) else [])\<rparr>)" by blast
  then show "durable b \<Longrightarrow> ?thesis"
    by (auto simp: durable_def intro: subset_mset.order_trans)
qed

lemma stage_durable [simp]: "durable (stage n b) = durable b"
  by (simp add: durable_def stage_def Let_def)

interpretation durable_kept: worker_kept "durable :: 'e batcher \<Rightarrow> bool"
  by unfold_locales (simp_all add: sendOne_durable, simp_all add: durable_def)

interpretation durable_always: batcher_kept "durable :: 'e batcher \<Rightarrow> bool" maxSize for maxSize
proof unfold_locales
  show "durable (newBatcher maxSize)" by (simp add: durable_def newBatcher_def Let_def)
next
  fix b :: "'e batcher" and evt
  assume "durable b"
  then show "durable (snd (enqueue evt b))" by (simp add: durable_def enqueue_def)
next
  fix b :: "'e batcher" and ident
  assume "durable b"
  then show "durable (snd (flushRequest ident b))" by (simp add: durable_def flushRequest_def)
next
  fix b :: "'e batcher"
  assume "durable b"
  then show "durable (shutdown b)" by (simp add: durable_def shutdown_def)
next
  fix b :: "'e batcher" and r rs
  assume "durable b"
  then show "durable (b\<lparr>b_flushReq := rs\<rparr>)" by (simp add: durable_def)
next
  fix b :: "'e batcher" and evt rest oc
  assume "durable b"
  then have "durable (b\<lparr>b_in := rest, w_buf := w_buf b @ [evt]\<rparr>)" by (simp add: durable_def)
  then show "durable (onInput oc evt (b\<lparr>b_in := rest\<rparr>))"
    by (simp add: onInput_def Let_def durable_kept.kept_attempt)
qed

text \<open>Nothing is ever deleted from a table.\<close>

lemma sendOne_table: "set (b_table b) \<subseteq> set (b_table (snd (sendOne oc b)))"
  by (cases "oc = SendOK") (use sendOne_fails[of oc b] in \<open>auto simp: sendOne_OK Let_def\<close>)

interpretation table_kept: worker_kept "\<lambda>b :: 'e batcher. T \<subseteq> set (b_table b)" for T
  by unfold_locales (erule subset_trans[OF _ sendOne_table] | simp add: stage_def Let_def)+

interpretation table_steps: step_kept "\<lambda>b :: 'e batcher. T \<subseteq> set (b_table b)" for T
proof unfold_locales
  fix b :: "'e batcher" and evt rest oc
  assume "T \<subseteq> set (b_table b)"
  then have "T \<subseteq> set (b_table (b\<lparr>b_in := rest, w_buf := w_buf b @ [evt]\<rparr>))" by simp
  then show "T \<subseteq> set (b_table (onInput oc evt (b\<lparr>b_in := rest\<rparr>)))"
    by (auto simp: onInput_def Let_def intro!: table_kept.kept_attempt table_kept.staging)
qed (simp_all add: enqueue_def flushRequest_def shutdown_def)

lemma sendOne_fixed [simp]:
  "b_maxSize (snd (sendOne oc b)) = b_maxSize b" "b_cap (snd (sendOne oc b)) = b_cap b"
  "b_in (snd (sendOne oc b)) = b_in b" "w_buf (snd (sendOne oc b)) = w_buf b"
  "b_flushReq (snd (sendOne oc b)) = b_flushReq b" "b_stop (snd (sendOne oc b)) = b_stop b"
  "b_accepted (snd (sendOne oc b)) = b_accepted b"
  by (cases oc; simp add: sendOne_def Let_def)+

lemma sendOne_shrinks: "length (w_pending (snd (sendOne oc b))) \<le> length (w_pending b)"
  by (cases oc) (simp_all add: sendOne_def Let_def)

interpretation bounded_kept: worker_kept "bounded :: 'e batcher \<Rightarrow> bool"
proof unfold_locales
  fix b :: "'e batcher" and oc
  assume "bounded b"
  then show "bounded (snd (sendOne oc b))"
    using sendOne_shrinks[of oc b] by (simp add: bounded_def)
next
  fix b :: "'e batcher" and n
  assume "bounded b"
  then show "bounded (stage n b)" by (auto simp: bounded_def stage_def Let_def)
qed (simp_all add: bounded_def)

interpretation bounded_always: batcher_kept "bounded :: 'e batcher \<Rightarrow> bool" maxSize for maxSize
proof unfold_locales
  show "bounded (newBatcher maxSize)" by (simp add: bounded_def newBatcher_def Let_def)
next
  fix b :: "'e batcher" and evt
  assume "bounded b"
  then show "bounded (snd (enqueue evt b))" by (simp add: bounded_def enqueue_def)
next
  fix b :: "'e batcher" and ident
  assume "bounded b"
  then show "bounded (snd (flushRequest ident b))" by (simp add: bounded_def flushRequest_def)
next
  fix b :: "'e batcher"
  assume "bounded b"
  then show "bounded (shutdown b)" by (simp add: bounded_def shutdown_def)
next
  fix b :: "'e batcher" and r rs
  assume "bounded b" "b_flushReq b = r # rs"
  then show "bounded (b\<lparr>b_flushReq := rs\<rparr>)" by (simp add: bounded_def)
next
  fix b :: "'e batcher" and evt rest oc
  assume b: "bounded b" "b_in b = evt # rest"
  let ?b = "b\<lparr>b_in := rest, w_buf := w_buf b @ [evt]\<rparr>"
  have "bounded (stage (length rest) ?b)" using b by (auto simp: bounded_def stage_def Let_def)
  moreover have "length (w_buf ?b) < b_maxSize b \<Longrightarrow> bounded ?b" using b by (simp add: bounded_def)
  ultimately show "bounded (onInput oc evt (b\<lparr>b_in := rest\<rparr>))"
    by (simp add: onInput_def Let_def bounded_kept.kept_attempt not_le)
qed

interpretation sizes_kept: worker_kept "\<lambda>b :: 'e batcher. b_maxSize b = m \<and> b_cap b = c" for m c
  by unfold_locales (simp_all add: stage_def Let_def)

lemma newBatcher_sizes [simp]:
  "b_maxSize (newBatcher n) = n" "b_cap (newBatcher n) = max 1024 (2 * n)"
  by (auto simp: newBatcher_def Let_def)

interpretation sizes_steps: step_kept "\<lambda>b :: 'e batcher. b_maxSize b = m \<and> b_cap b = c" for m c
proof unfold_locales
  fix b :: "'e batcher" and evt rest oc
  assume "b_maxSize b = m \<and> b_cap b = c"
  then have "b_maxSize (b\<lparr>b_in := rest, w_buf := w_buf b @ [evt]\<rparr>) = m \<and>
    b_cap (b\<lparr>b_in := rest, w_buf := w_buf b @ [evt]\<rparr>) = c" by simp
  then show "b_maxSize (onInput oc evt (b\<lparr>b_in := rest\<rparr>)) = m \<and> b_cap (onInput oc evt (b\<lparr>b_in := rest\<rparr>)) = c"
    by (simp add: onInput_def Let_def sizes_kept.kept_attempt sizes_kept.staging)
qed (simp_all add: enqueue_def flushRequest_def shutdown_def)

interpretation sizes_always: batcher_kept
  "\<lambda>b :: 'e batcher. b_maxSize b = n \<and> b_cap b = max 1024 (2 * n)" n for n
  by unfold_locales simp_all

section \<open>Refinement of the abstract log\<close>

lemma abs_stage: "w_pending b = [] \<Longrightarrow> abs_log (stage n b) = abs_log b"
  by (simp add: abs_log_def waiting_def worker_simps)

lemma abs_replyAll [simp]: "abs_log (replyAll e b) = abs_log b"
  by (simp add: abs_log_def waiting_def replyAll_def)

lemma abs_locals [simp]:
  "abs_log (b\<lparr>w_state := st\<rparr>) = abs_log b" "abs_log (b\<lparr>w_queued := q\<rparr>) = abs_log b"
  "abs_log (b\<lparr>w_fails := f\<rparr>) = abs_log b" "abs_log (b\<lparr>w_retryC := d\<rparr>) = abs_log b"
  "abs_log (b\<lparr>w_replies := rs\<rparr>) = abs_log b" "abs_log (b\<lparr>b_flushReq := rq\<rparr>) = abs_log b"
  "abs_log (b\<lparr>b_lost := l\<rparr>) = abs_log b" "abs_log (b\<lparr>b_table := t\<rparr>) = abs_log b"
  by (simp_all add: abs_log_def waiting_def)

lemma abs_attemptRest [simp]: "abs_log (attemptRest b) = abs_log b"
  by (simp add: attemptRest_def Let_def abs_stage)

lemma abs_restage [simp]: "abs_log (restage b) = abs_log b"
  by (simp add: restage_def abs_stage)

lemma abs_sendOne_OK:
  assumes "b_maxSize b = m" "0 < m" "w_pending b \<noteq> []"
  shows "log_step m (abs_log b) (abs_log (snd (sendOne SendOK b)))"
proof -
  let ?n = "min (length (w_pending b)) m"
  have "log_step m (b_acked b, take ?n (w_pending b) @ (drop ?n (w_pending b) @ w_buf b @ b_in b))
    (b_acked b @ take ?n (w_pending b), drop ?n (w_pending b) @ w_buf b @ b_in b)"
    using assms by (intro persist) auto
  then show ?thesis using assms by (simp add: abs_log_def waiting_def sendOne_OK Let_def)
qed

lemma abs_sendOne_fails: "oc \<noteq> SendOK \<Longrightarrow> abs_log (snd (sendOne oc b)) = abs_log b"
  using sendOne_fails[of oc b] by auto

lemma abs_attempt:
  assumes "b_maxSize b = m" "0 < m"
  shows "(log_step m)\<^sup>*\<^sup>* (abs_log b) (abs_log (attempt oc b))"
proof (cases "w_pending b = []")
  case False
  obtain err b1 where s: "sendOne oc b = (err, b1)" by (cases "sendOne oc b")
  have "(log_step m)\<^sup>*\<^sup>* (abs_log b) (abs_log b1)"
    using abs_sendOne_OK[OF assms False] abs_sendOne_fails[of oc b] s
    by (cases "oc = SendOK") auto
  then show ?thesis using False s by (cases err) (simp_all add: attempt_def)
qed (simp add: attempt_def)

lemma abs_finalLoop:
  assumes "finalLoop ocs b = Some (err, b')" "b_maxSize b = m" "0 < m"
  shows "(log_step m)\<^sup>*\<^sup>* (abs_log b) (abs_log b')"
  using assms(1,2)
proof (induction ocs arbitrary: b)
  case Nil
  then show ?case by (auto split: if_splits)
next
  case (Cons oc ocs)
  obtain e b1 where s: "sendOne oc (restage b) = (e, b1)" by (cases "sendOne oc (restage b)")
  have m: "b_maxSize (restage b) = m" using Cons.prems by (simp add: restage_def stage_def Let_def)
  show ?case
  proof (cases "w_pending (restage b) = []")
    case False
    have "(log_step m)\<^sup>*\<^sup>* (abs_log b) (abs_log b1)"
      using abs_sendOne_OK[OF m assms(3) False] abs_sendOne_fails[of oc "restage b"] s
      by (cases "oc = SendOK") auto
    moreover have "e = None \<Longrightarrow> (log_step m)\<^sup>*\<^sup>* (abs_log b1) (abs_log b')"
      using Cons.IH[of b1] Cons.prems(1) False s m sendOne_fixed(1)[of oc "restage b"] by simp
    moreover have "e \<noteq> None \<Longrightarrow> abs_log b' = abs_log b1" using Cons.prems(1) False s by auto
    ultimately show ?thesis by (cases "e = None") auto
  qed (use Cons.prems in auto)
qed

lemma bstep_refines:
  assumes "bstep b b'" "binv b" "b_maxSize b = m" "0 < m"
  shows "(log_step m)\<^sup>*\<^sup>* (abs_log b) (abs_log b')"
  using assms
proof (induction rule: bstep.induct)
  case (b_enqueue b evt)
  then show ?case
    using accept[of m "b_acked b" "waiting b" evt] by (auto simp: enqueue_def abs_log_def waiting_def)
next
  case (b_request b ident)
  then show ?case by (simp add: flushRequest_def)
next
  case (b_shutdown b)
  then show ?case by (simp add: shutdown_def abs_log_def waiting_def)
next
  case (b_input b evt rest oc)
  let ?b = "b\<lparr>b_in := rest, w_buf := w_buf b @ [evt]\<rparr>"
  have p: "w_pending b = []" using b_input by (simp add: binv_def)
  then have eq: "abs_log ?b = abs_log b" using b_input by (simp add: abs_log_def waiting_def)
  then have "abs_log (stage (length rest) ?b) = abs_log b" using p by (simp add: abs_stage)
  then show ?case using abs_attempt[of "stage (length rest) ?b" m oc] b_input eq
    by (simp add: onInput_def Let_def stage_def)
next
  case (b_tick b oc)
  have "w_pending b = []" using b_tick by (simp add: binv_def)
  then show ?case using abs_attempt[of "stage (length (b_in b)) b" m oc] b_tick
    by (simp add: onTick_def abs_stage) (simp add: stage_def Let_def)
next
  case (b_flushReq b r rs oc)
  let ?b = "b\<lparr>b_flushReq := rs, w_replies := w_replies b @ [r], w_queued := length (b_in b)\<rparr>"
  let ?c = "if w_pending ?b = [] then (stage (w_queued ?b) ?b)\<lparr>w_queued := 0\<rparr> else ?b"
  have "abs_log ?c = abs_log b" by (simp add: abs_stage)
  moreover have "b_maxSize ?c = m" using b_flushReq by (simp add: stage_def Let_def)
  ultimately show ?case using abs_attempt[of ?c m oc] b_flushReq by (simp add: onFlushReq_def Let_def)
next
  case (b_retry b d oc)
  then show ?case by (simp add: abs_attempt)
next
  case (b_stop b ocs b')
  then obtain err c where "finalLoop ocs (b\<lparr>w_state := Stopped\<rparr>) = Some (err, c)" "b' = replyAll err c"
    by (auto simp: onStop_def)
  with abs_finalLoop[of ocs "b\<lparr>w_state := Stopped\<rparr>" err c m] b_stop show ?case by simp
qed

section \<open>The contract its clients rely on\<close>

text \<open>A durable log with flush requests, as \<open>ReplaceEvent\<close> and the deduplicator use one: what
  was accepted and what was acknowledged only grow, the acknowledged events are a prefix of the
  accepted ones, and a flush that covers the first \<open>n\<close> accepted events is confirmed only once
  they are acknowledged.\<close>

locale durable_log =
  fixes valid :: "'q \<Rightarrow> bool" and step :: "'q \<Rightarrow> 'q \<Rightarrow> bool"
    and accepted :: "'q \<Rightarrow> 'e list" and acked :: "'q \<Rightarrow> 'e list"
    and confirmed :: "'q \<Rightarrow> nat \<Rightarrow> bool"
  assumes step_valid: "valid q \<Longrightarrow> step q q' \<Longrightarrow> valid q'"
    and accepted_grows: "valid q \<Longrightarrow> step q q' \<Longrightarrow> prefix (accepted q) (accepted q')"
    and acked_grows: "valid q \<Longrightarrow> step q q' \<Longrightarrow> prefix (acked q) (acked q')"
    and acked_accepted: "valid q \<Longrightarrow> prefix (acked q) (accepted q)"
    and confirmation: "valid q \<Longrightarrow> confirmed q n \<Longrightarrow> n \<le> length (acked q)"
begin

lemma run_grows:
  assumes "step\<^sup>*\<^sup>* q q'" "valid q"
  shows "valid q' \<and> prefix (accepted q) (accepted q') \<and> prefix (acked q) (acked q')"
  using assms
proof (induction rule: rtranclp_induct)
  case (step y z)
  then show ?case using step_valid accepted_grows acked_grows prefix_order.order_trans by metis
qed simp

lemma flush_covers:
  assumes "valid q" "step\<^sup>*\<^sup>* q q'" "confirmed q' (length (accepted q))"
  shows "set (accepted q) \<subseteq> set (acked q')"
proof -
  have v: "valid q'" "prefix (accepted q) (accepted q')" using run_grows[OF assms(2,1)] by auto
  have "length (accepted q) \<le> length (acked q')" by (rule confirmation[OF v(1) assms(3)])
  then have "prefix (accepted q) (acked q')"
    using v(2) acked_accepted[OF v(1)] prefix_length_prefix by blast
  then show ?thesis by (rule set_mono_prefix)
qed

end

definition bvalid :: "'e batcher \<Rightarrow> bool" where
  "bvalid b \<longleftrightarrow> binv b \<and> durable b \<and> 0 < b_maxSize b"

definition answeredNil :: "'e batcher \<Rightarrow> nat \<Rightarrow> bool" where
  "answeredNil b n \<longleftrightarrow> list_ex (\<lambda>(r, err). err = None \<and> r_snapshot r = n) (b_answers b)"

lemma log_run_grows:
  assumes "(log_step m)\<^sup>*\<^sup>* p p'"
  shows "prefix (fst p) (fst p') \<and> prefix (fst p @ snd p) (fst p' @ snd p')"
  using assms
proof (induction rule: rtranclp_induct)
  case (step y z)
  from step.hyps(2) have "prefix (fst y) (fst z) \<and> prefix (fst y @ snd y) (fst z @ snd z)"
    by (cases rule: log_step.cases) simp_all
  then show ?case using step.IH prefix_order.order_trans by metis
qed simp

lemma bstep_valid: "bvalid b \<Longrightarrow> bstep b b' \<Longrightarrow> bvalid b'"
  using bstep_inv[of b b'] durable_always.kept_bstep[of b b']
    sizes_steps.kept_bstep[of b b' "b_maxSize b" "b_cap b"] by (simp add: bvalid_def)

lemma bstep_grows:
  assumes "bvalid b" "bstep b b'"
  shows "prefix (b_accepted b) (b_accepted b')" "prefix (b_acked b) (b_acked b')"
proof -
  have "(log_step (b_maxSize b))\<^sup>*\<^sup>* (abs_log b) (abs_log b')"
    using assms by (intro bstep_refines) (simp_all add: bvalid_def)
  from log_run_grows[OF this] show "prefix (b_accepted b) (b_accepted b')" "prefix (b_acked b) (b_acked b')"
    using assms(1) bstep_valid[OF assms] by (simp_all add: abs_log_def bvalid_def binv_def fifo_def)
qed

interpretation tier_log: durable_log bvalid bstep b_accepted b_acked answeredNil
proof
  show "bvalid q \<Longrightarrow> prefix (b_acked q) (b_accepted q)" for q :: "'e batcher"
    by (metis binv_def bvalid_def fifo_def prefixI)
  show "bvalid q \<Longrightarrow> answeredNil q n \<Longrightarrow> n \<le> length (b_acked q)" for q :: "'e batcher" and n
    by (auto simp: bvalid_def binv_def covered_def answeredNil_def list_ex_iff)
qed (fact bstep_valid bstep_grows)+

lemma bvalid_stored: "bvalid b \<Longrightarrow> set (b_acked b) \<subseteq> set (b_table b)"
  by (metis bvalid_def durable_def set_mset_mono set_mset_mset)

section \<open>Progress\<close>

lemma sendOne_OK_progress:
  assumes "0 < b_maxSize b" "w_pending b \<noteq> []"
  shows "length (waiting (snd (sendOne SendOK b))) < length (waiting b)"
  using assms by (auto simp: sendOne_OK Let_def waiting_def)

lemma waiting_log: "abs_log b = abs_log b' \<Longrightarrow> waiting b = waiting b'"
  by (simp add: abs_log_def)

lemma finalLoop_ends:
  assumes "0 < b_maxSize b" "length (waiting b) \<le> length ocs"
  shows "\<exists>r. finalLoop ocs b = Some r"
  using assms
proof (induction ocs arbitrary: b)
  case Nil
  then show ?case by (auto simp: restage_def waiting_def stage_def Let_def)
next
  case (Cons oc ocs)
  have w: "waiting (restage b) = waiting b" by (rule waiting_log) simp
  have m: "0 < b_maxSize (restage b)" using Cons.prems by (simp add: restage_def stage_def Let_def)
  show ?case
  proof (cases "w_pending (restage b) \<noteq> [] \<and> oc = SendOK")
    case True
    then have "length (waiting (snd (sendOne SendOK (restage b)))) \<le> length ocs"
      using sendOne_OK_progress[OF m] w Cons.prems(2) by simp
    with Cons.IH[of "snd (sendOne SendOK (restage b))"] m True show ?thesis
      by (simp add: sendOne_OK Let_def)
  next
    case False
    then show ?thesis using sendOne_fails[of oc "restage b"] by auto
  qed
qed

lemma finalLoop_OK: "finalLoop ocs b = Some (err, b') \<Longrightarrow> set ocs \<subseteq> {SendOK} \<Longrightarrow> err = None"
  by (induction ocs arbitrary: b) (auto simp: sendOne_OK Let_def split: if_splits)

lemma attempt_OK_eq:
  "w_pending b \<noteq> [] \<Longrightarrow> attempt SendOK b = attemptRest ((snd (sendOne SendOK b))\<lparr>w_fails := 0\<rparr>)"
  by (simp add: attempt_def sendOne_OK Let_def)

lemma attempt_OK_progress:
  assumes "0 < b_maxSize b" "w_pending b \<noteq> []"
  shows "length (waiting (attempt SendOK b)) < length (waiting b)"
proof -
  have "abs_log (attempt SendOK b) = abs_log (snd (sendOne SendOK b))"
    by (simp add: attempt_OK_eq assms(2))
  then show ?thesis using waiting_log sendOne_OK_progress[OF assms] by metis
qed

lemma attempt_OK_replies:
  assumes "w_pending b \<noteq> []"
  shows "set (b_answers b) \<subseteq> set (b_answers (attempt SendOK b))"
    and "r \<in> set (w_replies b) \<Longrightarrow>
      r \<in> set (w_replies (attempt SendOK b)) \<or> (r, None) \<in> set (b_answers (attempt SendOK b))"
  using assms
  by (auto simp: attempt_OK_eq attemptRest_def sendOne_OK replyAll_def stage_def Let_def)

lemma attempts_drain:
  assumes "binv b" "w_state b \<noteq> Stopped" "0 < b_maxSize b" "length (waiting b) \<le> k"
  shows "let b' = attempts (replicate k SendOK) b in
    w_state b' = Normal \<and> set (b_answers b) \<subseteq> set (b_answers b') \<and>
    (\<forall>r \<in> set (w_replies b). (r, None) \<in> set (b_answers b')) \<and> binv b'"
  using assms
proof (induction k arbitrary: b)
  case 0
  then have "w_state b = Normal" by (cases "w_state b") (auto simp: binv_def waiting_def)
  with 0 show ?case by (auto simp: binv_def)
next
  case (Suc k)
  show ?case
  proof (cases "w_state b = Retry")
    case True
    let ?c = "attempt SendOK b"
    have p: "w_pending b \<noteq> []" using True Suc.prems(1) by (simp add: binv_def)
    have "binv ?c" using Suc.prems(1) True by (intro attempt_inv retry_staged)
    moreover have "0 < b_maxSize ?c" using sizes_kept.kept_attempt[of b "b_maxSize b" "b_cap b"] Suc.prems(3) by simp
    moreover have "length (waiting ?c) \<le> k" using attempt_OK_progress[OF Suc.prems(3) p] Suc.prems(4) by simp
    moreover have "w_state ?c \<noteq> Stopped" using True p
      by (simp add: attempt_OK_eq attemptRest_def sendOne_OK replyAll_def stage_def Let_def)
    ultimately show ?thesis
      using Suc.IH[of ?c] attempt_OK_replies[OF p] True by (auto simp: Let_def)
  next
    case False
    with Suc.prems have "w_state b = Normal" by (cases "w_state b") auto
    with Suc.prems show ?thesis by (auto simp: binv_def)
  qed
qed

interpretation accepted_kept: worker_kept "\<lambda>b :: 'e batcher. b_accepted b = a" for a
  by unfold_locales (simp_all add: stage_def Let_def)

lemma onStop_accounts:
  assumes inv: "binv b" and "0 < b_maxSize b" "b_stop b" "w_state b \<noteq> Stopped" "length (waiting b) \<le> length ocs"
  shows "\<exists>b'. onStop ocs b = Some b' \<and> b_acked b' @ waiting b' = b_accepted b \<and>
    (waiting b' = [] \<or> b_lost b' = Some (length (waiting b'))) \<and>
    (set ocs \<subseteq> {SendOK} \<longrightarrow> b_acked b' = b_accepted b)"
proof -
  let ?s = "b\<lparr>w_state := Stopped\<rparr>"
  have "waiting ?s = waiting b" by (simp add: waiting_def)
  then obtain err c where fl: "finalLoop ocs ?s = Some (err, c)"
    using finalLoop_ends[of ?s ocs] assms(2,5) by auto
  then have st: "onStop ocs b = Some (replyAll err c)" by (simp add: onStop_def)
  note out = onStop_closing[OF inv assms(4,3) st]
  have acc: "b_accepted (replyAll err c) = b_accepted b"
    using accepted_kept.kept_onStop[OF st] by simp
  have "closing ?s" using inv assms(3,4) covered_snapshots[OF inv assms(4)]
    by (auto simp: closing_def binv_def fifo_def waiting_def covered_def)
  then have "set ocs \<subseteq> {SendOK} \<longrightarrow> waiting c = []"
    using finalLoop_closing[OF fl] finalLoop_OK[OF fl] by auto
  then show ?thesis using st out acc by (auto simp: binv_def fifo_def waiting_def replyAll_def)
qed

lemma finalLoop_flushed: "finalLoop ocs b = Some (err, b') \<Longrightarrow> prefix (b_flushed b) (b_flushed b')"
proof (induction ocs arbitrary: b)
  case Nil
  then show ?case by (auto simp: restage_def worker_simps split: if_splits)
next
  case (Cons oc ocs)
  have keep: "b_flushed (restage b) = b_flushed b" by (simp add: restage_def worker_simps)
  have one: "prefix (b_flushed b) (b_flushed (snd (sendOne oc (restage b))))"
    using keep by (cases "flushContext oc (take (min (length (w_pending (restage b))) (b_maxSize (restage b))) (w_pending (restage b))) (b_table (restage b))";
        cases "fst (flushContext oc (take (min (length (w_pending (restage b))) (b_maxSize (restage b))) (w_pending (restage b))) (b_table (restage b)))")
      (simp_all add: sendOne_def Let_def)
  from Cons.prems consider "w_pending (restage b) = []" "b' = restage b" | e b2 where "sendOne oc (restage b) = (Some e, b2)" "b_flushed b' = b_flushed b2"
    | b2 where "sendOne oc (restage b) = (None, b2)" "finalLoop ocs b2 = Some (err, b')"
    by (auto split: if_splits prod.splits option.splits)
  then show ?case
  proof cases
    case 3
    then show ?thesis using one Cons.IH[of b2] prefix_order.trans by fastforce
  qed (use one keep in auto)
qed

lemma onStop_flushed: "onStop ocs b = Some b' \<Longrightarrow> prefix (b_flushed b) (b_flushed b')"
  by (auto simp: onStop_def replyAll_def dest!: finalLoop_flushed)

section \<open>A concrete run\<close>

text \<open>Three events into a batcher of chunk size two, then a flush request: after the first
  chunk the worker is retrying with one event pending and the request outstanding.\<close>

definition demo_requested :: "nat batcher" where
  "demo_requested = snd (flushRequest 0 (snd (enqueue 9 (snd (enqueue 8 (snd (enqueue 7 (newBatcher 2))))))))"

definition demo_retry :: "nat batcher" where
  "demo_retry = onFlushReq SendOK \<lparr>r_ident = 0, r_snapshot = 3\<rparr> (demo_requested\<lparr>b_flushReq := []\<rparr>)"

definition demo_done :: "nat batcher" where
  "demo_done = attempt SendOK demo_retry"

definition demo_stopping :: "nat batcher" where
  "demo_stopping = shutdown demo_retry"

lemmas demo_defs = demo_requested_def demo_retry_def demo_done_def demo_stopping_def newBatcher_def
  enqueue_def flushRequest_def onFlushReq_def attempt_def attemptRest_def sendOne_def stage_def
  replyAll_def shutdown_def backoff_def Let_def

lemma demo_retry_reachable: "breachable 2 demo_retry"
proof -
  have "breachable 2 demo_requested"
    unfolding demo_requested_def
    by (rule b_step[OF b_step[OF b_step[OF b_step[OF b_init]]]]) (rule bstep.intros)+
  moreover have "w_state demo_requested \<noteq> Stopped"
    "b_flushReq demo_requested = [\<lparr>r_ident = 0, r_snapshot = 3\<rparr>]" by (simp_all add: demo_defs)
  ultimately show ?thesis unfolding demo_retry_def by (blast intro: b_step bstep.b_flushReq)
qed

lemma demo_retry_values:
  "w_state demo_retry = Retry" "w_pending demo_retry = [9]" "w_retryC demo_retry = Some 0"
  "w_replies demo_retry = [\<lparr>r_ident = 0, r_snapshot = 3\<rparr>]" "b_acked demo_retry = [7, 8]"
  "b_in demo_retry = []" "w_buf demo_retry = []" "b_maxSize demo_retry = 2" "b_stop demo_retry = False"
  "b_accepted demo_retry = [7, 8, 9]" "w_fails demo_retry = 0"
  by (simp_all add: demo_defs)

lemma demo_done_reachable: "breachable 2 demo_done"
  unfolding demo_done_def
  by (rule b_step[OF demo_retry_reachable])
    (rule bstep.b_retry[where d = 0], simp_all add: demo_retry_values)

lemma demo_done_values:
  "b_answers demo_done = [(\<lparr>r_ident = 0, r_snapshot = 3\<rparr>, None)]" "b_acked demo_done = [7, 8, 9]"
  "b_flushed demo_done = [[7, 8], [9]]" "b_accepted demo_done = [7, 8, 9]"
  "b_table demo_done = [7, 8, 9]"
  by (simp_all add: demo_defs)

lemma demo_stopping_reachable: "breachable 2 demo_stopping"
  unfolding demo_stopping_def by (rule b_step[OF demo_retry_reachable bstep.b_shutdown])

lemma demo_stopping_values:
  "w_state demo_stopping = Retry" "b_stop demo_stopping" "waiting demo_stopping = [9]"
  "b_accepted demo_stopping = [7, 8, 9]"
  by (simp_all add: demo_stopping_def shutdown_def waiting_def demo_retry_values)

section \<open>Properties\<close>



text \<open>C5. \<open>FlushAll\<close> keeps its promise: once a request has been answered nil, every event
  accepted before the request was made has been acknowledged and is in the table.\<close>

theorem flushAll_nil_means_stored:
  assumes "breachable n b" "(r, None) \<in> set (b_answers b)"
  shows "take (r_snapshot r) (b_accepted b) = take (r_snapshot r) (b_acked b) \<and>
    set (take (r_snapshot r) (b_accepted b)) \<subseteq> set (b_table b)"
proof -
  have inv: "binv b" and dur: "durable b"
    using assms(1) by (auto intro: breachable_inv durable_always.kept_breachable)
  have "r_snapshot r \<le> length (b_acked b)" using inv assms(2) by (auto simp: binv_def covered_def)
  moreover have acc: "b_accepted b = b_acked b @ waiting b" using inv by (simp add: binv_def fifo_def)
  ultimately have eq: "take (r_snapshot r) (b_accepted b) = take (r_snapshot r) (b_acked b)" by simp
  have "set (b_acked b) \<subseteq> set (b_table b)"
    using dur by (metis durable_def set_mset_mono set_mset_mset)
  then show ?thesis using eq set_take_subset[of "r_snapshot r" "b_acked b"] by auto
qed

theorem flushAll_nil_means_stored_witness:
  "breachable 2 demo_done \<and> (\<lparr>r_ident = 0, r_snapshot = 3\<rparr>, None) \<in> set (b_answers demo_done) \<and>
   set (take 3 (b_accepted demo_done)) \<subseteq> set (b_table demo_done)"
  using flushAll_nil_means_stored[OF demo_done_reachable, of "\<lparr>r_ident = 0, r_snapshot = 3\<rparr>"]
    demo_done_reachable
  by (simp add: demo_done_values)

text \<open>The flushed-callback and the feed mirror see an event only after it is stored: in
  every reachable state the callback's chunks are exactly the acknowledged events in order,
  all of them are in the table, and no chunk is larger than the configured batch size.\<close>

theorem callback_only_after_stored:
  assumes "breachable n b"
  shows "concat (b_flushed b) = b_acked b \<and> b_offered b = b_acked b \<and>
    mset (concat (b_flushed b)) \<subseteq># mset (b_table b) \<and> list_all (\<lambda>c. length c \<le> n) (b_flushed b)"
  using durable_always.kept_breachable[OF assms] sizes_always.kept_breachable[OF assms]
  by (simp add: durable_def list_all_iff)

theorem callback_only_after_stored_witness:
  "breachable 2 demo_done \<and> b_flushed demo_done = [[7, 8], [9]] \<and>
   mset (concat (b_flushed demo_done)) \<subseteq># mset (b_table demo_done)"
  using callback_only_after_stored[OF demo_done_reachable] demo_done_reachable
  by (simp add: demo_done_values)

text \<open>Memory stays bounded however producers and outages interleave: the input channel
  holds at most \<open>max 1024 (2 * maxSize)\<close> events, the buffer stays below one batch, a staged
  snapshot is at most one batch plus one full channel, and at most 16 requests queue.\<close>

theorem batcher_bounded_memory:
  assumes "breachable n b" "0 < n"
  shows "length (b_in b) \<le> max 1024 (2 * n) \<and> length (w_buf b) < n \<and>
    length (w_pending b) \<le> n + max 1024 (2 * n) \<and> length (b_flushReq b) \<le> 16"
  using bounded_always.kept_breachable[OF assms(1)] sizes_always.kept_breachable[OF assms(1)] assms(2)
  by (auto simp: bounded_def)

theorem batcher_bounded_memory_witness:
  "breachable 2 demo_retry \<and> length (b_in demo_retry) \<le> 1024 \<and> length (w_buf demo_retry) < 2 \<and>
   length (w_pending demo_retry) \<le> 1026"
  using batcher_bounded_memory[OF demo_retry_reachable] demo_retry_reachable by simp

text \<open>C18. The batcher refines its specification: every step of the system, whatever the
  select chooses and however the insert ends, is a sequence of steps of an abstract durable
  log to which accepted events are appended and from whose waiting list a non-empty prefix of
  at most \<open>maxSize\<close> events is persisted at a time.\<close>

theorem batcher_refines_fifo_log:
  assumes "breachable n b" "0 < n" "bstep b b'"
  shows "(log_step n)\<^sup>*\<^sup>* (b_acked b, waiting b) (b_acked b', waiting b')"
  using bstep_refines[OF assms(3) breachable_inv[OF assms(1)] _ assms(2)]
    sizes_always.kept_breachable[OF assms(1)] by (simp add: abs_log_def)

theorem batcher_refines_fifo_log_witness:
  "bstep demo_retry demo_done \<and> (log_step 2)\<^sup>*\<^sup>* ([7, 8 :: nat], [9]) ([7, 8, 9], [])"
proof -
  have st: "bstep demo_retry demo_done" unfolding demo_done_def
    by (rule bstep.b_retry[where d = 0]) (simp_all add: demo_retry_values)
  have "waiting demo_done = []" by (simp add: waiting_def demo_defs)
  then show ?thesis using batcher_refines_fifo_log[OF demo_retry_reachable _ st] st
    by (simp add: waiting_def demo_retry_values demo_done_values)
qed

text \<open>C28. The worker recovers from an outage: from any reachable retrying state, once sends
  succeed again, at most as many attempts as there are waiting events bring it back to
  normal with nothing pending, and every outstanding flush request is answered nil.\<close>

theorem batcher_recovers:
  assumes "breachable n b" "0 < n" "w_state b = Retry"
  shows "let b' = attempts (replicate (length (waiting b)) SendOK) b in
    w_state b' = Normal \<and> w_pending b' = [] \<and>
    list_all (\<lambda>r. (r, None) \<in> set (b_answers b')) (w_replies b)"
  using attempts_drain[OF breachable_inv[OF assms(1)], of "length (waiting b)"] assms
    sizes_always.kept_breachable[OF assms(1)]
  by (auto simp: Let_def list_all_iff binv_def)

theorem batcher_recovers_witness:
  "w_state demo_retry = Retry \<and>
   (let b' = attempts (replicate (length (waiting demo_retry)) SendOK) demo_retry in
     w_state b' = Normal \<and> w_pending b' = [] \<and>
     list_all (\<lambda>r. (r, None) \<in> set (b_answers b')) [\<lparr>r_ident = 0, r_snapshot = 3\<rparr>])"
  using batcher_recovers[OF demo_retry_reachable] by (simp add: demo_retry_values)

text \<open>C29. Shutdown terminates and is honest: from any reachable state in which \<open>stop\<close> was
  closed, the final flush ends after at most one send per waiting event; afterwards every
  accepted event is either acknowledged or counted in the logged loss, and if no send fails
  nothing is lost.\<close>

theorem shutdown_accounts_for_all:
  assumes "breachable n b" "0 < n" "b_stop b" "w_state b \<noteq> Stopped"
    "length (waiting b) \<le> length ocs"
  shows "\<exists>b'. onStop ocs b = Some b' \<and> b_acked b' @ waiting b' = b_accepted b \<and>
    (waiting b' = [] \<or> b_lost b' = Some (length (waiting b'))) \<and>
    (set ocs \<subseteq> {SendOK} \<longrightarrow> b_acked b' = b_accepted b)"
proof (rule onStop_accounts)
  show "binv b" using assms(1) by (rule breachable_inv)
  show "0 < b_maxSize b" using assms(1,2) by (auto dest: sizes_always.kept_breachable)
qed (use assms in simp_all)

theorem shutdown_accounts_for_all_witness:
  "breachable 2 demo_stopping \<and>
   (\<exists>b'. onStop [SendOK] demo_stopping = Some b' \<and> b_acked b' = [7, 8, 9])"
  using shutdown_accounts_for_all[OF demo_stopping_reachable, of "[SendOK]"] demo_stopping_reachable
  by (auto simp: demo_stopping_values)

text \<open>A failed send keeps everything for the retry and backs off: the pending batch and
  the queued input are untouched, the outstanding flush requests get the error, and the retry
  timer is armed with a delay between 1 s and 30 s that follows 1, 2, 4, 8, 16, 30, 30 s over
  consecutive failures.\<close>

theorem failed_send_backs_off:
  assumes "oc \<noteq> SendOK" "w_pending b \<noteq> []"
  shows "let b' = attempt oc b in
    w_pending b' = w_pending b \<and> b_in b' = b_in b \<and> b_acked b' = b_acked b \<and>
    w_fails b' = Suc (w_fails b) \<and> w_replies b' = [] \<and>
    (\<exists>e. b_answers b' = b_answers b @ map (\<lambda>r. (r, Some (ErrSend e))) (w_replies b)) \<and>
    (\<exists>d. w_retryC b' = Some d \<and> second \<le> d \<and> d \<le> 30 * second \<and>
       d = (if w_fails b < 5 then second * 2 ^ w_fails b else 30 * second))"
proof -
  obtain e st where s: "sendOne oc b = (Some (ErrSend e), b\<lparr>b_table := b_table b @ st\<rparr>)"
    using sendOne_fails[OF assms(1), of b] by blast
  have "backoff (w_fails b) = (if w_fails b < 5 then second * 2 ^ w_fails b else 30 * second)"
  proof (cases "w_fails b < 5")
    case True
    then have "w_fails b \<in> {0, 1, 2, 3, 4}" by auto
    then show ?thesis by (auto simp: backoff_def)
  qed (simp add: backoff_def min_def)
  moreover have "second \<le> backoff (w_fails b)"
    using one_le_power[of "2::int" "min (w_fails b) 5"] by (simp add: backoff_def)
  moreover have "backoff (w_fails b) \<le> 30 * second" by (simp add: backoff_def)
  ultimately show ?thesis using assms(2) s by (simp add: attempt_def replyAll_def Let_def)
qed

theorem failed_send_backs_off_witness:
  "w_pending demo_retry = [9] \<and>
   w_pending (attempt (SendFails ''down'' False) demo_retry) = [9] \<and>
   w_fails (attempt (SendFails ''down'' False) demo_retry) = 1"
  using failed_send_backs_off[of "SendFails ''down'' False" demo_retry]
  by (simp add: demo_retry_values Let_def)

end
