(* ===== verification/Tombstone.thy ===== *)
theory Tombstone
  imports Relay_Prelude "HOL-Library.Sublist"
begin

text \<open>
  The tombstone writer (\<open>internal/store/tombstone.go\<close>): producers push ids into a bounded
  channel (\<open>retire\<close>), one goroutine coalesces them into inserts of at most 1000 rows and
  reloads the tombstone dictionary at a bounded rate. The record holds the channel, the
  goroutine's locals and, as history, what was accepted into the channel, what an insert
  acknowledged, what was dropped, how many acknowledged rows the last confirmed reload
  covered, and the start and end of every reload of the run loop. How each insert and reload
  ends is given by the environment.
\<close>

datatype tomb_error = errTombstoneWriterStopped | errTombstoneWriterFull

record tombstoneReq =
  tr_id :: string
  tr_reason :: string
  tr_deletedBy :: string

text \<open>How a dictionary reload ends: the statement fails, the probe query fails, the probe id
  is not in the dictionary, or it is.\<close>

datatype reload_outcome = ReloadFails | ProbeFails | ProbeMissing | ProbeFound

record tombstoneWriter =
  t_in :: "tombstoneReq list"
  t_stopCh :: bool
  t_done :: bool
  t_buf :: "tombstoneReq list"
  t_dirty :: bool
  t_probeID :: string
  t_retrying :: bool
  t_dropped :: nat
  t_lastReload :: "instant option"
  t_draining :: "nat option"
  t_rows :: "tombstoneReq list"
  t_accepted :: "tombstoneReq list"
  t_acked :: "tombstoneReq list"
  t_discarded :: "tombstoneReq list"
  t_visible :: nat
  t_reloads :: "(instant \<times> instant) list"
  t_lost :: "nat option"

section \<open>Definitions\<close>

definition tombstoneBatchMax :: nat where "tombstoneBatchMax = 1000"
definition tombstoneRetainedMax :: nat where "tombstoneRetainedMax = 3 * tombstoneBatchMax"
definition tombstoneReloadEvery :: duration where "tombstoneReloadEvery = 2 * second"
definition tombstoneQueueCap :: nat where "tombstoneQueueCap = 4096"

definition newTombstoneWriter :: tombstoneWriter where
  "newTombstoneWriter =
     \<lparr>t_in = [], t_stopCh = False, t_done = False, t_buf = [], t_dirty = False, t_probeID = [],
      t_retrying = False, t_dropped = 0, t_lastReload = None, t_draining = None, t_rows = [],
      t_accepted = [], t_acked = [], t_discarded = [], t_visible = 0, t_reloads = [], t_lost = None\<rparr>"

text \<open>The channel send of \<open>retire\<close>'s select.\<close>

definition push :: "tombstoneReq \<Rightarrow> tombstoneWriter \<Rightarrow> tombstoneWriter" where
  "push req w = w\<lparr>t_in := t_in w @ [req], t_accepted := t_accepted w @ [req]\<rparr>"

text \<open>\<open>retire\<close> with the writer idle meanwhile: a full channel then ends in the timer.\<close>

fun retireLoop :: "string list \<Rightarrow> string \<Rightarrow> string \<Rightarrow> tombstoneWriter \<Rightarrow>
    tomb_error option \<times> tombstoneWriter" where
  "retireLoop [] reason deletedBy w = (None, w)"
| "retireLoop (i # ids) reason deletedBy w =
     (if t_stopCh w then (Some errTombstoneWriterStopped, w)
      else if length (t_in w) < tombstoneQueueCap
      then retireLoop ids reason deletedBy
             (push \<lparr>tr_id = i, tr_reason = reason, tr_deletedBy = deletedBy\<rparr> w)
      else (Some errTombstoneWriterFull, w))"

definition retire :: "string list \<Rightarrow> string \<Rightarrow> string \<Rightarrow> tombstoneWriter \<Rightarrow>
    tomb_error option \<times> tombstoneWriter" where
  "retire ids reason deletedBy w =
     (if t_stopCh w then (Some errTombstoneWriterStopped, w)
      else retireLoop ids reason deletedBy w)"

definition appendReq :: "tombstoneReq \<Rightarrow> tombstoneWriter \<Rightarrow> tombstoneWriter" where
  "appendReq req w =
     (if length (t_buf w) = tombstoneRetainedMax
      then w\<lparr>t_dropped := Suc (t_dropped w), t_discarded := t_discarded w @ [req]\<rparr>
      else w\<lparr>t_buf := t_buf w @ [req]\<rparr>)"

text \<open>\<open>flush\<close>: the rows written and whether the insert succeeded.\<close>

fun tombFlush :: "send_outcome \<Rightarrow> tombstoneReq list \<Rightarrow> tombstoneReq list \<Rightarrow>
    bool \<times> tombstoneReq list" where
  "tombFlush oc [] rows = (False, rows)"
| "tombFlush (PrepareFails e) (r # reqs) rows = (False, rows)"
| "tombFlush (AppendFails e) (r # reqs) rows = (False, rows)"
| "tombFlush (SendFails e stored) (r # reqs) rows =
     (False, if stored then rows @ r # reqs else rows)"
| "tombFlush SendOK (r # reqs) rows = (True, rows @ r # reqs)"

text \<open>The loop of the \<open>flush\<close> closure: the \<open>i\<close>-th insert of the call ends as \<open>oc i\<close>.\<close>

function flushLoop :: "(nat \<Rightarrow> send_outcome) \<Rightarrow> nat \<Rightarrow> tombstoneWriter \<Rightarrow> tombstoneWriter" where
  "flushLoop oc i w =
     (if t_buf w = [] then w\<lparr>t_retrying := False\<rparr>
      else
        let n = min (length (t_buf w)) tombstoneBatchMax; chunk = take n (t_buf w) in
        case tombFlush (oc i) chunk (t_rows w) of
          (False, rows) \<Rightarrow> w\<lparr>t_rows := rows, t_retrying := True\<rparr>
        | (True, rows) \<Rightarrow>
            flushLoop oc (Suc i)
              (w\<lparr>t_rows := rows, t_probeID := tr_id (last chunk), t_dirty := True,
                 t_acked := t_acked w @ chunk, t_buf := drop n (t_buf w)\<rparr>))"
  by pat_completeness auto
termination
  by (relation "measure (\<lambda>(oc, i, w). length (t_buf w))") (auto simp: tombstoneBatchMax_def)

definition reportDrops :: "tombstoneWriter \<Rightarrow> tombstoneWriter" where
  "reportDrops w = (if t_dropped w > 0 then w\<lparr>t_dropped := 0\<rparr> else w)"

definition flushAllBuf :: "(nat \<Rightarrow> send_outcome) \<Rightarrow> tombstoneWriter \<Rightarrow> tombstoneWriter" where
  "flushAllBuf oc w = flushLoop oc 0 (reportDrops w)"

text \<open>\<open>reload\<close>, ending at time \<open>fin\<close>; on \<open>ProbeFound\<close> the dictionary covers every
  acknowledged row.\<close>

definition reload :: "reload_outcome \<Rightarrow> instant \<Rightarrow> tombstoneWriter \<Rightarrow> bool \<times> tombstoneWriter" where
  "reload ro fin w =
     (let w1 = w\<lparr>t_lastReload := Some fin\<rparr> in
      if ro = ProbeFound then (True, w1\<lparr>t_visible := length (t_acked w)\<rparr>) else (False, w1))"

definition reloadDue :: "instant \<Rightarrow> tombstoneWriter \<Rightarrow> bool" where
  "reloadDue now w \<longleftrightarrow>
     (case t_lastReload w of None \<Rightarrow> True | Some l \<Rightarrow> now - l \<ge> tombstoneReloadEvery)"

text \<open>The tail of every iteration of the run loop.\<close>

definition maybeReload :: "reload_outcome \<Rightarrow> instant \<Rightarrow> instant \<Rightarrow> tombstoneWriter \<Rightarrow> tombstoneWriter" where
  "maybeReload ro now fin w =
     (if t_dirty w \<and> reloadDue now w
      then (case reload ro fin w of (ok, w1) \<Rightarrow>
              w1\<lparr>t_dirty := \<not> ok, t_reloads := (now, fin) # t_reloads w1\<rparr>)
      else w)"

definition takeReq :: "(nat \<Rightarrow> send_outcome) \<Rightarrow> tombstoneReq \<Rightarrow> tombstoneWriter \<Rightarrow> tombstoneWriter" where
  "takeReq oc req w =
     (let w1 = appendReq req w in
      if length (t_buf w1) \<ge> tombstoneBatchMax \<and> \<not> t_retrying w1 then flushAllBuf oc w1 else w1)"

definition onReq :: "(nat \<Rightarrow> send_outcome) \<Rightarrow> reload_outcome \<Rightarrow> instant \<Rightarrow> instant \<Rightarrow>
    tombstoneReq \<Rightarrow> tombstoneWriter \<Rightarrow> tombstoneWriter" where
  "onReq oc ro now fin req w = maybeReload ro now fin (takeReq oc req w)"

definition onTickT :: "(nat \<Rightarrow> send_outcome) \<Rightarrow> reload_outcome \<Rightarrow> instant \<Rightarrow> instant \<Rightarrow>
    tombstoneWriter \<Rightarrow> tombstoneWriter" where
  "onTickT oc ro now fin w = maybeReload ro now fin (flushAllBuf oc w)"

text \<open>The end of the drain: flush, report what is left, reload once, exit.\<close>

definition drainEnd :: "(nat \<Rightarrow> send_outcome) \<Rightarrow> reload_outcome \<Rightarrow> instant \<Rightarrow>
    tombstoneWriter \<Rightarrow> tombstoneWriter" where
  "drainEnd oc ro fin w =
     (let w1 = flushAllBuf oc w;
          w2 = (if t_buf w1 \<noteq> [] then w1\<lparr>t_lost := Some (length (t_buf w1))\<rparr> else w1);
          w3 = (if t_dirty w2 then snd (reload ro fin w2) else w2)
      in w3\<lparr>t_done := True\<rparr>)"

text \<open>The steps: a producer's send committing (it may still commit after \<open>stopCh\<close> closes, as
  its select has both cases ready), \<open>stop\<close>, the run loop's cases, and the drain loop.\<close>

inductive tstep :: "tombstoneWriter \<Rightarrow> tombstoneWriter \<Rightarrow> bool" where
  t_push: "length (t_in w) < tombstoneQueueCap \<Longrightarrow> tstep w (push req w)"
| t_stop: "tstep w (w\<lparr>t_stopCh := True\<rparr>)"
| t_req: "t_draining w = None \<Longrightarrow> \<not> t_done w \<Longrightarrow> t_in w = req # rest \<Longrightarrow>
     tstep w (onReq oc ro now fin req (w\<lparr>t_in := rest\<rparr>))"
| t_tick: "t_draining w = None \<Longrightarrow> \<not> t_done w \<Longrightarrow> tstep w (onTickT oc ro now fin w)"
| t_drain: "t_draining w = None \<Longrightarrow> \<not> t_done w \<Longrightarrow> t_stopCh w \<Longrightarrow> tstep w (w\<lparr>t_draining := Some 0\<rparr>)"
| t_drain_req: "t_draining w = Some k \<Longrightarrow> \<not> t_done w \<Longrightarrow> t_in w = req # rest \<Longrightarrow>
     tstep w ((takeReq oc req (w\<lparr>t_in := rest\<rparr>))\<lparr>t_draining := Some 0\<rparr>)"
| t_drain_empty: "t_draining w = Some k \<Longrightarrow> \<not> t_done w \<Longrightarrow> t_in w = [] \<Longrightarrow> Suc k < 2 \<Longrightarrow>
     tstep w (w\<lparr>t_draining := Some (Suc k)\<rparr>)"
| t_drain_end: "t_draining w = Some k \<Longrightarrow> \<not> t_done w \<Longrightarrow> t_in w = [] \<Longrightarrow> \<not> Suc k < 2 \<Longrightarrow>
     tstep w (drainEnd oc ro fin w)"

inductive treachable :: "tombstoneWriter \<Rightarrow> bool" where
  t_init: "treachable newTombstoneWriter"
| t_step: "treachable w \<Longrightarrow> tstep w w' \<Longrightarrow> treachable w'"

text \<open>Accounting: accepted requests are acknowledged, buffered, queued or discarded, and
  those not discarded keep their order.\<close>

definition accounted :: "tombstoneWriter \<Rightarrow> bool" where
  "accounted w \<longleftrightarrow>
     mset (t_accepted w) = mset (t_acked w @ t_buf w @ t_in w) + mset (t_discarded w) \<and>
     subseq (t_acked w @ t_buf w @ t_in w) (t_accepted w)"

text \<open>Visibility: the dictionary lags only while \<open>dirty\<close>, and the probe id is the newest
  acknowledged row, so a confirmed reload covers all of them.\<close>

definition tracked :: "tombstoneWriter \<Rightarrow> bool" where
  "tracked w \<longleftrightarrow> t_visible w \<le> length (t_acked w) \<and> (\<not> t_dirty w \<longrightarrow> t_visible w = length (t_acked w)) \<and>
     (t_acked w \<noteq> [] \<longrightarrow> t_probeID w = tr_id (last (t_acked w))) \<and>
     mset (t_acked w) \<subseteq># mset (t_rows w)"

definition within :: "tombstoneWriter \<Rightarrow> bool" where
  "within w \<longleftrightarrow> length (t_buf w) \<le> tombstoneRetainedMax \<and> length (t_in w) \<le> tombstoneQueueCap \<and>
     (\<not> t_retrying w \<longrightarrow> length (t_buf w) < tombstoneBatchMax)"

fun spaced :: "(instant \<times> instant) list \<Rightarrow> bool" where
  "spaced ((s2, f2) # (s1, f1) # rs) \<longleftrightarrow> s2 - f1 \<ge> tombstoneReloadEvery \<and> spaced ((s1, f1) # rs)"
| "spaced _ \<longleftrightarrow> True"

definition spacing :: "tombstoneWriter \<Rightarrow> bool" where
  "spacing w \<longleftrightarrow> spaced (t_reloads w) \<and>
     (\<not> t_done w \<longrightarrow> t_lastReload w = (case t_reloads w of [] \<Rightarrow> None | (s, f) # _ \<Rightarrow> Some f))"

definition tinv :: "tombstoneWriter \<Rightarrow> bool" where
  "tinv w \<longleftrightarrow> accounted w \<and> tracked w \<and> within w \<and> spacing w"

section \<open>The flush loop\<close>

declare flushLoop.simps [simp del]

lemmas tomb_consts = tombstoneBatchMax_def tombstoneRetainedMax_def tombstoneQueueCap_def

lemma batchMax_pos [simp]: "0 < tombstoneBatchMax"
  by (simp add: tombstoneBatchMax_def)

lemma tombFlush_cases:
  assumes "reqs \<noteq> []"
  obtains (ok) "tombFlush oc reqs rows = (True, rows @ reqs)"
  | (fail) stored where "tombFlush oc reqs rows = (False, rows @ (if stored then reqs else []))"
proof (cases reqs)
  case (Cons r rs)
  show ?thesis
  proof (cases oc)
    case (PrepareFails e) then show ?thesis using Cons fail[of False] by simp
  next
    case (AppendFails e) then show ?thesis using Cons fail[of False] by simp
  next
    case (SendFails e st) then show ?thesis using Cons fail[of st] by simp
  next
    case SendOK then show ?thesis using Cons ok by simp
  qed
qed (use assms in simp)

definition sentChunk :: "nat \<Rightarrow> tombstoneWriter \<Rightarrow> tombstoneWriter" where
  "sentChunk n w = w\<lparr>t_rows := t_rows w @ take n (t_buf w), t_probeID := tr_id (last (take n (t_buf w))),
     t_dirty := True, t_acked := t_acked w @ take n (t_buf w), t_buf := drop n (t_buf w)\<rparr>"

text \<open>A Hoare rule for the loop: an invariant kept by every acknowledged chunk, and a
  postcondition for its two exits.\<close>

lemma flushLoop_rule:
  assumes "P w"
    and fin: "\<And>w. P w \<Longrightarrow> t_buf w = [] \<Longrightarrow> Q (w\<lparr>t_retrying := False\<rparr>)"
    and fail: "\<And>w rows. P w \<Longrightarrow> t_buf w \<noteq> [] \<Longrightarrow> Q (w\<lparr>t_rows := t_rows w @ rows, t_retrying := True\<rparr>)"
    and ok: "\<And>w n. P w \<Longrightarrow> 0 < n \<Longrightarrow> n \<le> length (t_buf w) \<Longrightarrow> n \<le> tombstoneBatchMax \<Longrightarrow> P (sentChunk n w)"
  shows "Q (flushLoop oc i w)"
  using assms(1)
proof (induction oc i w rule: flushLoop.induct)
  case (1 oc i w)
  show ?case
  proof (cases "t_buf w = []")
    case True
    then show ?thesis using fin[OF "1.prems"] by (simp add: flushLoop.simps[of oc i w])
  next
    case False
    let ?n = "min (length (t_buf w)) tombstoneBatchMax"
    have ne: "take ?n (t_buf w) \<noteq> []" using False by simp
    from ne show ?thesis
    proof (cases rule: tombFlush_cases[where oc = "oc i" and rows = "t_rows w"])
      case ok
      have "P (sentChunk ?n w)" using False by (intro assms(4) "1.prems") auto
      with "1.IH"[OF False refl refl ok[symmetric] refl] show ?thesis
        using False ok by (simp add: flushLoop.simps[of oc i w] Let_def sentChunk_def)
    next
      case (fail stored)
      then show ?thesis using False assms(3)[OF "1.prems" False]
        by (simp add: flushLoop.simps[of oc i w] Let_def)
    qed
  qed
qed

lemma reportDrops_cong:
  assumes "\<And>w. P w \<Longrightarrow> P (w\<lparr>t_dropped := 0\<rparr>)" "P w"
  shows "P (reportDrops w)"
  using assms by (simp add: reportDrops_def)

text \<open>What the flush leaves alone, and its two outcomes.\<close>

lemma flushAllBuf_frame:
  "t_in (flushAllBuf oc w) = t_in w \<and> t_accepted (flushAllBuf oc w) = t_accepted w \<and>
   t_discarded (flushAllBuf oc w) = t_discarded w \<and> t_lastReload (flushAllBuf oc w) = t_lastReload w \<and>
   t_reloads (flushAllBuf oc w) = t_reloads w \<and> t_done (flushAllBuf oc w) = t_done w \<and>
   t_stopCh (flushAllBuf oc w) = t_stopCh w \<and> t_visible (flushAllBuf oc w) = t_visible w \<and>
   t_draining (flushAllBuf oc w) = t_draining w"
  unfolding flushAllBuf_def
  by (rule flushLoop_rule[where P = "\<lambda>v. t_in v = t_in w \<and> t_accepted v = t_accepted w \<and>
        t_discarded v = t_discarded w \<and> t_lastReload v = t_lastReload w \<and> t_reloads v = t_reloads w \<and>
        t_done v = t_done w \<and> t_stopCh v = t_stopCh w \<and> t_visible v = t_visible w \<and>
        t_draining v = t_draining w"])
    (auto simp: reportDrops_def sentChunk_def)

lemma flushAllBuf_frames [simp]:
  "t_in (flushAllBuf oc w) = t_in w" "t_accepted (flushAllBuf oc w) = t_accepted w"
  "t_discarded (flushAllBuf oc w) = t_discarded w" "t_lastReload (flushAllBuf oc w) = t_lastReload w"
  "t_reloads (flushAllBuf oc w) = t_reloads w" "t_done (flushAllBuf oc w) = t_done w"
  "t_stopCh (flushAllBuf oc w) = t_stopCh w" "t_visible (flushAllBuf oc w) = t_visible w"
  "t_draining (flushAllBuf oc w) = t_draining w"
  by (simp_all add: flushAllBuf_frame)

lemma flushAllBuf_log: "t_acked (flushAllBuf oc w) @ t_buf (flushAllBuf oc w) = t_acked w @ t_buf w"
  unfolding flushAllBuf_def
  by (rule flushLoop_rule[where P = "\<lambda>v. t_acked v @ t_buf v = t_acked w @ t_buf w"])
    (auto simp: reportDrops_def sentChunk_def)

lemma flushAllBuf_exit: "t_buf (flushAllBuf oc w) = [] \<or> t_retrying (flushAllBuf oc w)"
  unfolding flushAllBuf_def by (rule flushLoop_rule[where P = "\<lambda>_. True"]) auto

lemma flushAllBuf_shrinks: "length (t_buf (flushAllBuf oc w)) \<le> length (t_buf w)"
  unfolding flushAllBuf_def
  by (rule flushLoop_rule[where P = "\<lambda>v. length (t_buf v) \<le> length (t_buf w)"])
    (auto simp: reportDrops_def sentChunk_def)

lemma flushAllBuf_OK:
  "t_buf (flushAllBuf (\<lambda>_. SendOK) w) = [] \<and> \<not> t_retrying (flushAllBuf (\<lambda>_. SendOK) w)"
proof -
  have "t_buf (flushLoop oc i v) = [] \<and> \<not> t_retrying (flushLoop oc i v)" if "oc = (\<lambda>_. SendOK)" for oc i v
    using that
  proof (induction oc i v rule: flushLoop.induct)
    case (1 oc i w)
    show ?case
    proof (cases "t_buf w = []")
      case False
      let ?n = "min (length (t_buf w)) tombstoneBatchMax"
      have "take ?n (t_buf w) \<noteq> []" using False by simp
      then have "tombFlush (oc i) (take ?n (t_buf w)) (t_rows w) = (True, t_rows w @ take ?n (t_buf w))"
        using "1.prems" by (cases "take ?n (t_buf w)") auto
      with "1.IH"[OF False refl refl this[symmetric] refl "1.prems"] False show ?thesis
        by (simp add: flushLoop.simps[of oc i w] Let_def)
    qed (simp add: flushLoop.simps[of oc i w])
  qed
  then show ?thesis by (simp add: flushAllBuf_def)
qed

lemma flushAllBuf_tracked:
  assumes "tracked w"
  shows "tracked (flushAllBuf oc w)"
  unfolding flushAllBuf_def
proof (rule flushLoop_rule[where P = tracked])
  show "tracked (reportDrops w)" using assms by (simp add: reportDrops_def tracked_def)
next
  fix v :: tombstoneWriter and n
  assume v: "tracked v" "0 < n" "n \<le> length (t_buf v)"
  then have "take n (t_buf v) \<noteq> []" by auto
  with v show "tracked (sentChunk n v)"
    by (auto simp: tracked_def sentChunk_def subset_mset.add_mono)
qed (auto simp: tracked_def intro: subset_mset.order_trans)

section \<open>Every step keeps the invariant\<close>

lemma flushAllBuf_accounted:
  assumes "accounted w"
  shows "accounted (flushAllBuf oc w)"
proof -
  have log: "t_acked (flushAllBuf oc w) @ t_buf (flushAllBuf oc w) @ t_in w = t_acked w @ t_buf w @ t_in w"
    using flushAllBuf_log[of oc w] by (metis append_assoc)
  show ?thesis using assms unfolding accounted_def flushAllBuf_frames log .
qed

lemma flushAllBuf_within: "length (t_buf w) \<le> tombstoneRetainedMax \<Longrightarrow> length (t_in w) \<le> tombstoneQueueCap \<Longrightarrow>
    within (flushAllBuf oc w)"
  using flushAllBuf_exit[of oc w] flushAllBuf_shrinks[of oc w]
  by (auto simp: within_def)

lemma flushAllBuf_spacing: "spacing w \<Longrightarrow> spacing (flushAllBuf oc w)"
  by (simp add: spacing_def)

lemma flushAllBuf_inv: "tinv w \<Longrightarrow> tinv (flushAllBuf oc w)"
  using flushAllBuf_within[of w oc]
  by (simp add: tinv_def flushAllBuf_accounted flushAllBuf_tracked flushAllBuf_spacing)
    (simp add: within_def)

lemma appendReq_accounted:
  assumes "accounted w" "t_in w = req # rest"
  shows "accounted (appendReq req (w\<lparr>t_in := rest\<rparr>))"
proof -
  have "subseq (t_acked w @ t_buf w @ rest) (t_acked w @ t_buf w @ t_in w)"
    using assms(2) by (simp add: subseq_append' list_emb_Cons)
  then have "subseq (t_acked w @ t_buf w @ rest) (t_accepted w)"
    using assms(1) unfolding accounted_def by (blast intro: subseq_order.order_trans)
  then show ?thesis using assms by (simp add: accounted_def appendReq_def)
qed

lemma appendReq_buf: "length (t_buf w) \<le> tombstoneRetainedMax \<Longrightarrow>
    length (t_buf (appendReq req w)) \<le> tombstoneRetainedMax"
  by (simp add: appendReq_def)

lemma appendReq_frames [simp]:
  "t_in (appendReq req w) = t_in w" "t_retrying (appendReq req w) = t_retrying w"
  "t_acked (appendReq req w) = t_acked w" "t_visible (appendReq req w) = t_visible w"
  "t_dirty (appendReq req w) = t_dirty w" "t_probeID (appendReq req w) = t_probeID w"
  "t_rows (appendReq req w) = t_rows w" "t_reloads (appendReq req w) = t_reloads w"
  "t_lastReload (appendReq req w) = t_lastReload w" "t_done (appendReq req w) = t_done w"
  "t_draining (appendReq req w) = t_draining w" "t_stopCh (appendReq req w) = t_stopCh w"
  by (simp_all add: appendReq_def)

lemma takeReq_inv:
  assumes "tinv w" "t_in w = req # rest"
  shows "tinv (takeReq oc req (w\<lparr>t_in := rest\<rparr>))"
proof -
  let ?v = "appendReq req (w\<lparr>t_in := rest\<rparr>)"
  have acc: "accounted ?v" using assms by (intro appendReq_accounted) (auto simp: tinv_def)
  have tr: "tracked ?v" "spacing ?v" using assms by (auto simp: tinv_def tracked_def spacing_def)
  have sz: "length (t_buf ?v) \<le> tombstoneRetainedMax" "length (t_in ?v) \<le> tombstoneQueueCap"
    using assms by (auto simp: tinv_def within_def intro!: appendReq_buf)
  show ?thesis
  proof (cases "length (t_buf ?v) \<ge> tombstoneBatchMax \<and> \<not> t_retrying ?v")
    case True
    then show ?thesis using acc tr sz
      by (simp add: takeReq_def Let_def tinv_def flushAllBuf_accounted flushAllBuf_tracked
          flushAllBuf_spacing flushAllBuf_within)
  next
    case False
    then have "within ?v" using sz by (auto simp: within_def)
    with False acc tr show ?thesis by (auto simp: takeReq_def Let_def tinv_def)
  qed
qed

lemma takeReq_done [simp]: "t_done (takeReq oc req w) = t_done w"
  by (simp add: takeReq_def Let_def)

lemma maybeReload_inv: "tinv w \<Longrightarrow> \<not> t_done w \<Longrightarrow> tinv (maybeReload ro now fin w)"
  by (cases "t_reloads w")
    (auto simp: maybeReload_def reload_def reloadDue_def Let_def tinv_def accounted_def tracked_def
      within_def spacing_def)

lemma drainEnd_inv:
  assumes "tinv w"
  shows "tinv (drainEnd oc ro fin w)"
proof -
  have "tinv (flushAllBuf oc w)" using assms by (rule flushAllBuf_inv)
  then show ?thesis
    by (auto simp: drainEnd_def reload_def Let_def tinv_def accounted_def tracked_def within_def spacing_def)
qed

lemma push_inv:
  assumes "tinv w" "length (t_in w) < tombstoneQueueCap"
  shows "tinv (push req w)"
proof -
  have "accounted w" using assms(1) by (simp add: tinv_def)
  then have "accounted (push req w)"
    using subseq_append[of "t_acked w @ t_buf w @ t_in w" "[req]" "t_accepted w"]
    by (simp add: accounted_def push_def)
  with assms show ?thesis by (simp add: tinv_def push_def tracked_def within_def spacing_def)
qed

lemma tstep_inv: "tstep w w' \<Longrightarrow> tinv w \<Longrightarrow> tinv w'"
proof (induction rule: tstep.induct)
  case (t_push w req)
  then show ?case by (simp add: push_inv)
next
  case (t_req w req rest oc ro now fin)
  then show ?case by (simp add: onReq_def maybeReload_inv takeReq_inv)
next
  case (t_tick w oc ro now fin)
  then show ?case by (simp add: onTickT_def maybeReload_inv flushAllBuf_inv)
next
  case (t_drain_req w k req rest oc)
  then have "tinv (takeReq oc req (w\<lparr>t_in := rest\<rparr>))" by (simp add: takeReq_inv)
  then show ?case by (simp add: tinv_def accounted_def tracked_def within_def spacing_def)
next
  case (t_drain_end w k oc ro fin)
  then show ?case by (simp add: drainEnd_inv)
qed (simp_all add: tinv_def accounted_def tracked_def within_def spacing_def)

lemma treachable_inv: "treachable w \<Longrightarrow> tinv w"
proof (induction rule: treachable.induct)
  case t_init
  show ?case by (simp add: newTombstoneWriter_def tinv_def accounted_def tracked_def within_def spacing_def)
qed (rule tstep_inv)

lemma push_accepted [simp]: "t_accepted (push r w) = t_accepted w @ [r]" "t_stopCh (push r w) = t_stopCh w"
  by (simp_all add: push_def)

lemma retireLoop_prefix:
  "\<exists>k \<le> length ids. t_accepted (snd (retireLoop ids reason actor w)) = t_accepted w @
      map (\<lambda>i. \<lparr>tr_id = i, tr_reason = reason, tr_deletedBy = actor\<rparr>) (take k ids) \<and>
    (fst (retireLoop ids reason actor w) = None \<longleftrightarrow> k = length ids)"
proof (induction ids arbitrary: w)
  case (Cons i ids)
  show ?case
  proof (cases "\<not> t_stopCh w \<and> length (t_in w) < tombstoneQueueCap")
    case True
    obtain k where "k \<le> length ids" and
      "t_accepted (snd (retireLoop (i # ids) reason actor w)) = t_accepted w @
        map (\<lambda>i. \<lparr>tr_id = i, tr_reason = reason, tr_deletedBy = actor\<rparr>) (take (Suc k) (i # ids))" and
      "fst (retireLoop (i # ids) reason actor w) = None \<longleftrightarrow> k = length ids"
      using Cons.IH[of "push \<lparr>tr_id = i, tr_reason = reason, tr_deletedBy = actor\<rparr> w"] True by auto
    then show ?thesis by (intro exI[of _ "Suc k"]) simp
  next
    case False
    then show ?thesis by (intro exI[of _ 0]) auto
  qed
qed simp

section \<open>A concrete run\<close>

definition demo_req :: tombstoneReq where
  "demo_req = \<lparr>tr_id = ''a1'', tr_reason = ''nip09'', tr_deletedBy = ''pk''\<rparr>"

definition demo_taken :: tombstoneWriter where
  "demo_taken = onReq (\<lambda>_. SendOK) ProbeFound 0 0 demo_req ((push demo_req newTombstoneWriter)\<lparr>t_in := []\<rparr>)"

definition demo_hidden :: tombstoneWriter where
  "demo_hidden = onTickT (\<lambda>_. SendOK) ProbeFound 0 1 demo_taken"

definition demo_draining :: tombstoneWriter where
  "demo_draining = demo_taken\<lparr>t_stopCh := True, t_draining := Some 1\<rparr>"

lemma demo_taken_values:
  "t_buf demo_taken = [demo_req]" "t_in demo_taken = []" "t_draining demo_taken = None"
  "\<not> t_done demo_taken" "t_lastReload demo_taken = None" "\<not> t_dirty demo_taken" "t_acked demo_taken = []"
  "t_accepted demo_taken = [demo_req]" "t_discarded demo_taken = []"
  by (simp_all add: demo_taken_def onReq_def takeReq_def appendReq_def maybeReload_def push_def
      newTombstoneWriter_def tomb_consts Let_def)

lemma demo_taken_reachable: "treachable demo_taken"
proof -
  have "treachable (push demo_req newTombstoneWriter)"
    by (rule t_step[OF t_init t_push]) (simp add: newTombstoneWriter_def tomb_consts)
  moreover have "t_draining (push demo_req newTombstoneWriter) = None" "\<not> t_done (push demo_req newTombstoneWriter)"
    "t_in (push demo_req newTombstoneWriter) = [demo_req]"
    by (simp_all add: push_def newTombstoneWriter_def)
  ultimately show ?thesis unfolding demo_taken_def by (blast intro: t_step tstep.t_req)
qed

lemma demo_hidden_reachable: "treachable demo_hidden"
  unfolding demo_hidden_def
  by (rule t_step[OF demo_taken_reachable tstep.t_tick]) (simp_all add: demo_taken_values)

lemma demo_draining_reachable: "treachable demo_draining"
proof -
  have "treachable (demo_taken\<lparr>t_stopCh := True\<rparr>)" by (rule t_step[OF demo_taken_reachable tstep.t_stop])
  then have "treachable (demo_taken\<lparr>t_stopCh := True, t_draining := Some 0\<rparr>)"
    by (rule t_step) (use tstep.t_drain[of "demo_taken\<lparr>t_stopCh := True\<rparr>"] in \<open>simp add: demo_taken_values\<close>)
  then have "treachable (demo_taken\<lparr>t_stopCh := True, t_draining := Some (Suc 0)\<rparr>)"
    by (rule t_step)
      (use tstep.t_drain_empty[of "demo_taken\<lparr>t_stopCh := True, t_draining := Some 0\<rparr>" 0]
        in \<open>simp add: demo_taken_values\<close>)
  then show ?thesis by (simp add: demo_draining_def)
qed

section \<open>Properties\<close>

text \<open>C19. Tombstone requests are accounted for: in every reachable state each accepted request
  is acknowledged, buffered, queued or counted as dropped, the surviving ones in order; the
  buffer never exceeds 3000 requests and the channel never 4096.\<close>

theorem tombstones_accounted:
  assumes "treachable w"
  shows "mset (t_accepted w) = mset (t_acked w) + mset (t_buf w) + mset (t_in w) + mset (t_discarded w) \<and>
    subseq (t_acked w @ t_buf w @ t_in w) (t_accepted w) \<and> mset (t_acked w) \<subseteq># mset (t_rows w) \<and>
    length (t_buf w) \<le> 3000 \<and> length (t_in w) \<le> 4096"
  using treachable_inv[OF assms]
  by (simp add: tinv_def accounted_def tracked_def within_def tomb_consts add.assoc)

theorem tombstones_accounted_witness:
  "treachable demo_taken \<and> mset (t_accepted demo_taken) = {#demo_req#} \<and>
   mset (t_accepted demo_taken) = mset (t_acked demo_taken) + mset (t_buf demo_taken) +
     mset (t_in demo_taken) + mset (t_discarded demo_taken)"
  using tombstones_accounted[OF demo_taken_reachable] demo_taken_reachable by (simp add: demo_taken_values)



text \<open>A retired id becomes hidden within one healthy tick: if the inserts of a tick
  succeed, a reload is due and its probe finds the id, then after the tick nothing is
  buffered, everything that was buffered is acknowledged and the dictionary covers it.\<close>

theorem tick_makes_visible:
  assumes "treachable w" "reloadDue now w"
  shows "let w' = onTickT (\<lambda>_. SendOK) ProbeFound now fin w in
    t_buf w' = [] \<and> t_acked w' = t_acked w @ t_buf w \<and> \<not> t_dirty w' \<and> t_visible w' = length (t_acked w')"
proof -
  let ?v = "flushAllBuf (\<lambda>_. SendOK) w"
  have "tinv ?v" using treachable_inv[OF assms(1)] by (rule flushAllBuf_inv)
  moreover have "t_buf ?v = []" using flushAllBuf_OK by simp
  moreover have "t_acked ?v = t_acked w @ t_buf w" using flushAllBuf_log[of "\<lambda>_. SendOK" w] calculation(2) by simp
  ultimately show ?thesis using assms(2)
    by (auto simp: onTickT_def maybeReload_def reload_def reloadDue_def Let_def tinv_def tracked_def)
qed

theorem tick_makes_visible_witness:
  "treachable demo_taken \<and> t_buf demo_hidden = [] \<and> t_acked demo_hidden = [demo_req] \<and> t_visible demo_hidden = 1"
  using tick_makes_visible[OF demo_taken_reachable, of 0 1] demo_taken_reachable
  by (simp add: demo_taken_values reloadDue_def demo_hidden_def Let_def)

text \<open>The shutdown drain loses nothing silently: when the drain loop ends (channel seen
  empty twice), every accepted request is acknowledged, counted as dropped, or counted in the
  logged loss; if its inserts succeed nothing is lost.\<close>

theorem drain_accounts_for_all:
  assumes "treachable w" "t_draining w = Some k" "\<not> Suc k < 2" "t_in w = []" "\<not> t_done w"
  shows "tstep w (drainEnd oc ro fin w) \<and> t_done (drainEnd oc ro fin w) \<and>
    mset (t_accepted w) = mset (t_acked (drainEnd oc ro fin w)) + mset (t_buf (drainEnd oc ro fin w)) +
      mset (t_discarded w) \<and>
    (t_buf (drainEnd oc ro fin w) = [] \<or> t_lost (drainEnd oc ro fin w) = Some (length (t_buf (drainEnd oc ro fin w)))) \<and>
    (oc = (\<lambda>_. SendOK) \<longrightarrow> t_buf (drainEnd oc ro fin w) = [])"
proof -
  have "tinv (drainEnd oc ro fin w)" using treachable_inv[OF assms(1)] by (rule drainEnd_inv)
  moreover have "t_accepted (drainEnd oc ro fin w) = t_accepted w" "t_in (drainEnd oc ro fin w) = []"
    "t_discarded (drainEnd oc ro fin w) = t_discarded w"
    using assms(4) by (auto simp: drainEnd_def reload_def Let_def)
  moreover have "oc = (\<lambda>_. SendOK) \<longrightarrow> t_buf (drainEnd oc ro fin w) = []"
    using flushAllBuf_OK[of w] by (auto simp: drainEnd_def reload_def Let_def)
  moreover have "t_buf (drainEnd oc ro fin w) = [] \<or>
      t_lost (drainEnd oc ro fin w) = Some (length (t_buf (drainEnd oc ro fin w)))"
    by (auto simp: drainEnd_def reload_def Let_def)
  moreover have "t_done (drainEnd oc ro fin w)" by (simp add: drainEnd_def Let_def)
  ultimately show ?thesis
    using tstep.t_drain_end[OF assms(2,5,4,3)] by (simp add: tinv_def accounted_def)
qed

theorem drain_accounts_for_all_witness:
  "treachable demo_draining \<and>
   mset (t_accepted demo_draining) = mset (t_acked (drainEnd (\<lambda>_. SendOK) ProbeFound 1 demo_draining))"
proof -
  have v: "t_draining demo_draining = Some 1" "\<not> Suc 1 < 2" "t_in demo_draining = []" "\<not> t_done demo_draining"
    "t_discarded demo_draining = []"
    by (simp_all add: demo_draining_def demo_taken_values)
  show ?thesis using drain_accounts_for_all[OF demo_draining_reachable v(1-4), of "\<lambda>_. SendOK" ProbeFound 1]
      demo_draining_reachable v(5) by simp
qed

text \<open>\<open>retire\<close> accepts a prefix: whatever it returns, a prefix of the ids has been
  accepted in order with the given reason and actor, the whole list exactly when it returns
  nil, and nothing once the writer is stopped.\<close>

theorem retire_accepts_prefix:
  "\<exists>k \<le> length ids. t_accepted (snd (retire ids reason actor w)) =
      t_accepted w @ map (\<lambda>i. \<lparr>tr_id = i, tr_reason = reason, tr_deletedBy = actor\<rparr>) (take k ids) \<and>
    (fst (retire ids reason actor w) = None \<longleftrightarrow> k = length ids \<and> \<not> t_stopCh w) \<and>
    (t_stopCh w \<longrightarrow> k = 0)"
proof (cases "t_stopCh w")
  case True
  then show ?thesis by (intro exI[of _ 0]) (simp add: retire_def)
next
  case False
  then show ?thesis using retireLoop_prefix[of ids reason actor w] by (auto simp: retire_def)
qed

theorem retire_accepts_prefix_witness:
  "\<exists>k \<le> length [''a1'', ''b2'']. t_accepted (snd (retire [''a1'', ''b2''] ''replaced'' ''pk'' newTombstoneWriter)) =
      map (\<lambda>i. \<lparr>tr_id = i, tr_reason = ''replaced'', tr_deletedBy = ''pk''\<rparr>) (take k [''a1'', ''b2'']) \<and>
    (fst (retire [''a1'', ''b2''] ''replaced'' ''pk'' newTombstoneWriter) = None \<longleftrightarrow> k = 2)"
  using retire_accepts_prefix[of "[''a1'', ''b2'']" "''replaced''" "''pk''" newTombstoneWriter]
  by (auto simp: newTombstoneWriter_def)

end
