(* ===== verification/Event_Row.thy ===== *)
theory Event_Row
  imports Classifier "HOL-Library.Sublist"
begin

text \<open>
  Events and table rows: \<open>rowFromEvent\<close>, \<open>nativeTags\<close>, \<open>nostrTags\<close> and \<open>replyTarget\<close> of
  \<open>internal/store/batcher.go\<close>, \<open>scanEvent\<close> of \<open>internal/store/store.go\<close> and the DEFAULT
  expressions of the tag columns in \<open>internal/store/schema.go\<close>. The \<open>UInt32\<close> columns are
  32-bit words, so the Go conversions \<open>uint32(...)\<close> wrap as they do in the code. The raw
  column is \<open>encoding/json\<close>'s text of the tags: its string escaping (control bytes, quotes,
  HTML characters, invalid UTF-8, U+2028 and U+2029) is written out on bytes.
\<close>

record row =
  r_id :: string
  r_pubkey :: string
  r_created_at :: "32 word"
  r_kind :: "32 word"
  r_content :: string
  r_sig :: string
  r_tags_raw :: string
  r_tags :: "string list list"
  r_reply_to :: string

section \<open>Definitions\<close>

subsection \<open>The JSON text of tags\<close>

abbreviation byte :: "char \<Rightarrow> nat" where "byte c \<equiv> of_char c"

definition between :: "nat \<Rightarrow> nat \<Rightarrow> char \<Rightarrow> bool" where
  "between lo hi c \<longleftrightarrow> lo \<le> byte c \<and> byte c \<le> hi"

text \<open>The width of the valid multi-byte rune at the front, \<open>None\<close> where
  \<open>utf8.DecodeRuneInString\<close> returns \<open>RuneError\<close> of width 1.\<close>

definition runeSize :: "string \<Rightarrow> nat option" where
  "runeSize bs = (case bs of
     b0 # b1 # rest \<Rightarrow>
       if between 0xC2 0xDF b0 then (if between 0x80 0xBF b1 then Some 2 else None)
       else if between 0xE0 0xEF b0 then
         (case rest of b2 # _ \<Rightarrow>
            if between (if byte b0 = 0xE0 then 0xA0 else 0x80) (if byte b0 = 0xED then 0x9F else 0xBF) b1
               \<and> between 0x80 0xBF b2 then Some 3 else None
          | [] \<Rightarrow> None)
       else if between 0xF0 0xF4 b0 then
         (case rest of b2 # b3 # _ \<Rightarrow>
            if between (if byte b0 = 0xF0 then 0x90 else 0x80) (if byte b0 = 0xF4 then 0x8F else 0xBF) b1
               \<and> between 0x80 0xBF b2 \<and> between 0x80 0xBF b3 then Some 4 else None
          | _ \<Rightarrow> None)
       else None
   | _ \<Rightarrow> None)"

definition hexDigit :: "nat \<Rightarrow> char" where
  "hexDigit n = ''0123456789abcdef'' ! n"

definition jsonEscape :: "char \<Rightarrow> string" where
  "jsonEscape b =
     (if b = CHR 0x5C \<or> b = CHR 0x22 then [CHR 0x5C, b]
      else if b = CHR 0x08 then [CHR 0x5C, CHR ''b'']
      else if b = CHR 0x0C then [CHR 0x5C, CHR ''f'']
      else if b = CHR 0x0A then [CHR 0x5C, CHR ''n'']
      else if b = CHR 0x0D then [CHR 0x5C, CHR ''r'']
      else if b = CHR 0x09 then [CHR 0x5C, CHR ''t'']
      else if byte b < 0x20 \<or> b = CHR ''<'' \<or> b = CHR ''>'' \<or> b = CHR ''&''
      then [CHR 0x5C, CHR ''u'', CHR ''0'', CHR ''0'', hexDigit (byte b div 16), hexDigit (byte b mod 16)]
      else [b])"

definition jsonRune :: "string \<Rightarrow> string" where
  "jsonRune r =
     (if r = [CHR 0xE2, CHR 0x80, CHR 0xA8] then CHR 0x5C # ''u2028''
      else if r = [CHR 0xE2, CHR 0x80, CHR 0xA9] then CHR 0x5C # ''u2029''
      else r)"

fun jsonBody :: "string \<Rightarrow> string" where
  "jsonBody [] = []"
| "jsonBody (b # bs) =
     (if byte b < 0x80 then jsonEscape b @ jsonBody bs
      else case runeSize (b # bs) of
        None \<Rightarrow> (CHR 0x5C # ''ufffd'') @ jsonBody bs
      | Some n \<Rightarrow> jsonRune (take n (b # bs)) @ jsonBody (drop (n - 1) bs))"

definition jsonString :: "string \<Rightarrow> string" where
  "jsonString s = [CHR 0x22] @ jsonBody s @ [CHR 0x22]"

definition jsonArray :: "string list \<Rightarrow> string" where
  "jsonArray parts = ''['' @ join '','' parts @ '']''"

fun marshalTag :: "string slice \<Rightarrow> string" where
  "marshalTag None = ''null''"
| "marshalTag (Some t) = jsonArray (map jsonString t)"

fun marshalTags :: "string slice slice \<Rightarrow> string" where
  "marshalTags None = ''null''"
| "marshalTags (Some ts) = jsonArray (map marshalTag ts)"

subsection \<open>Rows\<close>

definition nativeTags :: "string slice slice \<Rightarrow> string list list" where
  "nativeTags tags = map elems (elems tags)"

definition nostrTags :: "string list list \<Rightarrow> string slice slice" where
  "nostrTags ts = Some (map (\<lambda>t. if t = [] then None else Some t) ts)"

fun replyLoop :: "string \<Rightarrow> string slice list \<Rightarrow> string" where
  "replyLoop lastPositional [] = lastPositional"
| "replyLoop lastPositional (tag # tags) =
     (let t = elems tag in
      if length t < 2 \<or> t ! 0 \<noteq> ''e'' then replyLoop lastPositional tags
      else
        let marker = (if length t \<ge> 4 then t ! 3 else []) in
        if marker = ''reply'' then t ! 1
        else if marker = [] then replyLoop (t ! 1) tags
        else replyLoop lastPositional tags)"

definition replyTarget :: "string slice slice \<Rightarrow> string" where
  "replyTarget tags = replyLoop [] (elems tags)"

definition rowFromEvent :: "event \<Rightarrow> row" where
  "rowFromEvent evt =
     \<lparr>r_id = ev_id evt, r_pubkey = ev_pubkey evt, r_created_at = word_of_int (ev_created_at evt),
      r_kind = word_of_int (ev_kind evt), r_content = ev_content evt, r_sig = ev_sig evt,
      r_tags_raw = marshalTags (ev_tags evt), r_tags = nativeTags (ev_tags evt),
      r_reply_to = replyTarget (ev_tags evt)\<rparr>"

definition scanEvent :: "row \<Rightarrow> event" where
  "scanEvent r =
     \<lparr>ev_id = r_id r, ev_pubkey = r_pubkey r, ev_created_at = uint (r_created_at r),
      ev_kind = uint (r_kind r), ev_tags = nostrTags (r_tags r), ev_content = r_content r,
      ev_sig = r_sig r\<rparr>"

subsection \<open>The tag columns\<close>

definition tagVals :: "string \<Rightarrow> string list list \<Rightarrow> string list" where
  "tagVals k tags = map (\<lambda>x. x ! 1) (filter (\<lambda>x. length x \<ge> 2 \<and> x ! 0 = k) tags)"

definition tag_e :: "row \<Rightarrow> string list" where "tag_e r = tagVals ''e'' (r_tags r)"
definition tag_p :: "row \<Rightarrow> string list" where "tag_p r = tagVals ''p'' (r_tags r)"
definition tag_t :: "row \<Rightarrow> string list" where "tag_t r = tagVals ''t'' (r_tags r)"

text \<open>\<open>arrayFirst(...)[2]\<close>: the empty string when no tag qualifies.\<close>

definition tag_d :: "row \<Rightarrow> string" where
  "tag_d r = (case tagVals ''d'' (r_tags r) of [] \<Rightarrow> [] | v # _ \<Rightarrow> v)"

section \<open>Lemmas\<close>

text \<open>NIP-10 resolution, declaratively: the e-tags of the event, those marked \<open>reply\<close> and
  those with no marker.\<close>

definition eTags :: "string slice slice \<Rightarrow> string list list" where
  "eTags tags = filter (\<lambda>t. length t \<ge> 2 \<and> t ! 0 = ''e'') (map elems (elems tags))"

definition marker :: "string list \<Rightarrow> string" where
  "marker t = (if length t \<ge> 4 then t ! 3 else [])"

definition replySpec :: "string list list \<Rightarrow> string \<Rightarrow> string" where
  "replySpec es dflt =
     (case filter (\<lambda>t. marker t = ''reply'') es of
        t # _ \<Rightarrow> t ! 1
      | [] \<Rightarrow> (case rev (filter (\<lambda>t. marker t = []) es) of t # _ \<Rightarrow> t ! 1 | [] \<Rightarrow> dflt))"

lemma replyLoop_spec: "replyLoop dflt ts = replySpec (eTags (Some ts)) dflt"
proof (induction ts arbitrary: dflt)
  case (Cons tag ts)
  let ?t = "elems tag"
  show ?case
  proof (cases "length ?t < 2 \<or> ?t ! 0 \<noteq> ''e''")
    case True
    then show ?thesis using Cons.IH by (auto simp: eTags_def Let_def)
  next
    case False
    then have es: "eTags (Some (tag # ts)) = ?t # eTags (Some ts)" by (auto simp: eTags_def)
    have step: "replyLoop dflt (tag # ts) =
        (if marker ?t = ''reply'' then ?t ! 1 else if marker ?t = [] then replyLoop (?t ! 1) ts
         else replyLoop dflt ts)"
      using False by (simp add: marker_def Let_def)
    show ?thesis unfolding step es Cons.IH
      by (auto simp: replySpec_def rev_append split: list.splits)
  qed
qed (simp add: replySpec_def eTags_def)

lemma tagVals_iff:
  "v \<in> set (tagVals k tags) \<longleftrightarrow> (\<exists>x \<in> set tags. length x \<ge> 2 \<and> x ! 0 = k \<and> x ! 1 = v)"
  by (auto simp: tagVals_def)

lemma join_sublist: "x \<in> set xs \<Longrightarrow> sublist x (join sep xs)"
proof (induction sep xs rule: join.induct)
  case (3 sep x' y ys)
  then show ?case
  proof (cases "x = x'")
    case False
    with 3 have "sublist x (join sep (y # ys))" by auto
    then show ?thesis by (auto intro: sublist_appendI sublist_order.order_trans[OF _ sublist_append_leftI]
        simp: append_assoc[symmetric] simp del: append_assoc)
  qed (auto intro: sublist_appendI)
qed auto

lemma join_pair: "sublist (a @ sep @ b) (join sep (a # b # xs))"
  by (cases xs) auto

lemma jsonArray_member: "x \<in> set parts \<Longrightarrow> sublist x (jsonArray parts)"
  unfolding jsonArray_def using join_sublist[of x parts "'',''"]
  by (meson sublist_appendI sublist_append_leftI sublist_append_rightI sublist_order.order_trans)

text \<open>The first two elements of every tag stand next to each other in the raw text.\<close>

lemma marshalTags_pair:
  assumes "Some (k # v # rest) \<in> set (elems tags)"
  shows "sublist (jsonString k @ '','' @ jsonString v) (marshalTags tags)"
proof -
  obtain ts where ts: "tags = Some ts" using assms by (cases tags) auto
  have "sublist (jsonString k @ '','' @ jsonString v) (join '','' (map jsonString (k # v # rest)))"
    using join_pair[of "jsonString k" "'',''" "jsonString v" "map jsonString rest"] by simp
  then have "sublist (jsonString k @ '','' @ jsonString v) (marshalTag (Some (k # v # rest)))"
    by (metis jsonArray_def marshalTag.simps(2) sublist_append_leftI sublist_append_rightI
        sublist_order.order_trans)
  moreover have "sublist (marshalTag (Some (k # v # rest))) (marshalTags tags)"
    using assms ts by (auto intro!: jsonArray_member imageI simp del: marshalTag.simps)
  ultimately show ?thesis by (rule sublist_order.order_trans)
qed

lemma nostrTags_nativeTags:
  "map elems (elems (nostrTags (nativeTags tags))) = nativeTags tags"
  by (auto simp: nostrTags_def nativeTags_def)

section \<open>Properties\<close>

text \<open>C33. Storing and reading back an event is the identity, up to the representation of empty
  tag slices: for a timestamp and a kind that fit the \<open>UInt32\<close> columns, scanning the row of
  an event gives the same id, author, time, kind, content and signature, and the same tags
  with nil and empty slices identified.\<close>

theorem row_roundtrip:
  assumes "0 \<le> ev_created_at e" "ev_created_at e < 2 ^ 32" "0 \<le> ev_kind e" "ev_kind e < 2 ^ 32"
  shows "scanEvent (rowFromEvent e) = e\<lparr>ev_tags := nostrTags (nativeTags (ev_tags e))\<rparr> \<and>
    nativeTags (ev_tags (scanEvent (rowFromEvent e))) = nativeTags (ev_tags e)"
  using assms
  by (simp add: scanEvent_def rowFromEvent_def uint_word_of_int)
    (simp add: nostrTags_def nativeTags_def comp_def)

definition demo_note :: event where
  "demo_note = \<lparr>ev_id = ''a1'', ev_pubkey = ''pk'', ev_created_at = 1700000000, ev_kind = 1,
     ev_tags = Some [Some [''e'', ''root1'', [], ''root''], Some [''e'', ''par'', [], ''reply''],
       Some [''r'', ''wss://x'']],
     ev_content = ''hi'', ev_sig = ''sig''\<rparr>"

theorem row_roundtrip_witness:
  "scanEvent (rowFromEvent demo_note) = demo_note\<lparr>ev_tags := nostrTags (nativeTags (ev_tags demo_note))\<rparr>"
  using row_roundtrip[of demo_note] by (simp add: demo_note_def)

text \<open>\<open>replyTarget\<close> resolves the parent as its contract states: the id of the first
  e-tag marked \<open>reply\<close>, else of the last e-tag without a marker, else nothing; in particular
  e-tags marked \<open>root\<close> or \<open>mention\<close> alone never make an event a reply.\<close>

theorem replyTarget_resolves:
  "replyTarget tags =
     (case filter (\<lambda>t. marker t = ''reply'') (eTags tags) of
        t # _ \<Rightarrow> t ! 1
      | [] \<Rightarrow> (case rev (filter (\<lambda>t. marker t = []) (eTags tags)) of t # _ \<Rightarrow> t ! 1 | [] \<Rightarrow> []))"
proof -
  have same: "eTags (Some (elems tags)) = eTags tags" by (simp add: eTags_def)
  show ?thesis unfolding replyTarget_def replyLoop_spec same replySpec_def ..
qed

text \<open>A top-level reply as NIP-10 prescribes it (one e-tag, marked \<open>root\<close>) has no parent.\<close>

lemma root_marker_alone_is_no_reply:
  "replyTarget (Some [Some [''e'', ''thread'', [], ''root'']]) = []"
  by (simp add: replyTarget_def)

end
