(* ===== verification/Filter_SQL.thy ===== *)
theory Filter_SQL
  imports Event_Row
begin

text \<open>
  \<open>buildFilterSQL\<close> (\<open>internal/store/filter_sql.go\<close>). Each condition the code appends is a
  constructor of \<open>cond\<close>; its SQL fragment and its bound arguments are \<open>cond_text\<close> and
  \<open>cond_args\<close>, so that \<open>buildFilterSQL\<close> yields the code's strings and argument list, and its
  meaning on a row is \<open>cond_holds\<close>, given the tombstone dictionary \<open>dead\<close>. The tag filter
  is a Go map: the list of pairs stands for one iteration order.
\<close>

datatype cond =
    IdIn "string list"
  | PubkeyIn "string list"
  | KindIn "int list"
  | HasAnyE "string list"
  | HasAnyP "string list"
  | HasAnyT "string list"
  | TagDEq string
  | RawHas string
  | CreatedGe "32 word"
  | CreatedLe "32 word"
  | NotTombstoned

datatype sql_arg = ArgStrings "string list" | ArgInts "int list" | ArgString string | ArgU32 "32 word"

section \<open>Definitions\<close>

definition defaultQueryLimit :: int where "defaultQueryLimit = 1000"

definition collapseLimitBy :: string where
  "collapseLimitBy = ''LIMIT 1 BY kind, if(kind IN (0,3,10002), pubkey, id)''"

text \<open>Go's \<open>int32(k)\<close>.\<close>

definition toInt32 :: "int \<Rightarrow> int" where
  "toInt32 k = sint (word_of_int k :: 32 word)"

definition tagConds :: "string \<times> string list \<Rightarrow> cond list" where
  "tagConds kv = (case kv of (key, vals) \<Rightarrow>
     if vals = [] then []
     else if key = ''e'' then [HasAnyE vals]
     else if key = ''p'' then [HasAnyP vals]
     else if key = ''t'' then [HasAnyT vals]
     else if key = ''d'' then [TagDEq (hd vals)]
     else map (\<lambda>v. RawHas (jsonString key @ '','' @ jsonString v)) vals)"

definition filterConds :: "nostr_filter \<Rightarrow> cond list" where
  "filterConds f =
     (if f_ids f \<noteq> [] then [IdIn (f_ids f)] else []) @
     (if f_authors f \<noteq> [] then [PubkeyIn (f_authors f)] else []) @
     (if f_kinds f \<noteq> [] then [KindIn (map toInt32 (f_kinds f))] else []) @
     concat (map tagConds (f_tags f)) @
     (case f_since f of None \<Rightarrow> [] | Some s \<Rightarrow> [CreatedGe (word_of_int s)]) @
     (case f_until f of None \<Rightarrow> [] | Some u \<Rightarrow> [CreatedLe (word_of_int u)]) @
     [NotTombstoned]"

fun cond_text :: "cond \<Rightarrow> string" where
  "cond_text (IdIn xs) = ''id IN (?)''"
| "cond_text (PubkeyIn xs) = ''pubkey IN (?)''"
| "cond_text (KindIn ks) = ''kind IN (?)''"
| "cond_text (HasAnyE vs) = ''hasAny(tag_e, ?)''"
| "cond_text (HasAnyP vs) = ''hasAny(tag_p, ?)''"
| "cond_text (HasAnyT vs) = ''hasAny(tag_t, ?)''"
| "cond_text (TagDEq v) = ''tag_d = ?''"
| "cond_text (RawHas s) = ''position(tags_raw, ?) > 0''"
| "cond_text (CreatedGe t) = ''created_at >= ?''"
| "cond_text (CreatedLe t) = ''created_at <= ?''"
| "cond_text NotTombstoned = ''NOT dictHas('' @ [CHR 0x27] @ ''tombstone_dict'' @ [CHR 0x27] @ '', id)''"

fun cond_args :: "cond \<Rightarrow> sql_arg list" where
  "cond_args (IdIn xs) = [ArgStrings xs]"
| "cond_args (PubkeyIn xs) = [ArgStrings xs]"
| "cond_args (KindIn ks) = [ArgInts ks]"
| "cond_args (HasAnyE vs) = [ArgStrings vs]"
| "cond_args (HasAnyP vs) = [ArgStrings vs]"
| "cond_args (HasAnyT vs) = [ArgStrings vs]"
| "cond_args (TagDEq v) = [ArgString v]"
| "cond_args (RawHas s) = [ArgString s]"
| "cond_args (CreatedGe t) = [ArgU32 t]"
| "cond_args (CreatedLe t) = [ArgU32 t]"
| "cond_args NotTombstoned = []"

definition clampLimit :: "int \<Rightarrow> int" where
  "clampLimit limit = (if limit < 1 \<or> limit > defaultQueryLimit then defaultQueryLimit else limit)"

text \<open>\<open>%d\<close> of a natural number.\<close>

fun decimal :: "nat \<Rightarrow> string" where
  "decimal n = (if n < 10 then [''0123456789'' ! n] else decimal (n div 10) @ [''0123456789'' ! (n mod 10)])"

definition buildFilterSQL :: "nostr_filter \<Rightarrow> string \<times> sql_arg list \<times> string" where
  "buildFilterSQL f =
     (let conds = filterConds f in
      (if conds = [] then ''1=1'' else join '' AND '' (map cond_text conds),
       concat (map cond_args conds),
       '' ORDER BY created_at DESC, id ASC '' @ collapseLimitBy @ '' LIMIT '' @ decimal (nat (clampLimit (f_limit f)))))"

text \<open>The meaning of a condition on a row.\<close>

fun cond_holds :: "(string \<Rightarrow> bool) \<Rightarrow> cond \<Rightarrow> row \<Rightarrow> bool" where
  "cond_holds dead (IdIn xs) r \<longleftrightarrow> r_id r \<in> set xs"
| "cond_holds dead (PubkeyIn xs) r \<longleftrightarrow> r_pubkey r \<in> set xs"
| "cond_holds dead (KindIn ks) r \<longleftrightarrow> uint (r_kind r) \<in> set ks"
| "cond_holds dead (HasAnyE vs) r \<longleftrightarrow> list_ex (\<lambda>v. v \<in> set (tag_e r)) vs"
| "cond_holds dead (HasAnyP vs) r \<longleftrightarrow> list_ex (\<lambda>v. v \<in> set (tag_p r)) vs"
| "cond_holds dead (HasAnyT vs) r \<longleftrightarrow> list_ex (\<lambda>v. v \<in> set (tag_t r)) vs"
| "cond_holds dead (TagDEq v) r \<longleftrightarrow> tag_d r = v"
| "cond_holds dead (RawHas s) r \<longleftrightarrow> sublist s (r_tags_raw r)"
| "cond_holds dead (CreatedGe t) r \<longleftrightarrow> r_created_at r \<ge> t"
| "cond_holds dead (CreatedLe t) r \<longleftrightarrow> r_created_at r \<le> t"
| "cond_holds dead NotTombstoned r \<longleftrightarrow> \<not> dead (r_id r)"

definition where_holds :: "(string \<Rightarrow> bool) \<Rightarrow> nostr_filter \<Rightarrow> row \<Rightarrow> bool" where
  "where_holds dead f r \<longleftrightarrow> list_all (\<lambda>c. cond_holds dead c r) (filterConds f)"

text \<open>What NIP-01 asks of a filter, on events.\<close>

definition hasTag :: "event \<Rightarrow> string \<Rightarrow> string \<Rightarrow> bool" where
  "hasTag e k v \<longleftrightarrow> list_ex (\<lambda>t. length t \<ge> 2 \<and> t ! 0 = k \<and> t ! 1 = v) (nativeTags (ev_tags e))"

definition nip01_matches :: "nostr_filter \<Rightarrow> event \<Rightarrow> bool" where
  "nip01_matches f e \<longleftrightarrow>
     (f_ids f = [] \<or> ev_id e \<in> set (f_ids f)) \<and>
     (f_authors f = [] \<or> ev_pubkey e \<in> set (f_authors f)) \<and>
     (f_kinds f = [] \<or> ev_kind e \<in> set (f_kinds f)) \<and>
     list_all (\<lambda>(k, vs). vs = [] \<or> list_ex (hasTag e k) vs) (f_tags f) \<and>
     (case f_since f of None \<Rightarrow> True | Some s \<Rightarrow> s \<le> ev_created_at e) \<and>
     (case f_until f of None \<Rightarrow> True | Some u \<Rightarrow> ev_created_at e \<le> u)"

text \<open>Values the 32-bit columns and bindings can hold, and the indexed tag letters.\<close>

definition event_in_range :: "event \<Rightarrow> bool" where
  "event_in_range e \<longleftrightarrow> 0 \<le> ev_created_at e \<and> ev_created_at e < 2 ^ 32 \<and> 0 \<le> ev_kind e \<and> ev_kind e < 2 ^ 32"

definition filter_in_range :: "nostr_filter \<Rightarrow> bool" where
  "filter_in_range f \<longleftrightarrow>
     list_all (\<lambda>k. - (2 ^ 31) \<le> k \<and> k < 2 ^ 31) (f_kinds f) \<and>
     list_all (\<lambda>(k, vs). k \<in> {''e'', ''p'', ''t''}) (f_tags f) \<and>
     (case f_since f of None \<Rightarrow> True | Some s \<Rightarrow> 0 \<le> s \<and> s < 2 ^ 32) \<and>
     (case f_until f of None \<Rightarrow> True | Some u \<Rightarrow> 0 \<le> u \<and> u < 2 ^ 32)"

definition match_all :: nostr_filter where
  "match_all = \<lparr>f_ids = [], f_kinds = [], f_authors = [], f_tags = [], f_since = None, f_until = None, f_limit = 0\<rparr>"

section \<open>Lemmas\<close>

declare decimal.simps [simp del]

lemma count_join: "c \<notin> set sep \<Longrightarrow> count_list (join sep xs) c = sum_list (map (\<lambda>x. count_list x c) xs)"
  by (induction sep xs rule: join.induct) (auto simp: count_notin)

lemma cond_placeholders: "count_list (cond_text c) (CHR ''?'') = length (cond_args c)"
  by (cases c) simp_all

lemma toInt32_id: "- (2 ^ 31) \<le> k \<Longrightarrow> k < 2 ^ 31 \<Longrightarrow> toInt32 k = k"
  by (simp add: toInt32_def sint_sbintrunc' signed_take_bit_int_eq_self)

lemma uint_u32: "0 \<le> x \<Longrightarrow> x < 2 ^ 32 \<Longrightarrow> uint (word_of_int x :: 32 word) = x"
  by (simp add: uint_word_of_int)

lemma where_holds_iff: "where_holds dead f r \<longleftrightarrow> (\<forall>c \<in> set (filterConds f). cond_holds dead c r)"
  by (simp add: where_holds_def list_all_iff)

lemma where_not_dead: "where_holds dead f r \<Longrightarrow> \<not> dead (r_id r)"
  by (simp add: where_holds_def filterConds_def)

lemma hasAny_row:
  "list_ex (\<lambda>v. v \<in> set (tagVals k (nativeTags (ev_tags e)))) vs = list_ex (hasTag e k) vs"
  by (auto simp: list_ex_iff hasTag_def tagVals_iff)

lemma tagConds_indexed:
  assumes "k \<in> {''e'', ''p'', ''t''}"
  shows "(\<forall>c \<in> set (tagConds (k, vs)). cond_holds dead c (rowFromEvent e)) \<longleftrightarrow> vs = [] \<or> list_ex (hasTag e k) vs"
proof -
  have "r_tags (rowFromEvent e) = nativeTags (ev_tags e)" by (simp add: rowFromEvent_def)
  with assms show ?thesis
    by (auto simp: tagConds_def tag_e_def tag_p_def tag_t_def hasAny_row)
qed

lemma row_kind: "event_in_range e \<Longrightarrow> uint (r_kind (rowFromEvent e)) = ev_kind e"
  by (simp add: event_in_range_def rowFromEvent_def uint_u32)

lemma row_created: "event_in_range e \<Longrightarrow> uint (r_created_at (rowFromEvent e)) = ev_created_at e"
  by (simp add: event_in_range_def rowFromEvent_def uint_u32)

lemma kinds_row:
  assumes "event_in_range e" "list_all (\<lambda>k. - (2 ^ 31) \<le> k \<and> k < 2 ^ 31) ks"
  shows "uint (r_kind (rowFromEvent e)) \<in> set (map toInt32 ks) \<longleftrightarrow> ev_kind e \<in> set ks"
proof -
  have "map toInt32 ks = ks" using assms(2) by (intro map_idI) (auto simp: list_all_iff toInt32_id)
  then show ?thesis using row_kind[OF assms(1)] by simp
qed

lemma since_row:
  assumes "event_in_range e" "0 \<le> s" "s < 2 ^ 32"
  shows "(word_of_int s \<le> r_created_at (rowFromEvent e)) = (s \<le> ev_created_at e)"
    and "(r_created_at (rowFromEvent e) \<le> word_of_int s) = (ev_created_at e \<le> s)"
  using row_created[OF assms(1)] uint_u32[OF assms(2,3)] by (simp_all add: word_le_def)

section \<open>Properties\<close>

text \<open>The generated SQL binds correctly: the WHERE clause has exactly one placeholder per
  bound argument, every row it selects is not tombstoned, and the row limit is between 1 and
  1000 whatever the client asked for.\<close>

theorem filter_sql_well_formed:
  "count_list (fst (buildFilterSQL f)) (CHR ''?'') = length (fst (snd (buildFilterSQL f))) \<and>
   (where_holds dead f r \<longrightarrow> \<not> dead (r_id r)) \<and>
   1 \<le> clampLimit (f_limit f) \<and> clampLimit (f_limit f) \<le> 1000"
proof -
  have "filterConds f \<noteq> []" by (simp add: filterConds_def)
  then have "count_list (fst (buildFilterSQL f)) (CHR ''?'') = length (fst (snd (buildFilterSQL f)))"
    by (simp add: buildFilterSQL_def Let_def count_join comp_def length_concat cond_placeholders)
  then show ?thesis using where_not_dead[of dead f r] by (auto simp: clampLimit_def defaultQueryLimit_def)
qed

theorem filter_sql_well_formed_witness:
  "where_holds (\<lambda>i. i = ''b2'') match_all (rowFromEvent demo_note) \<and>
   \<not> (\<lambda>i. i = ''b2'') (r_id (rowFromEvent demo_note))"
proof -
  have "where_holds (\<lambda>i. i = ''b2'') match_all (rowFromEvent demo_note)"
    by (simp add: where_holds_def filterConds_def match_all_def rowFromEvent_def demo_note_def)
  then show ?thesis
    using filter_sql_well_formed[of match_all "\<lambda>i. i = ''b2''" "rowFromEvent demo_note"] by blast
qed


definition demo_filter :: nostr_filter where
  "demo_filter = match_all\<lparr>f_kinds := [1], f_tags := [(''e'', [''par'', ''zz''])], f_since := Some 1600000000\<rparr>"


text \<open>The substring scan for other tag keys misses nothing: an event carrying a tag with
  the requested key and value, for every requested value, satisfies the conditions generated for
  that key, whatever characters the key and the values contain.\<close>

theorem other_tags_no_false_negative:
  assumes "k \<notin> {''e'', ''p'', ''t'', ''d''}" "list_all (hasTag e k) vs"
  shows "list_all (\<lambda>c. cond_holds dead c (rowFromEvent e)) (tagConds (k, vs))"
proof -
  have "sublist (jsonString k @ '','' @ jsonString v) (r_tags_raw (rowFromEvent e))" if "v \<in> set vs" for v
  proof -
    from that assms(2) obtain sl where sl: "sl \<in> set (elems (ev_tags e))"
      "length (elems sl) \<ge> 2" "elems sl ! 0 = k" "elems sl ! 1 = v"
      by (auto simp: list_all_iff hasTag_def list_ex_iff nativeTags_def)
    then obtain rest where "elems sl = k # v # rest"
      by (cases "elems sl"; cases "tl (elems sl)") auto
    then have "sl = Some (k # v # rest)" by (cases sl) auto
    with sl(1) have "Some (k # v # rest) \<in> set (elems (ev_tags e))" by simp
    from marshalTags_pair[OF this] show ?thesis by (simp add: rowFromEvent_def)
  qed
  then show ?thesis using assms(1) by (auto simp: tagConds_def list_all_iff)
qed

theorem other_tags_no_false_negative_witness:
  "hasTag demo_note ''r'' ''wss://x'' \<and>
   list_all (\<lambda>c. cond_holds (\<lambda>_. False) c (rowFromEvent demo_note)) (tagConds (''r'', [''wss://x'']))"
proof -
  have h: "hasTag demo_note ''r'' ''wss://x''" by (simp add: hasTag_def demo_note_def nativeTags_def)
  show ?thesis using other_tags_no_false_negative[of "''r''" demo_note "[''wss://x'']"] h by simp
qed

section \<open>Where the SQL departs from NIP-01\<close>

text \<open>Several values of a non-indexed tag key are required together, where NIP-01 (and the
  indexed keys) ask for any of them.\<close>

lemma other_tag_values_all_required:
  "nip01_matches (match_all\<lparr>f_tags := [(''r'', [''wss://x'', ''q''])]\<rparr>) demo_note \<and>
   \<not> where_holds (\<lambda>_. False) (match_all\<lparr>f_tags := [(''r'', [''wss://x'', ''q''])]\<rparr>) (rowFromEvent demo_note)"
proof
  show "nip01_matches (match_all\<lparr>f_tags := [(''r'', [''wss://x'', ''q''])]\<rparr>) demo_note"
    by (simp add: nip01_matches_def match_all_def demo_note_def hasTag_def nativeTags_def)
  show "\<not> where_holds (\<lambda>_. False) (match_all\<lparr>f_tags := [(''r'', [''wss://x'', ''q''])]\<rparr>) (rowFromEvent demo_note)"
    unfolding demo_note_def match_all_def by code_simp
qed

text \<open>Only the first requested d value is looked at.\<close>

lemma second_d_value_ignored:
  "let e = demo_note\<lparr>ev_tags := Some [Some [''d'', ''y'']]\<rparr>; f = match_all\<lparr>f_tags := [(''d'', [''x'', ''y''])]\<rparr> in
   nip01_matches f e \<and> \<not> where_holds (\<lambda>_. False) f (rowFromEvent e)"
  by (simp add: Let_def nip01_matches_def match_all_def demo_note_def hasTag_def nativeTags_def where_holds_def
      filterConds_def tagConds_def tag_d_def tagVals_def rowFromEvent_def)

text \<open>A negative \<open>since\<close> wraps to a time in the far future and hides every stored event.\<close>

lemma negative_since_hides:
  "nip01_matches (match_all\<lparr>f_since := Some (-1)\<rparr>) demo_note \<and>
   \<not> where_holds (\<lambda>_. False) (match_all\<lparr>f_since := Some (-1)\<rparr>) (rowFromEvent demo_note)"
  by (simp add: nip01_matches_def match_all_def demo_note_def where_holds_def filterConds_def rowFromEvent_def word_le_def unsigned_minus_1_eq_mask mask_eq_exp_minus_1)

end
