(* ===== verification/Store_Read.thy ===== *)
theory Store_Read
  imports Filter_SQL
begin

text \<open>
  The store's read path (\<open>internal/store/store.go\<close>: \<open>tiersForFilter\<close>, \<open>collectEvents\<close>,
  \<open>collectFeed\<close>, \<open>splitFeedKinds\<close>, \<open>sortDesc\<close>, \<open>CountEvents\<close>; \<open>internal/store/feed.go\<close>:
  \<open>feedEligible\<close>). ClickHouse is not part of the sources: the connection is a parameter
  \<open>conn\<close> that maps a SELECT statement to an error or rows. What the code relies on is the
  documented meaning of the statement, \<open>select_answer\<close>: the matching rows of the table, in
  some order that satisfies ORDER BY, collapsed by LIMIT 1 BY, cut by LIMIT. The locale
  \<open>clickhouse\<close> states it for every statement the connection answers; \<open>run_select\<close> is an
  executable server that satisfies it. Cancellation of the request context is the parameter
  \<open>cancelled\<close>, asked before each tier as the code does.
\<close>

datatype order_by = CreatedDescIdAsc | CreatedDescIdDesc

record select_stmt =
  sel_table :: string
  sel_where :: "cond list"
  sel_order :: order_by
  sel_collapse :: bool
  sel_limit :: nat

datatype read_error = CtxErr | QueryErr string string | ErrReadBusy

type_synonym connection = "select_stmt \<Rightarrow> string + row list"
type_synonym tables = "string \<Rightarrow> row list"

section \<open>Definitions\<close>

subsection \<open>What a SELECT returns\<close>

definition rowKey :: "row \<Rightarrow> int \<times> string" where
  "rowKey r = (- uint (r_created_at r), r_id r)"

fun order_le :: "order_by \<Rightarrow> row \<Rightarrow> row \<Rightarrow> bool" where
  "order_le CreatedDescIdAsc x y \<longleftrightarrow> rowKey x \<le> rowKey y"
| "order_le CreatedDescIdDesc x y \<longleftrightarrow>
     uint (r_created_at x) > uint (r_created_at y) \<or>
     (uint (r_created_at x) = uint (r_created_at y) \<and> r_id x \<ge> r_id y)"

text \<open>The key of \<open>LIMIT 1 BY kind, if(kind IN (0,3,10002), pubkey, id)\<close>.\<close>

definition collapseKey :: "row \<Rightarrow> 32 word \<times> string" where
  "collapseKey r = (r_kind r, if uint (r_kind r) \<in> {0, 3, 10002} then r_pubkey r else r_id r)"

text \<open>The same class on events: a replaceable event is identified by kind and author, any other
  by its id.\<close>

definition eventClass :: "event \<Rightarrow> int \<times> string" where
  "eventClass e = (ev_kind e, if ev_kind e \<in> {0, 3, 10002} then ev_pubkey e else ev_id e)"

definition sel_match :: "(string \<Rightarrow> bool) \<Rightarrow> select_stmt \<Rightarrow> row \<Rightarrow> bool" where
  "sel_match dead q r \<longleftrightarrow> list_all (\<lambda>c. cond_holds dead c r) (sel_where q)"

definition finish_select :: "select_stmt \<Rightarrow> row list \<Rightarrow> row list" where
  "finish_select q xs = take (sel_limit q) (if sel_collapse q then first_by collapseKey xs else xs)"

definition select_answer :: "tables \<Rightarrow> (string \<Rightarrow> bool) \<Rightarrow> select_stmt \<Rightarrow> row list \<Rightarrow> bool" where
  "select_answer tables dead q rows \<longleftrightarrow>
     (\<exists>xs. mset xs = mset (filter (sel_match dead q) (tables (sel_table q))) \<and>
           sorted_wrt (order_le (sel_order q)) xs \<and> rows = finish_select q xs)"

definition run_select :: "tables \<Rightarrow> (string \<Rightarrow> bool) \<Rightarrow> connection" where
  "run_select tables dead q =
     (let xs = filter (sel_match dead q) (tables (sel_table q)) in
      Inr (finish_select q
        (case sel_order q of
           CreatedDescIdAsc \<Rightarrow> sort_key rowKey xs
         | CreatedDescIdDesc \<Rightarrow> rev (sort_key (\<lambda>r. (uint (r_created_at r), r_id r)) xs))))"

subsection \<open>Routing and queries\<close>

fun tiersLoop :: "override \<Rightarrow> string set \<Rightarrow> int list \<Rightarrow> string list" where
  "tiersLoop ov seen [] = []"
| "tiersLoop ov seen (k # ks) =
     (let t = classifyWithOverride k ov in
      if t = TierDrop then tiersLoop ov seen ks
      else if t \<in> seen then tiersLoop ov seen ks
      else t # tiersLoop ov (insert t seen) ks)"

definition tiersForFilter :: "nostr_filter \<Rightarrow> override \<Rightarrow> string list" where
  "tiersForFilter f ov = (if f_kinds f = [] then activeTiers else tiersLoop ov {} (f_kinds f))"

definition tierQuery :: "nostr_filter \<Rightarrow> string \<Rightarrow> select_stmt" where
  "tierQuery f t =
     \<lparr>sel_table = ''events_'' @ t, sel_where = filterConds f, sel_order = CreatedDescIdAsc,
      sel_collapse = True, sel_limit = nat (clampLimit (f_limit f))\<rparr>"

definition evKey :: "event \<Rightarrow> int \<times> string" where
  "evKey e = (- ev_created_at e, ev_id e)"

definition sortDesc :: "event list \<Rightarrow> event list" where
  "sortDesc ev = sort_key evKey ev"

fun tierScan :: "(string \<Rightarrow> bool) \<Rightarrow> connection \<Rightarrow> nostr_filter \<Rightarrow> string list \<Rightarrow> read_error + event list" where
  "tierScan cancelled conn f [] = Inr []"
| "tierScan cancelled conn f (t # ts) =
     (if cancelled t then Inl CtxErr
      else case conn (tierQuery f t) of
        Inl e \<Rightarrow> Inl (QueryErr (''events_'' @ t) e)
      | Inr rows \<Rightarrow>
          (case tierScan cancelled conn f ts of
             Inl e \<Rightarrow> Inl e
           | Inr evs \<Rightarrow> Inr (map scanEvent rows @ evs)))"

text \<open>\<open>collectEvents\<close> below the feed shortcut.\<close>

definition collectTiers :: "(string \<Rightarrow> bool) \<Rightarrow> connection \<Rightarrow> override \<Rightarrow> nostr_filter \<Rightarrow> read_error + event list" where
  "collectTiers cancelled conn ov f =
     (case tierScan cancelled conn f (tiersForFilter f ov) of
        Inl e \<Rightarrow> Inl e
      | Inr collected \<Rightarrow> Inr (take (nat (clampLimit (f_limit f))) (sortDesc collected)))"

subsection \<open>The feed path\<close>

definition feedRetention :: duration where "feedRetention = 7 * 24 * hour"

definition feedEligible :: "instant \<Rightarrow> nostr_filter \<Rightarrow> override \<Rightarrow> bool" where
  "feedEligible now f ov \<longleftrightarrow>
     f_ids f = [] \<and> f_authors f = [] \<and> f_tags f = [] \<and> f_until f = None \<and>
     (case f_since f of
        None \<Rightarrow> False
      | Some s \<Rightarrow> \<not> s * second < now - feedRetention + 2 * hour) \<and>
     list_all (\<lambda>k. classifyWithOverride k ov \<noteq> TierDrop) (f_kinds f)"

fun splitFeedLoop :: "override \<Rightarrow> int list \<Rightarrow> int list \<times> int list" where
  "splitFeedLoop ov [] = ([], [])"
| "splitFeedLoop ov (k # ks) =
     (case splitFeedLoop ov ks of (a, b) \<Rightarrow>
        if classifyWithOverride k ov = TierDrop then (a, b)
        else if k \<in> {0, 3, 10002} then (a, k # b)
        else (k # a, b))"

definition splitFeedKinds :: "int list \<Rightarrow> override \<Rightarrow> int list \<times> int list" where
  "splitFeedKinds filterKinds ov =
     splitFeedLoop ov (if filterKinds = [] then InScopeKinds else filterKinds)"

definition feedQuery :: "nostr_filter \<Rightarrow> int list \<Rightarrow> bool \<Rightarrow> select_stmt" where
  "feedQuery f kinds replaceable =
     \<lparr>sel_table = ''events_feed'', sel_where = KindIn (map toInt32 kinds) # filterConds f,
      sel_order = (if replaceable then CreatedDescIdAsc else CreatedDescIdDesc),
      sel_collapse = replaceable, sel_limit = nat (clampLimit (f_limit f) + 50)\<rparr>"

definition feedStep :: "connection \<Rightarrow> nostr_filter \<Rightarrow> int list \<Rightarrow> bool \<Rightarrow> read_error + event list" where
  "feedStep conn f kinds replaceable =
     (if kinds = [] then Inr []
      else case conn (feedQuery f kinds replaceable) of
        Inl e \<Rightarrow> Inl (QueryErr ''events_feed'' e)
      | Inr rows \<Rightarrow> Inr (map scanEvent rows))"

definition collectFeed :: "connection \<Rightarrow> override \<Rightarrow> nostr_filter \<Rightarrow> read_error + event list" where
  "collectFeed conn ov f =
     (case splitFeedKinds (f_kinds f) ov of (kindsA, kindsB) \<Rightarrow>
        (case feedStep conn f kindsA False of
           Inl e \<Rightarrow> Inl e
         | Inr as \<Rightarrow>
             (case feedStep conn f kindsB True of
                Inl e \<Rightarrow> Inl e
              | Inr bs \<Rightarrow>
                  Inr (take (nat (clampLimit (f_limit f))) (sortDesc (first_by ev_id (as @ bs)))))))"

definition collectEvents :: "bool \<Rightarrow> instant \<Rightarrow> (string \<Rightarrow> bool) \<Rightarrow> connection \<Rightarrow> override \<Rightarrow> nostr_filter \<Rightarrow>
    read_error + event list" where
  "collectEvents hasFeed now cancelled conn ov f =
     (if hasFeed \<and> feedEligible now f ov
      then (case collectFeed conn ov f of
              Inr collected \<Rightarrow> Inr collected
            | Inl _ \<Rightarrow> collectTiers cancelled conn ov f)
      else collectTiers cancelled conn ov f)"

text \<open>\<open>CountEvents\<close> over the per-table count the server returns.\<close>

fun countTiers :: "(string \<Rightarrow> bool) \<Rightarrow> (string \<Rightarrow> cond list \<Rightarrow> string + nat) \<Rightarrow> nostr_filter \<Rightarrow> string list \<Rightarrow>
    read_error + nat" where
  "countTiers cancelled rowCount f [] = Inr 0"
| "countTiers cancelled rowCount f (t # ts) =
     (if cancelled t then Inl CtxErr
      else case rowCount (''events_'' @ t) (filterConds f) of
        Inl e \<Rightarrow> Inl (QueryErr (''events_'' @ t) e)
      | Inr n \<Rightarrow> map_sum id (\<lambda>m. n + m) (countTiers cancelled rowCount f ts))"

definition CountEvents :: "read_error option \<Rightarrow> (string \<Rightarrow> bool) \<Rightarrow> (string \<Rightarrow> cond list \<Rightarrow> string + nat) \<Rightarrow> override \<Rightarrow> nostr_filter \<Rightarrow>
    read_error + nat" where
  "CountEvents admit cancelled rowCount ov f =
     (case admit of Some e \<Rightarrow> Inl e | None \<Rightarrow> countTiers cancelled rowCount f (tiersForFilter f ov))"

section \<open>Sorting and cutting\<close>

lemma sortDesc_mset [simp]: "mset (sortDesc es) = mset es"
  by (simp add: sortDesc_def)

lemma sortDesc_set [simp]: "set (sortDesc es) = set es"
  by (simp add: sortDesc_def)

lemma sortDesc_sorted: "sorted (map evKey (sortDesc es))"
  by (simp add: sortDesc_def)

lemma sortDesc_by_time: "sorted (map (\<lambda>e. - ev_created_at e) (sortDesc es))"
  using sortDesc_sorted[of es] unfolding sorted_map
  by (rule sorted_wrt_mono_rel[rotated]) (auto simp: evKey_def less_eq_prod_def)

text \<open>Go's \<open>sort.Slice\<close> is not stable, but where no two events share time and id, every
  sorted permutation is this one.\<close>

lemma sortDesc_unique:
  assumes "mset ys = mset es" "sorted (map evKey ys)" "inj_on evKey (set es)"
  shows "ys = sortDesc es"
  unfolding sortDesc_def
  by (rule sort_key_inj_key_eq[symmetric]) (use assms in simp_all)

lemma order_le_asc: "order_le CreatedDescIdAsc = (\<lambda>x y. rowKey x \<le> rowKey y)"
  by (intro ext) simp

section \<open>The server's contract\<close>

locale clickhouse =
  fixes tables :: tables and dead :: "string \<Rightarrow> bool" and conn :: connection
  assumes answers: "conn q = Inr rows \<Longrightarrow> select_answer tables dead q rows"
begin

lemma answer_member:
  assumes "conn q = Inr rows" "r \<in> set rows"
  shows "r \<in> set (tables (sel_table q)) \<and> sel_match dead q r"
proof -
  obtain xs where xs: "mset xs = mset (filter (sel_match dead q) (tables (sel_table q)))"
    "rows = finish_select q xs" using answers[OF assms(1)] by (auto simp: select_answer_def)
  then have "r \<in> set xs" using assms(2) first_by_subset[of collapseKey xs]
    by (auto simp: finish_select_def split: if_splits dest: in_set_takeD)
  then show ?thesis using mset_eq_setD[OF xs(1)] by simp
qed

lemma answer_collapsed: "conn q = Inr rows \<Longrightarrow> sel_collapse q \<Longrightarrow> distinct (map collapseKey rows)"
  using answers[of q rows] first_by_distinct[of collapseKey]
  by (auto simp: select_answer_def finish_select_def take_map[symmetric])

text \<open>Every matching row is represented: by itself or a newer version of it, unless the
  LIMIT cut the version off, and then everything returned is at least as new.\<close>

lemma answer_complete:
  assumes "conn q = Inr rows" "sel_collapse q" "sel_order q = CreatedDescIdAsc"
    "r \<in> set (tables (sel_table q))" "sel_match dead q r"
  shows "\<exists>w. w \<in> set (tables (sel_table q)) \<and> sel_match dead q w \<and> collapseKey w = collapseKey r \<and>
    rowKey w \<le> rowKey r \<and>
    (w \<in> set rows \<or> (length rows = sel_limit q \<and> (\<forall>x \<in> set rows. rowKey x \<le> rowKey w)))"
proof -
  obtain xs where xs: "mset xs = mset (filter (sel_match dead q) (tables (sel_table q)))"
    "sorted_wrt (order_le CreatedDescIdAsc) xs" "rows = take (sel_limit q) (first_by collapseKey xs)"
    using answers[OF assms(1)] assms(2,3) by (auto simp: select_answer_def finish_select_def)
  have set_xs: "x \<in> set xs \<longleftrightarrow> x \<in> set (tables (sel_table q)) \<and> sel_match dead q x" for x
    using mset_eq_setD[OF xs(1)] by simp
  then have "r \<in> set xs" using assms(4,5) by blast
  from first_by_least[OF xs(2) this, of collapseKey]
  obtain w where w: "w \<in> set (first_by collapseKey xs)" "collapseKey w = collapseKey r" "rowKey w \<le> rowKey r"
    by auto
  have "sorted (map rowKey (first_by collapseKey xs))"
    using first_by_sorted[OF xs(2), of collapseKey] unfolding sorted_map order_le_asc .
  then have "w \<in> set rows \<or> (length rows = sel_limit q \<and> (\<forall>x \<in> set rows. rowKey x \<le> rowKey w))"
    using sorted_take_below[of rowKey _ w "sel_limit q"] w(1) xs(3) by blast
  moreover have "w \<in> set xs" using w(1) first_by_subset by fast
  ultimately show ?thesis using w set_xs by blast
qed

text \<open>The plain reverse scan: a matching row is returned, or the LIMIT is full of rows at least
  as new.\<close>

lemma answer_newest:
  assumes "conn q = Inr rows" "\<not> sel_collapse q" "sel_order q = CreatedDescIdDesc"
    "r \<in> set (tables (sel_table q))" "sel_match dead q r"
  shows "r \<in> set rows \<or>
    (length rows = sel_limit q \<and> (\<forall>x \<in> set rows. uint (r_created_at r) \<le> uint (r_created_at x)))"
proof -
  obtain xs where xs: "mset xs = mset (filter (sel_match dead q) (tables (sel_table q)))"
    "sorted_wrt (order_le CreatedDescIdDesc) xs" "rows = take (sel_limit q) xs"
    using answers[OF assms(1)] assms(2,3) by (auto simp: select_answer_def finish_select_def)
  have "r \<in> set xs" using mset_eq_setD[OF xs(1)] assms(4,5) by simp
  moreover have "sorted (map (\<lambda>r. - uint (r_created_at r)) xs)"
    unfolding sorted_map by (rule sorted_wrt_mono_rel[OF _ xs(2)]) auto
  ultimately show ?thesis
    using sorted_take_below[of "\<lambda>r. - uint (r_created_at r)" xs r "sel_limit q"] xs(3) by auto
qed

lemma answer_all:
  assumes "conn q = Inr rows" "\<not> sel_collapse q"
    "length (filter (sel_match dead q) (tables (sel_table q))) \<le> sel_limit q"
  shows "set rows = {r \<in> set (tables (sel_table q)). sel_match dead q r}"
proof -
  obtain xs where xs: "mset xs = mset (filter (sel_match dead q) (tables (sel_table q)))"
    "rows = take (sel_limit q) xs" using answers[OF assms(1)] assms(2) by (auto simp: select_answer_def finish_select_def)
  then have "rows = xs" using assms(3) mset_eq_length[OF xs(1)] by simp
  then show ?thesis using mset_eq_setD[OF xs(1)] by auto
qed

lemma answer_distinct:
  assumes "conn q = Inr rows" "distinct (map r_id (tables (sel_table q)))"
  shows "distinct (map r_id rows)"
proof -
  obtain xs where xs: "mset xs = mset (filter (sel_match dead q) (tables (sel_table q)))"
    "rows = finish_select q xs" using answers[OF assms(1)] by (auto simp: select_answer_def)
  have "distinct (map r_id (filter (sel_match dead q) (tables (sel_table q))))"
    using assms(2) by (rule distinct_map_filter)
  moreover have "mset (map r_id xs) = mset (map r_id (filter (sel_match dead q) (tables (sel_table q))))"
    using xs(1) by simp
  ultimately have "distinct (map r_id xs)" by (metis mset_eq_imp_distinct_iff)
  then show ?thesis
    using first_by_keeps_distinct[of r_id xs collapseKey]
    by (simp add: xs(2) finish_select_def take_map[symmetric])
qed

end

lemma run_select_answer: "run_select tables dead q = Inr rows \<Longrightarrow> select_answer tables dead q rows"
proof -
  let ?xs = "filter (sel_match dead q) (tables (sel_table q))"
  let ?ys = "case sel_order q of CreatedDescIdAsc \<Rightarrow> sort_key rowKey ?xs
    | CreatedDescIdDesc \<Rightarrow> rev (sort_key (\<lambda>r. (uint (r_created_at r), r_id r)) ?xs)"
  have "sorted_wrt (\<lambda>x y. (uint (r_created_at x), r_id x) \<le> (uint (r_created_at y), r_id y))
      (sort_key (\<lambda>r. (uint (r_created_at r), r_id r)) ?xs)"
    using sorted_sort_key[of "\<lambda>r. (uint (r_created_at r), r_id r)" ?xs] unfolding sorted_map .
  then have "sorted_wrt (order_le CreatedDescIdDesc) (rev (sort_key (\<lambda>r. (uint (r_created_at r), r_id r)) ?xs))"
    unfolding sorted_wrt_rev by (rule sorted_wrt_mono_rel[rotated]) auto
  moreover have "sorted_wrt (order_le CreatedDescIdAsc) (sort_key rowKey ?xs)"
    using sorted_sort_key[of rowKey ?xs] unfolding sorted_map order_le_asc .
  ultimately have "sorted_wrt (order_le (sel_order q)) ?ys" by (cases "sel_order q") simp_all
  moreover have "mset ?ys = mset ?xs" by (cases "sel_order q") simp_all
  moreover assume "run_select tables dead q = Inr rows"
  ultimately show ?thesis by (auto simp: run_select_def select_answer_def Let_def)
qed

interpretation server: clickhouse tables dead "run_select tables dead" for tables dead
  by unfold_locales (rule run_select_answer)

section \<open>Routing\<close>

lemma tiersLoop_set: "set (tiersLoop ov seen ks) =
    (\<lambda>k. classifyWithOverride k ov) ` set ks - {TierDrop} - seen"
  by (induction ks arbitrary: seen) (auto simp: Let_def)

lemma tiersLoop_distinct: "distinct (tiersLoop ov seen ks)"
  by (induction ks arbitrary: seen) (auto simp: Let_def tiersLoop_set)

lemma tiersForFilter_distinct: "distinct (tiersForFilter f ov)"
  by (simp add: tiersForFilter_def tiersLoop_distinct) (simp add: activeTiers_def)

lemma tiersForFilter_kind:
  assumes "f_kinds f = [] \<or> k \<in> set (f_kinds f)" "classifyWithOverride k ov \<in> set activeTiers"
  shows "classifyWithOverride k ov \<in> set (tiersForFilter f ov)"
  using assms by (auto simp: tiersForFilter_def tiersLoop_set activeTiers_def)

section \<open>Tier scans\<close>

lemma evKey_scanEvent [simp]: "evKey (scanEvent r) = rowKey r"
  by (simp add: evKey_def rowKey_def scanEvent_def)

lemma tierQuery_match: "sel_match dead (tierQuery f t) r = where_holds dead f r"
  by (simp add: sel_match_def tierQuery_def where_holds_def)

lemma tierQuery_simps [simp]:
  "sel_table (tierQuery f t) = ''events_'' @ t" "sel_collapse (tierQuery f t)"
  "sel_order (tierQuery f t) = CreatedDescIdAsc" "sel_limit (tierQuery f t) = nat (clampLimit (f_limit f))"
  by (simp_all add: tierQuery_def)

lemma feedQuery_simps [simp]:
  "sel_table (feedQuery f ks b) = ''events_feed''" "sel_collapse (feedQuery f ks b) = b"
  "sel_order (feedQuery f ks b) = (if b then CreatedDescIdAsc else CreatedDescIdDesc)"
  "sel_limit (feedQuery f ks b) = nat (clampLimit (f_limit f) + 50)"
  by (simp_all add: feedQuery_def)

lemma feedQuery_match:
  "sel_match dead (feedQuery f ks b) r \<longleftrightarrow> where_holds dead f r \<and> uint (r_kind r) \<in> toInt32 ` set ks"
  by (auto simp: sel_match_def feedQuery_def where_holds_def)

lemma eventClass_scanEvent: "eventClass (scanEvent r) = (uint (fst (collapseKey r)), snd (collapseKey r))"
  by (simp add: eventClass_def scanEvent_def collapseKey_def)

lemma distinct_eventClass: "distinct (map (\<lambda>r. eventClass (scanEvent r)) rows) = distinct (map collapseKey rows)"
proof -
  have "eventClass (scanEvent x) = eventClass (scanEvent y) \<longleftrightarrow> collapseKey x = collapseKey y" for x y
    by (simp add: eventClass_scanEvent prod_eq_iff word_uint_eq_iff)
  then show ?thesis unfolding distinct_map_sorted_wrt by simp
qed

lemma tierScan_member:
  assumes "tierScan cancelled conn f ts = Inr evs" "e \<in> set evs"
  shows "\<exists>t \<in> set ts. \<exists>rows. conn (tierQuery f t) = Inr rows \<and> e \<in> scanEvent ` set rows"
  using assms by (induction ts arbitrary: evs) (auto split: if_splits sum.splits)

lemma tierScan_covers:
  assumes "tierScan cancelled conn f ts = Inr evs" "t \<in> set ts"
  shows "\<exists>rows. conn (tierQuery f t) = Inr rows \<and> mset (map scanEvent rows) \<subseteq># mset evs"
  using assms
proof (induction ts arbitrary: evs)
  case (Cons u us)
  from Cons.prems(1) obtain rows rest where u: "conn (tierQuery f u) = Inr rows"
    "tierScan cancelled conn f us = Inr rest" "evs = map scanEvent rows @ rest"
    by (auto split: if_splits sum.splits)
  show ?case
  proof (cases "t = u")
    case True
    then show ?thesis using u by auto
  next
    case False
    then obtain rs where "conn (tierQuery f t) = Inr rs" "mset (map scanEvent rs) \<subseteq># mset rest"
      using Cons.IH[OF u(2)] Cons.prems(2) by auto
    then show ?thesis using u(3) by (auto intro: subset_mset.order_trans)
  qed
qed simp

lemma collectTiers_Inr:
  assumes "collectTiers cancelled conn ov f = Inr es"
  obtains evs where "tierScan cancelled conn f (tiersForFilter f ov) = Inr evs"
    "es = take (nat (clampLimit (f_limit f))) (sortDesc evs)"
  using assms by (auto simp: collectTiers_def split: sum.splits)

lemma collectTiers_shape:
  assumes "collectTiers cancelled conn ov f = Inr es"
  shows "length es \<le> nat (clampLimit (f_limit f))" "sorted (map evKey es)"
proof -
  obtain evs where "es = take (nat (clampLimit (f_limit f))) (sortDesc evs)"
    using collectTiers_Inr[OF assms] .
  then show "length es \<le> nat (clampLimit (f_limit f))" "sorted (map evKey es)"
    using sortDesc_sorted[of evs] by (simp_all add: take_map[symmetric] sorted_wrt_take)
qed

lemma collectFeed_Inr:
  assumes "collectFeed conn ov f = Inr es"
  obtains as bs where "feedStep conn f (fst (splitFeedKinds (f_kinds f) ov)) False = Inr as"
    "feedStep conn f (snd (splitFeedKinds (f_kinds f) ov)) True = Inr bs"
    "es = take (nat (clampLimit (f_limit f))) (sortDesc (first_by ev_id (as @ bs)))"
  using assms by (auto simp: collectFeed_def split: prod.splits sum.splits)

lemma collectFeed_shape:
  assumes "collectFeed conn ov f = Inr es"
  shows "length es \<le> nat (clampLimit (f_limit f))" "sorted (map evKey es)" "distinct (map ev_id es)"
proof -
  obtain as bs where es: "es = take (nat (clampLimit (f_limit f))) (sortDesc (first_by ev_id (as @ bs)))"
    using collectFeed_Inr[OF assms] .
  have "mset (map ev_id (sortDesc (first_by ev_id (as @ bs)))) = mset (map ev_id (first_by ev_id (as @ bs)))" by simp
  then have "distinct (map ev_id (sortDesc (first_by ev_id (as @ bs))))"
    by (metis mset_eq_imp_distinct_iff first_by_distinct)
  then show "distinct (map ev_id es)" unfolding es take_map[symmetric] by (rule distinct_take)
  show "length es \<le> nat (clampLimit (f_limit f))" "sorted (map evKey es)"
    using sortDesc_sorted[of "first_by ev_id (as @ bs)"] unfolding es take_map[symmetric] by (simp_all add: sorted_wrt_take)
qed

context clickhouse
begin

lemma tiers_member:
  assumes "collectTiers cancelled conn ov f = Inr es" "e \<in> set es"
  shows "\<exists>t \<in> set (tiersForFilter f ov). \<exists>r \<in> set (tables (''events_'' @ t)). where_holds dead f r \<and> e = scanEvent r"
proof -
  obtain evs where evs: "tierScan cancelled conn f (tiersForFilter f ov) = Inr evs"
    "es = take (nat (clampLimit (f_limit f))) (sortDesc evs)" using collectTiers_Inr[OF assms(1)] .
  then have "e \<in> set evs" using assms(2) by (auto dest: in_set_takeD)
  from tierScan_member[OF evs(1) this] show ?thesis
    using answer_member[of "tierQuery f _"] by (fastforce simp: tierQuery_match)
qed

lemma tiers_complete:
  assumes es: "collectTiers cancelled conn ov f = Inr es"
    and t: "t \<in> set (tiersForFilter f ov)" and r: "r \<in> set (tables (''events_'' @ t))" "where_holds dead f r"
  shows "\<exists>w \<in> set (tables (''events_'' @ t)). where_holds dead f w \<and> collapseKey w = collapseKey r \<and>
    rowKey w \<le> rowKey r \<and>
    (scanEvent w \<in> set es \<or>
     (length es = nat (clampLimit (f_limit f)) \<and> (\<forall>e \<in> set es. evKey e \<le> rowKey w)))"
proof -
  let ?n = "nat (clampLimit (f_limit f))"
  obtain evs where evs: "tierScan cancelled conn f (tiersForFilter f ov) = Inr evs"
    "es = take ?n (sortDesc evs)" using collectTiers_Inr[OF es] .
  obtain rows where rows: "conn (tierQuery f t) = Inr rows" "mset (map scanEvent rows) \<subseteq># mset evs"
    using tierScan_covers[OF evs(1) t] by blast
  obtain w where w: "w \<in> set (tables (''events_'' @ t))" "where_holds dead f w" "collapseKey w = collapseKey r"
    "rowKey w \<le> rowKey r" and cut: "w \<in> set rows \<or> (length rows = ?n \<and> (\<forall>x \<in> set rows. rowKey x \<le> rowKey w))"
    using answer_complete[OF rows(1)] r by (auto simp: tierQuery_match)
  from cut have "scanEvent w \<in> set es \<or> (length es = ?n \<and> (\<forall>e \<in> set es. evKey e \<le> rowKey w))"
  proof
    assume "w \<in> set rows"
    then have "scanEvent w \<in> set (sortDesc evs)" using set_mset_mono[OF rows(2)] by auto
    from sorted_take_below[OF sortDesc_sorted this, of ?n] show ?thesis
      unfolding evs(2) by (simp only: evKey_scanEvent) blast
  next
    assume full: "length rows = ?n \<and> (\<forall>x \<in> set rows. rowKey x \<le> rowKey w)"
    then have "filter (\<lambda>e. evKey e \<le> rowKey w) (map scanEvent rows) = map scanEvent rows"
      by (simp add: filter_id_conv)
    moreover have "length (filter (\<lambda>e. evKey e \<le> rowKey w) (map scanEvent rows)) \<le>
        length (filter (\<lambda>e. evKey e \<le> rowKey w) (sortDesc evs))"
      by (rule length_filter_mono) (use rows(2) in simp)
    ultimately have "?n \<le> length (filter (\<lambda>e. evKey e \<le> rowKey w) (sortDesc evs))" using full by simp
    from sorted_take_many_below[OF sortDesc_sorted this] show ?thesis using evs(2) by blast
  qed
  with w show ?thesis by blast
qed

text \<open>Where every table holds only the kinds routed to its tier, no two returned events are
  versions of the same replaceable event or copies of the same event.\<close>

lemma tierScan_one_version:
  assumes "tierScan cancelled conn f ts = Inr evs" "distinct ts"
    "\<And>t r. r \<in> set (tables (''events_'' @ t)) \<Longrightarrow> classifyWithOverride (uint (r_kind r)) ov = t"
  shows "distinct (map eventClass evs)"
  using assms(1,2)
proof (induction ts arbitrary: evs)
  case (Cons t ts)
  from Cons.prems(1) obtain rows rest where t: "conn (tierQuery f t) = Inr rows"
    "tierScan cancelled conn f ts = Inr rest" "evs = map scanEvent rows @ rest"
    by (auto split: if_splits sum.splits)
  have tier: "classifyWithOverride (fst (eventClass (scanEvent x))) ov = u"
    if "conn (tierQuery f u) = Inr rs" "x \<in> set rs" for x u rs
    using assms(3) answer_member[OF that] by (simp add: eventClass_scanEvent collapseKey_def)
  have "\<exists>u \<in> set ts. classifyWithOverride (fst (eventClass e)) ov = u" if "e \<in> set rest" for e
    using tierScan_member[OF t(2) that] tier by auto
  then have "eventClass (scanEvent x) \<noteq> eventClass e" if "x \<in> set rows" "e \<in> set rest" for x e
    using that tier[OF t(1)] Cons.prems(2) by force
  moreover have "distinct (map (\<lambda>r. eventClass (scanEvent r)) rows)"
    using answer_collapsed[OF t(1)] by (simp add: distinct_eventClass)
  ultimately show ?case using Cons.IH[OF t(2)] Cons.prems(2) t(3)
    by (auto simp: comp_def) (metis prod.collapse)
qed simp

lemma feedStep_member:
  assumes "feedStep conn f ks b = Inr es" "e \<in> set es"
  shows "\<exists>r \<in> set (tables ''events_feed''). where_holds dead f r \<and> uint (r_kind r) \<in> toInt32 ` set ks \<and> e = scanEvent r"
proof -
  obtain rows where rows: "conn (feedQuery f ks b) = Inr rows" "es = map scanEvent rows"
    using assms by (auto simp: feedStep_def split: if_splits sum.splits)
  then obtain r where "r \<in> set rows" "e = scanEvent r" using assms(2) by auto
  then show ?thesis using answer_member[OF rows(1), of r] by (auto simp: feedQuery_match)
qed

lemma feedStep_distinct:
  assumes "feedStep conn f ks b = Inr es" "distinct (map r_id (tables ''events_feed''))"
  shows "distinct (map ev_id es)"
proof (cases "ks = []")
  case False
  then obtain rows where rows: "conn (feedQuery f ks b) = Inr rows" "es = map scanEvent rows"
    using assms(1) by (auto simp: feedStep_def split: if_splits sum.splits)
  then show ?thesis using answer_distinct[OF rows(1)] assms(2) by (simp add: comp_def scanEvent_def)
qed (use assms in \<open>simp add: feedStep_def\<close>)

lemma feedStep_complete:
  assumes "feedStep conn f ks b = Inr es" "r \<in> set (tables ''events_feed'')" "where_holds dead f r"
    "uint (r_kind r) \<in> toInt32 ` set ks"
  shows "\<exists>w \<in> set (tables ''events_feed''). where_holds dead f w \<and> collapseKey w = collapseKey r \<and>
    uint (r_created_at r) \<le> uint (r_created_at w) \<and>
    (scanEvent w \<in> set es \<or> (length es = nat (clampLimit (f_limit f) + 50) \<and>
       (\<forall>e \<in> set es. uint (r_created_at w) \<le> ev_created_at e)))"
proof -
  obtain rows where rows: "conn (feedQuery f ks b) = Inr rows" "es = map scanEvent rows"
    using assms(1,4) by (auto simp: feedStep_def split: if_splits sum.splits)
  have m: "sel_match dead (feedQuery f ks b) r" using assms(3,4) by (simp add: feedQuery_match)
  show ?thesis
  proof (cases b)
    case True
    then obtain w where w: "w \<in> set (tables ''events_feed'')" "where_holds dead f w" "collapseKey w = collapseKey r"
      "rowKey w \<le> rowKey r"
      "w \<in> set rows \<or> (length rows = nat (clampLimit (f_limit f) + 50) \<and> (\<forall>x \<in> set rows. rowKey x \<le> rowKey w))"
      using answer_complete[OF rows(1) _ _ _ m] assms(2) by (auto simp: feedQuery_match)
    have newer: "rowKey x \<le> rowKey y \<Longrightarrow> uint (r_created_at y) \<le> ev_created_at (scanEvent x)" for x y
      by (auto simp: rowKey_def less_eq_prod_def scanEvent_def)
    from w(5) have "scanEvent w \<in> set es \<or> (length es = nat (clampLimit (f_limit f) + 50) \<and>
       (\<forall>e \<in> set es. uint (r_created_at w) \<le> ev_created_at e))" using newer unfolding rows(2) by auto
    then show ?thesis using w(1-3) newer[OF w(4)] by (intro bexI[of _ w]) (simp_all add: scanEvent_def)
  next
    case False
    then have "r \<in> set rows \<or> (length rows = nat (clampLimit (f_limit f) + 50) \<and>
        (\<forall>x \<in> set rows. uint (r_created_at r) \<le> uint (r_created_at x)))"
      using answer_newest[OF rows(1) _ _ _ m] assms(2) by simp
    then show ?thesis using assms(2,3) unfolding rows(2) by (intro bexI[of _ r]) (auto simp: scanEvent_def)
  qed
qed

lemma feed_member:
  assumes "collectFeed conn ov f = Inr es" "e \<in> set es"
  shows "\<exists>r \<in> set (tables ''events_feed''). where_holds dead f r \<and> e = scanEvent r"
proof -
  obtain as bs where ab: "feedStep conn f (fst (splitFeedKinds (f_kinds f) ov)) False = Inr as"
    "feedStep conn f (snd (splitFeedKinds (f_kinds f) ov)) True = Inr bs"
    "es = take (nat (clampLimit (f_limit f))) (sortDesc (first_by ev_id (as @ bs)))"
    using collectFeed_Inr[OF assms(1)] .
  then have "e \<in> set (first_by ev_id (as @ bs))" using assms(2) by (auto dest: in_set_takeD)
  then have "e \<in> set as \<or> e \<in> set bs" using first_by_subset[of ev_id "as @ bs"] by auto
  then show ?thesis using feedStep_member[OF ab(1)] feedStep_member[OF ab(2)] by blast
qed

lemma feed_complete:
  assumes es: "collectFeed conn ov f = Inr es" and ids: "distinct (map r_id (tables ''events_feed''))"
    and r: "r \<in> set (tables ''events_feed'')" "where_holds dead f r"
    and k: "uint (r_kind r) \<in> toInt32 ` (set (fst (splitFeedKinds (f_kinds f) ov)) \<union> set (snd (splitFeedKinds (f_kinds f) ov)))"
  shows "\<exists>w \<in> set (tables ''events_feed''). where_holds dead f w \<and> collapseKey w = collapseKey r \<and>
    uint (r_created_at r) \<le> uint (r_created_at w) \<and>
    (scanEvent w \<in> set es \<or> (length es = nat (clampLimit (f_limit f)) \<and>
       (\<forall>e \<in> set es. uint (r_created_at w) \<le> ev_created_at e)))"
proof -
  let ?n = "nat (clampLimit (f_limit f))"
  obtain as bs where ab: "feedStep conn f (fst (splitFeedKinds (f_kinds f) ov)) False = Inr as"
    "feedStep conn f (snd (splitFeedKinds (f_kinds f) ov)) True = Inr bs"
    "es = take ?n (sortDesc (first_by ev_id (as @ bs)))"
    using collectFeed_Inr[OF es] .
  let ?u = "first_by ev_id (as @ bs)"
  have scanned: "e \<in> scanEvent ` set (tables ''events_feed'')" if "e \<in> set (as @ bs)" for e
    using that feedStep_member[OF ab(1)] feedStep_member[OF ab(2)] by auto
  have "inj_on ev_id (scanEvent ` set (tables ''events_feed''))"
    using ids by (auto simp: distinct_map inj_on_def scanEvent_def)
  then have u: "set ?u = set as \<union> set bs"
    using first_by_inj[of ev_id "as @ bs"] scanned by (simp add: inj_on_subset subset_iff)
  obtain b ks part where part: "feedStep conn f ks b = Inr part" "set part \<subseteq> set ?u" "uint (r_kind r) \<in> toInt32 ` set ks"
    using k ab(1,2) u by (metis Un_iff image_Un sup.cobounded1 sup.cobounded2)
  obtain w where w: "w \<in> set (tables ''events_feed'')" "where_holds dead f w" "collapseKey w = collapseKey r"
    "uint (r_created_at r) \<le> uint (r_created_at w)" and cut: "scanEvent w \<in> set part \<or>
      (length part = nat (clampLimit (f_limit f) + 50) \<and> (\<forall>e \<in> set part. uint (r_created_at w) \<le> ev_created_at e))"
    using feedStep_complete[OF part(1) r part(3)] by blast
  let ?old = "\<lambda>e. - ev_created_at e \<le> - uint (r_created_at w)"
  have srt: "sorted (map (\<lambda>e. - ev_created_at e) (sortDesc ?u))" by (rule sortDesc_by_time)
  from cut have "scanEvent w \<in> set es \<or> (length es = ?n \<and> (\<forall>e \<in> set es. ?old e))"
  proof
    assume "scanEvent w \<in> set part"
    then have "scanEvent w \<in> set (sortDesc ?u)" using part(2) by auto
    from sorted_take_below[OF srt this, of ?n] show ?thesis
      unfolding ab(3) by (auto simp: scanEvent_def)
  next
    assume full: "length part = nat (clampLimit (f_limit f) + 50) \<and> (\<forall>e \<in> set part. uint (r_created_at w) \<le> ev_created_at e)"
    have "distinct part" using feedStep_distinct[OF part(1) ids] by (simp add: distinct_map)
    then have "mset part \<subseteq># mset (sortDesc ?u)" using part(2) by (simp add: distinct_subset_mset)
    from length_filter_mono[OF this, of ?old] have "length part \<le> length (filter ?old (sortDesc ?u))"
      using full by (simp add: filter_True)
    then have "?n \<le> length (filter ?old (sortDesc ?u))" using full by linarith
    from sorted_take_many_below[OF srt this] show ?thesis unfolding ab(3) by blast
  qed
  with w show ?thesis by auto
qed

end

section \<open>Properties\<close>

definition demo_tables :: tables where
  "demo_tables tbl =
     (if tbl = ''events_archive'' then [rowFromEvent demo_note]
      else if tbl = ''events_permanent''
      then [rowFromEvent (demo_note\<lparr>ev_id := ''m1'', ev_kind := 0, ev_created_at := 1700000005\<rparr>),
            rowFromEvent (demo_note\<lparr>ev_id := ''m2'', ev_kind := 0, ev_created_at := 1700000009\<rparr>)]
      else if tbl = ''events_feed'' then [rowFromEvent demo_note]
      else [])"

definition demo_result :: "event list" where
  "demo_result = map (\<lambda>r. scanEvent r)
     [rowFromEvent (demo_note\<lparr>ev_id := ''m2'', ev_kind := 0, ev_created_at := 1700000009\<rparr>), rowFromEvent demo_note]"

lemma demo_query:
  "collectEvents True 0 (\<lambda>_. False) (run_select demo_tables (\<lambda>_. False)) Map.empty match_all = Inr demo_result"
  unfolding demo_tables_def demo_result_def match_all_def demo_note_def by code_simp

text \<open>C7. A query never returns too much or the wrong thing: whichever path serves it, the
  events come newest first with ties broken by id, there are at most as many as the clamped
  limit, hence at most 1000, and each of them is a live row of the recent-feed table or of a
  tier table the filter's kinds route to, satisfying the filter's WHERE clause.\<close>

theorem query_sound:
  assumes "clickhouse tables dead conn" "collectEvents hasFeed now cancelled conn ov f = Inr es"
  shows "sorted (map evKey es) \<and> length es \<le> nat (clampLimit (f_limit f)) \<and> length es \<le> 1000 \<and>
    (\<forall>e \<in> set es. \<exists>tbl \<in> set (''events_feed'' # map (\<lambda>t. ''events_'' @ t) (tiersForFilter f ov)).
       \<exists>r \<in> set (tables tbl). where_holds dead f r \<and> \<not> dead (ev_id e) \<and> e = scanEvent r)"
proof -
  have le: "nat (clampLimit (f_limit f)) \<le> 1000" by (auto simp: clampLimit_def defaultQueryLimit_def)
  have live: "where_holds dead f r \<Longrightarrow> \<not> dead (ev_id (scanEvent r))" for r
    using where_not_dead[of dead f r] by (simp add: scanEvent_def)
  from assms(2) consider "collectFeed conn ov f = Inr es" | "collectTiers cancelled conn ov f = Inr es"
    by (auto simp: collectEvents_def split: if_splits sum.splits)
  then show ?thesis
  proof cases
    case 1
    then show ?thesis
      using le live collectFeed_shape[OF 1] clickhouse.feed_member[OF assms(1) 1] by fastforce
  next
    case 2
    then show ?thesis
      using le live collectTiers_shape[OF 2] clickhouse.tiers_member[OF assms(1) 2] by fastforce
  qed
qed

theorem query_sound_witness:
  "clickhouse demo_tables (\<lambda>_. False) (run_select demo_tables (\<lambda>_. False)) \<and>
   collectEvents True 0 (\<lambda>_. False) (run_select demo_tables (\<lambda>_. False)) Map.empty match_all = Inr demo_result \<and>
   sorted (map evKey demo_result) \<and> length demo_result \<le> 1000"
  using query_sound[OF server.clickhouse_axioms demo_query] server.clickhouse_axioms demo_query by blast

text \<open>C6. A tier query misses nothing it should show: for every live row of a routed tier that
  satisfies the filter, the newest satisfying version of it (the row itself unless it is a
  replaced version or a duplicate) is returned, or the result is full and everything in it is
  at least as new. This also covers a feed query that fails and falls back to the tiers.\<close>

theorem query_complete:
  assumes "clickhouse tables dead conn" "collectEvents hasFeed now cancelled conn ov f = Inr es"
    "\<not> (hasFeed \<and> feedEligible now f ov) \<or> (\<exists>err. collectFeed conn ov f = Inl err)"
    "t \<in> set (tiersForFilter f ov)" "r \<in> set (tables (''events_'' @ t))" "where_holds dead f r"
  shows "\<exists>w \<in> set (tables (''events_'' @ t)). where_holds dead f w \<and> collapseKey w = collapseKey r \<and>
    rowKey w \<le> rowKey r \<and>
    (scanEvent w \<in> set es \<or> (length es = nat (clampLimit (f_limit f)) \<and> (\<forall>e \<in> set es. evKey e \<le> rowKey w)))"
proof -
  have "collectTiers cancelled conn ov f = Inr es"
    using assms(2,3) by (auto simp: collectEvents_def split: if_splits sum.splits)
  from clickhouse.tiers_complete[OF assms(1) this assms(4-6)] show ?thesis .
qed

theorem query_complete_witness:
  "\<not> feedEligible 0 match_all Map.empty \<and>
   (\<exists>w \<in> set (demo_tables (''events_'' @ ''archive'')). where_holds (\<lambda>_. False) match_all w \<and>
     collapseKey w = collapseKey (rowFromEvent demo_note) \<and>
     (scanEvent w \<in> set demo_result \<or> length demo_result = nat (clampLimit (f_limit match_all))))"
proof -
  have 1: "\<not> feedEligible 0 match_all Map.empty" by (simp add: feedEligible_def match_all_def)
  have 2: "''archive'' \<in> set (tiersForFilter match_all Map.empty)"
    by (simp add: tiersForFilter_def match_all_def activeTiers_def TierArchive_def)
  have 3: "rowFromEvent demo_note \<in> set (demo_tables (''events_'' @ ''archive''))" by (simp add: demo_tables_def)
  have 4: "where_holds (\<lambda>_. False) match_all (rowFromEvent demo_note)"
    by (simp add: where_holds_def filterConds_def match_all_def)
  show ?thesis using query_complete[OF server.clickhouse_axioms demo_query _ 2 3 4] 1 by blast
qed





end
