(* ===== verification/Admission.thy ===== *)
theory Admission
  imports Store_Read
begin

text \<open>
  Read admission (\<open>acquireRead\<close> of \<open>internal/store/store.go\<close>): two channels used as counting
  semaphores, \<open>readSem\<close> for the queries in flight and \<open>readWait\<close> for the bounded waiter queue,
  both of capacity 16. \<open>acquireRead\<close> is the non-blocking part of the function; a caller that
  joined the queue wakes or is cancelled in a later step. \<open>a_phase\<close> is history: where each
  caller stands. khatru's internal calls bypass admission.
\<close>

datatype acquired = Released | Token

datatype admission_result = Admitted acquired | Joined | Refused read_error

datatype reader_phase = Outside | InQueue | Holding acquired

record admission =
  a_readSem :: nat
  a_readWait :: nat
  a_phase :: "nat \<Rightarrow> reader_phase"

section \<open>Definitions\<close>

definition readAdmissionCap :: nat where "readAdmissionCap = 16"

definition newAdmission :: admission where
  "newAdmission = \<lparr>a_readSem = 0, a_readWait = 0, a_phase = (\<lambda>_. Outside)\<rparr>"

definition acquireRead :: "bool \<Rightarrow> bool \<Rightarrow> admission \<Rightarrow> admission_result \<times> admission" where
  "acquireRead internal ctxDone a =
     (if internal then (Admitted Released, a)
      else if ctxDone then (Refused CtxErr, a)
      else if a_readSem a < readAdmissionCap then (Admitted Token, a\<lparr>a_readSem := Suc (a_readSem a)\<rparr>)
      else if a_readWait a < readAdmissionCap then (Joined, a\<lparr>a_readWait := Suc (a_readWait a)\<rparr>)
      else (Refused ErrReadBusy, a))"

text \<open>The last select of a queued caller, and the deferred receive that leaves the queue.\<close>

definition wakeRead :: "bool \<Rightarrow> admission \<Rightarrow> (admission_result \<times> admission) option" where
  "wakeRead ctxDone a =
     (if ctxDone then Some (Refused CtxErr, a\<lparr>a_readWait := a_readWait a - 1\<rparr>)
      else if a_readSem a < readAdmissionCap
      then Some (Admitted Token, a\<lparr>a_readSem := Suc (a_readSem a), a_readWait := a_readWait a - 1\<rparr>)
      else None)"

text \<open>The release function \<open>acquireRead\<close> returned.\<close>

fun releaseRead :: "acquired \<Rightarrow> admission \<Rightarrow> admission" where
  "releaseRead Released a = a"
| "releaseRead Token a = a\<lparr>a_readSem := a_readSem a - 1\<rparr>"

fun phaseAfter :: "admission_result \<Rightarrow> reader_phase" where
  "phaseAfter (Admitted t) = Holding t"
| "phaseAfter Joined = InQueue"
| "phaseAfter (Refused e) = Outside"

definition moveTo :: "nat \<Rightarrow> admission_result \<times> admission \<Rightarrow> admission" where
  "moveTo r = (\<lambda>(res, a). a\<lparr>a_phase := (a_phase a)(r := phaseAfter res)\<rparr>)"

inductive astep :: "admission \<Rightarrow> admission \<Rightarrow> bool" where
  a_acquire: "a_phase a r = Outside \<Longrightarrow> astep a (moveTo r (acquireRead internal ctxDone a))"
| a_wake: "a_phase a r = InQueue \<Longrightarrow> wakeRead ctxDone a = Some res \<Longrightarrow> astep a (moveTo r res)"
| a_release: "a_phase a r = Holding t \<Longrightarrow>
     astep a ((releaseRead t a)\<lparr>a_phase := (a_phase a)(r := Outside)\<rparr>)"

inductive areachable :: "admission \<Rightarrow> bool" where
  a_init: "areachable newAdmission"
| a_step: "areachable a \<Longrightarrow> astep a a' \<Longrightarrow> areachable a'"

definition callers :: "(nat \<Rightarrow> reader_phase) \<Rightarrow> reader_phase \<Rightarrow> nat set" where
  "callers f q = {r. f r = q}"

text \<open>The counters are exactly the callers in the phases they count, within capacity.\<close>

definition ainv :: "admission \<Rightarrow> bool" where
  "ainv a \<longleftrightarrow>
     finite (callers (a_phase a) (Holding Token)) \<and> card (callers (a_phase a) (Holding Token)) = a_readSem a \<and>
     finite (callers (a_phase a) InQueue) \<and> card (callers (a_phase a) InQueue) = a_readWait a \<and>
     a_readSem a \<le> readAdmissionCap \<and> a_readWait a \<le> readAdmissionCap"

section \<open>Lemmas\<close>

inductive_cases astepE: "astep a a'"

lemma callers_upd: "callers (f(r := p)) q = (if p = q then insert r (callers f q) else callers f q - {r})"
  by (auto simp: callers_def)

lemma callers_iff: "r \<in> callers f q \<longleftrightarrow> f r = q"
  by (simp add: callers_def)

lemma in_phase_pos: "finite (callers f q) \<Longrightarrow> f r = q \<Longrightarrow> 0 < card (callers f q)"
  by (auto simp: card_gt_0_iff callers_def)

lemmas phase_simps = callers_upd callers_iff card_insert_if

lemma acquire_ainv: "ainv a \<Longrightarrow> a_phase a r = Outside \<Longrightarrow> ainv (moveTo r (acquireRead internal ctxDone a))"
  by (auto simp: ainv_def acquireRead_def moveTo_def phase_simps)

lemma wake_ainv:
  assumes "ainv a" "a_phase a r = InQueue" "wakeRead ctxDone a = Some res"
  shows "ainv (moveTo r res)"
proof -
  have "0 < a_readWait a" using assms(1,2) in_phase_pos[of "a_phase a" InQueue r] by (simp add: ainv_def)
  then show ?thesis using assms
    by (auto simp: ainv_def wakeRead_def moveTo_def phase_simps split: if_splits)
qed

lemma release_ainv:
  assumes "ainv a" "a_phase a r = Holding t"
  shows "ainv ((releaseRead t a)\<lparr>a_phase := (a_phase a)(r := Outside)\<rparr>)"
  using assms by (cases t) (auto simp: ainv_def phase_simps)

lemma areachable_ainv: "areachable a \<Longrightarrow> ainv a"
proof (induction rule: areachable.induct)
  case a_init
  show ?case by (simp add: ainv_def newAdmission_def callers_def)
next
  case (a_step a a')
  from a_step.hyps(2) a_step.IH show ?case
    by (auto elim!: astepE intro: acquire_ainv wake_ainv release_ainv)
qed

section \<open>Properties\<close>

text \<open>C32. Read admission is sound: at most 16 admitted queries are in flight and at most 16
  wait, the semaphores count exactly the callers that hold a token or wait (so no token leaks
  and a release never blocks), a caller is turned away as busy only when both are full, and an
  internal call is always admitted.\<close>

theorem read_admission_bounded:
  assumes "areachable a"
  shows "card (callers (a_phase a) (Holding Token)) = a_readSem a \<and> a_readSem a \<le> readAdmissionCap \<and>
    card (callers (a_phase a) InQueue) = a_readWait a \<and> a_readWait a \<le> readAdmissionCap \<and>
    (\<forall>r. a_phase a r = Holding Token \<longrightarrow> 0 < a_readSem a) \<and>
    (fst (acquireRead internal ctxDone a) = Refused ErrReadBusy \<longleftrightarrow>
       \<not> internal \<and> \<not> ctxDone \<and> a_readSem a = readAdmissionCap \<and> a_readWait a = readAdmissionCap) \<and>
    acquireRead True ctxDone a = (Admitted Released, a)"
  using areachable_ainv[OF assms] in_phase_pos[of "a_phase a" "Holding Token"]
  by (auto simp: ainv_def acquireRead_def)

theorem read_admission_bounded_witness:
  "\<exists>a. areachable a \<and> a_phase a 7 = Holding Token \<and> 0 < a_readSem a"
proof -
  let ?a = "moveTo 7 (acquireRead False False newAdmission)"
  have r: "areachable ?a"
    by (rule areachable.a_step[OF areachable.a_init astep.a_acquire]) (simp add: newAdmission_def)
  moreover have "a_phase ?a 7 = Holding Token"
    by (simp add: moveTo_def acquireRead_def newAdmission_def readAdmissionCap_def)
  ultimately show ?thesis using read_admission_bounded[OF r] by blast
qed

end
