(* ===== verification/Feed_Writer.thy ===== *)
theory Feed_Writer
  imports Relay_Prelude
begin

text \<open>
  The recent-feed mirror (\<open>internal/store/feed.go\<close>): the batchers offer every event they
  stored to a bounded queue, one goroutine inserts them into \<open>events_feed\<close> in batches. The
  mirror is best effort: a full queue drops the event, a failed insert loses its batch. The
  record holds the queue, the goroutine's buffer, the drop counter and the table and, as
  history, what was offered, dropped, lost by a failed insert and acknowledged. The event type
  is a parameter, as for the batcher.
\<close>

record 'e feedWriter =
  fw_in :: "'e list"
  fw_stopCh :: bool
  fw_draining :: bool
  fw_done :: bool
  fw_buf :: "'e list"
  fw_drops :: nat
  fw_table :: "'e list"
  fw_offered :: "'e list"
  fw_dropped :: "'e list"
  fw_failed :: "'e list"
  fw_acked :: "'e list"

section \<open>Definitions\<close>

definition feedBatchMax :: nat where "feedBatchMax = 10000"
definition feedQueueCap :: nat where "feedQueueCap = 20000"

definition newFeedWriter :: "'e feedWriter" where
  "newFeedWriter =
     \<lparr>fw_in = [], fw_stopCh = False, fw_draining = False, fw_done = False, fw_buf = [], fw_drops = 0,
      fw_table = [], fw_offered = [], fw_dropped = [], fw_failed = [], fw_acked = []\<rparr>"

definition offer :: "'e \<Rightarrow> 'e feedWriter \<Rightarrow> 'e feedWriter" where
  "offer evt w =
     (let w1 = w\<lparr>fw_offered := fw_offered w @ [evt]\<rparr> in
      if length (fw_in w1) < feedQueueCap then w1\<lparr>fw_in := fw_in w1 @ [evt]\<rparr>
      else w1\<lparr>fw_drops := Suc (fw_drops w1), fw_dropped := fw_dropped w1 @ [evt]\<rparr>)"

definition Drops :: "'e feedWriter \<Rightarrow> nat" where "Drops w = fw_drops w"

text \<open>\<open>insert\<close>: whether it succeeded, and the table.\<close>

fun feedInsert :: "send_outcome \<Rightarrow> 'e list \<Rightarrow> 'e list \<Rightarrow> bool \<times> 'e list" where
  "feedInsert (PrepareFails e) events table = (False, table)"
| "feedInsert (AppendFails e) events table = (False, table)"
| "feedInsert (SendFails e stored) events table = (False, if stored then table @ events else table)"
| "feedInsert SendOK events table = (True, table @ events)"

definition feedFlush :: "send_outcome \<Rightarrow> 'e feedWriter \<Rightarrow> 'e feedWriter" where
  "feedFlush oc w =
     (if fw_buf w = [] then w
      else
        let w1 = w\<lparr>fw_drops := 0\<rparr> in
        case feedInsert oc (fw_buf w1) (fw_table w1) of
          (True, table) \<Rightarrow> w1\<lparr>fw_table := table, fw_acked := fw_acked w1 @ fw_buf w1, fw_buf := []\<rparr>
        | (False, table) \<Rightarrow> w1\<lparr>fw_table := table, fw_failed := fw_failed w1 @ fw_buf w1, fw_buf := []\<rparr>)"

definition takeFeed :: "send_outcome \<Rightarrow> 'e \<Rightarrow> 'e feedWriter \<Rightarrow> 'e feedWriter" where
  "takeFeed oc evt w =
     (let w1 = w\<lparr>fw_buf := fw_buf w @ [evt]\<rparr> in
      if length (fw_buf w1) \<ge> feedBatchMax then feedFlush oc w1 else w1)"

text \<open>The steps: an \<open>offer\<close>, \<open>stop\<close>, and the cases of the run loop; after \<open>stopCh\<close> closes the
  drain loop takes events until the queue is empty, flushes once more and exits.\<close>

inductive fstep :: "'e feedWriter \<Rightarrow> 'e feedWriter \<Rightarrow> bool" where
  f_offer: "fstep w (offer evt w)"
| f_stop: "fstep w (w\<lparr>fw_stopCh := True\<rparr>)"
| f_take: "\<not> fw_done w \<Longrightarrow> fw_in w = evt # rest \<Longrightarrow> fstep w (takeFeed oc evt (w\<lparr>fw_in := rest\<rparr>))"
| f_tick: "\<not> fw_done w \<Longrightarrow> \<not> fw_draining w \<Longrightarrow> fstep w (feedFlush oc w)"
| f_drain: "\<not> fw_done w \<Longrightarrow> fw_stopCh w \<Longrightarrow> fstep w (w\<lparr>fw_draining := True\<rparr>)"
| f_exit: "\<not> fw_done w \<Longrightarrow> fw_draining w \<Longrightarrow> fw_in w = [] \<Longrightarrow> fstep w ((feedFlush oc w)\<lparr>fw_done := True\<rparr>)"

inductive freachable :: "'e feedWriter \<Rightarrow> bool" where
  f_init: "freachable newFeedWriter"
| f_step: "freachable w \<Longrightarrow> fstep w w' \<Longrightarrow> freachable w'"

definition finv :: "'e feedWriter \<Rightarrow> bool" where
  "finv w \<longleftrightarrow>
     mset (fw_offered w) = mset (fw_acked w @ fw_buf w @ fw_in w) + mset (fw_dropped w) + mset (fw_failed w) \<and>
     mset (fw_acked w) \<subseteq># mset (fw_table w) \<and> mset (fw_table w) \<subseteq># mset (fw_acked w) + mset (fw_failed w) \<and>
     length (fw_in w) \<le> feedQueueCap \<and> length (fw_buf w) < feedBatchMax \<and> fw_drops w \<le> length (fw_dropped w) \<and>
     (fw_done w \<longrightarrow> fw_buf w = [])"

section \<open>Lemmas\<close>

lemma feedInsert_cases:
  obtains (ok) "feedInsert oc evs tbl = (True, tbl @ evs)"
  | (fail) stored where "feedInsert oc evs tbl = (False, tbl @ (if stored then evs else []))"
proof (cases oc)
  case (SendFails e st)
  then show ?thesis using fail[of st] by simp
next
  case (PrepareFails e)
  then show ?thesis using fail[of False] by simp
next
  case (AppendFails e)
  then show ?thesis using fail[of False] by simp
next
  case SendOK
  then show ?thesis using ok by simp
qed

lemma feedFlush_finv:
  assumes "finv w \<or> (finv (w\<lparr>fw_buf := butlast (fw_buf w), fw_in := last (fw_buf w) # fw_in w\<rparr>) \<and> fw_buf w \<noteq> [])"
  shows "finv (feedFlush oc w)"
proof (cases "fw_buf w = []")
  case False
  have buf: "mset (butlast (fw_buf w)) + {#last (fw_buf w)#} = mset (fw_buf w)"
    using False by (metis add.commute append_butlast_last_id mset.simps(1,2) mset_append add_mset_add_single)
  have acc: "mset (fw_offered w) = mset (fw_acked w @ fw_buf w @ fw_in w) + mset (fw_dropped w) + mset (fw_failed w)"
    "length (fw_in w) \<le> feedQueueCap" "mset (fw_acked w) \<subseteq># mset (fw_table w)"
    "mset (fw_table w) \<subseteq># mset (fw_acked w) + mset (fw_failed w)"
    using assms buf by (auto simp: finv_def ac_simps)
  show ?thesis
  proof (cases rule: feedInsert_cases[of oc "fw_buf w" "fw_table w"])
    case ok
    with acc False show ?thesis
      by (simp add: feedFlush_def finv_def Let_def feedBatchMax_def ac_simps)
  next
    case (fail stored)
    have "mset (fw_table w) + mset (fw_buf w) \<subseteq># mset (fw_acked w) + mset (fw_failed w) + mset (fw_buf w)"
      "mset (fw_table w) \<subseteq># mset (fw_acked w) + mset (fw_failed w) + mset (fw_buf w)"
      using acc(4) by (simp_all add: subset_mset.add_increasing2)
    moreover have "mset (fw_acked w) \<subseteq># mset (fw_table w) + mset (fw_buf w)"
      using acc(3) by (simp add: subset_mset.add_increasing2)
    ultimately show ?thesis using acc False fail
      by (cases stored) (simp_all add: feedFlush_def finv_def Let_def feedBatchMax_def ac_simps)
  qed
qed (use assms in \<open>simp add: feedFlush_def\<close>)

lemma takeFeed_finv:
  assumes "finv w" "fw_in w = evt # rest" "\<not> fw_done w"
  shows "finv (takeFeed oc evt (w\<lparr>fw_in := rest\<rparr>))"
proof -
  let ?w = "w\<lparr>fw_in := rest, fw_buf := fw_buf w @ [evt]\<rparr>"
  have "finv (?w\<lparr>fw_buf := butlast (fw_buf ?w), fw_in := last (fw_buf ?w) # fw_in ?w\<rparr>)"
    using assms by (simp add: finv_def)
  then have "finv (feedFlush oc ?w)" by (intro feedFlush_finv disjI2) simp
  moreover have "finv ?w" if "length (fw_buf ?w) < feedBatchMax"
    using assms that by (simp add: finv_def)
  ultimately show ?thesis by (auto simp: takeFeed_def Let_def not_le)
qed

lemma feedFlush_empties [simp]: "fw_buf (feedFlush oc w) = []" "fw_in (feedFlush oc w) = fw_in w"
  by (auto simp: feedFlush_def Let_def split: prod.splits bool.splits)

lemma offer_finv: "finv w \<Longrightarrow> finv (offer evt w)"
  by (auto simp: finv_def offer_def Let_def)

lemma fstep_finv: "fstep w w' \<Longrightarrow> finv w \<Longrightarrow> finv w'"
proof (induction rule: fstep.induct)
  case (f_exit w oc)
  then have "finv (feedFlush oc w)" by (intro feedFlush_finv disjI1)
  then show ?case by (simp add: finv_def)
next
  case (f_tick w oc)
  then show ?case by (intro feedFlush_finv disjI1)
next
  case (f_stop w)
  then show ?case by (simp add: finv_def)
next
  case (f_drain w)
  then show ?case by (simp add: finv_def)
qed (simp_all add: offer_finv takeFeed_finv)

lemma freachable_finv: "freachable w \<Longrightarrow> finv w"
proof (induction rule: freachable.induct)
  case f_init
  show ?case by (simp add: finv_def newFeedWriter_def feedBatchMax_def)
qed (auto intro: fstep_finv)

section \<open>Properties\<close>

definition demo_feed :: "nat feedWriter" where
  "demo_feed = takeFeed SendOK 4 ((offer 4 newFeedWriter)\<lparr>fw_in := []\<rparr>)"

lemma demo_feed_reachable: "freachable demo_feed"
proof -
  let ?w = "offer (4 :: nat) newFeedWriter"
  have "freachable ?w" by (rule freachable.f_step[OF freachable.f_init fstep.f_offer])
  moreover have "fstep ?w (takeFeed SendOK 4 (?w\<lparr>fw_in := []\<rparr>))"
    by (rule fstep.f_take) (simp_all add: offer_def newFeedWriter_def feedQueueCap_def)
  ultimately show ?thesis unfolding demo_feed_def by (rule freachable.f_step)
qed

text \<open>The feed mirror is best effort but exact in its accounting: at any time every offered
  event is acknowledged, buffered, queued, dropped at a full queue or lost with a failed insert;
  the table holds every acknowledged event and nothing that was not offered; and its memory is
  bounded.\<close>

theorem feed_accounts_for_all:
  assumes "freachable w"
  shows "mset (fw_offered w) = mset (fw_acked w @ fw_buf w @ fw_in w) + mset (fw_dropped w) + mset (fw_failed w) \<and>
    mset (fw_acked w) \<subseteq># mset (fw_table w) \<and> mset (fw_table w) \<subseteq># mset (fw_offered w) \<and>
    length (fw_in w) \<le> feedQueueCap \<and> length (fw_buf w) < feedBatchMax \<and> (fw_done w \<longrightarrow> fw_buf w = [])"
proof -
  have inv: "finv w" by (rule freachable_finv[OF assms])
  have "mset (fw_table w) \<subseteq># mset (fw_acked w) + mset (fw_failed w)" using inv by (simp add: finv_def)
  also have "\<dots> \<subseteq># mset (fw_offered w)"
  proof -
    have "mset (fw_offered w) = (mset (fw_acked w) + mset (fw_failed w)) +
        (mset (fw_buf w) + mset (fw_in w) + mset (fw_dropped w))"
      using inv by (simp add: finv_def ac_simps)
    then show ?thesis by (metis mset_subset_eq_add_left)
  qed
  finally show ?thesis using inv by (simp add: finv_def)
qed

theorem feed_accounts_for_all_witness:
  "freachable demo_feed \<and> fw_offered demo_feed = [4] \<and> fw_buf demo_feed = [4] \<and>
   mset (fw_table demo_feed) \<subseteq># mset (fw_offered demo_feed)"
proof -
  have "fw_offered demo_feed = [4]" "fw_buf demo_feed = [4]"
    by (simp_all add: demo_feed_def takeFeed_def offer_def newFeedWriter_def feedQueueCap_def feedBatchMax_def)
  then show ?thesis using feed_accounts_for_all[OF demo_feed_reachable] demo_feed_reachable by blast
qed

end
