(* ===== verification/Store.thy ===== *)
theory Store
  imports Store_Read Batcher Tombstone Feed_Writer
begin

text \<open>
  The store (\<open>internal/store/store.go\<close>): the batcher of every tier, the tombstone writer and
  the feed writer, and the calls that use them: \<open>SaveEvent\<close>, \<open>DeleteEvent\<close>, \<open>retireIDs\<close>,
  \<open>FlushAll\<close>, \<open>ReplaceEvent\<close> with its probe, \<open>QueryEvents\<close>, \<open>backfillFeed\<close>, \<open>Close\<close> and
  the database-name check of \<open>ensureDatabase\<close>.

  A call that waits gives the other goroutines time to run. What they do at each waiting point
  is the field \<open>wd_others\<close> of the call's \<open>world\<close>: any function whose result is reachable by
  steps of the store's components (\<open>sstep\<close>). The world also says how the blocking parts of the
  call end: whether a wait for a flush reply is given up (timer or stop), the verdict of
  \<open>acquireRead\<close>, and the server's answers. ClickHouse's tables are the rows the batchers and the
  feed writer wrote; a connection is given the current tables by being a function of the state.
\<close>

datatype store_error =
    KindOutOfScope
  | NoBatcher string
  | BatchErr batch_error
  | ProbeRefused read_error
  | ReplaceQuery read_error
  | FlushNewVersion batch_error
  | TombErr tomb_error

record store =
  s_tiers :: "string \<rightharpoonup> event batcher"
  s_tw :: tombstoneWriter
  s_fw :: "event feedWriter"

datatype wait_point = AtFlush string | AtProbe | AtFlushNew | AtRetire | AtClose string

record world =
  wd_others :: "wait_point \<Rightarrow> store \<Rightarrow> store"
  wd_giveUp :: "wait_point \<Rightarrow> bool"
  wd_chan :: "wait_point \<Rightarrow> nat"
  wd_admit :: "read_error option"
  wd_cancelled :: "string \<Rightarrow> bool"
  wd_conn :: "store \<Rightarrow> connection"

record replaceableRow =
  rr_id :: string
  rr_createdAt :: "32 word"

section \<open>Definitions\<close>

text \<open>\<open>Init\<close> on a database that already holds \<open>existing t\<close> in the table of tier \<open>t\<close> and \<open>feed\<close>
  in the feed table, up to its backfill.\<close>

definition Init :: "nat \<Rightarrow> (string \<Rightarrow> event list) \<Rightarrow> event list \<Rightarrow> store" where
  "Init maxSize existing feed =
     \<lparr>s_tiers = (\<lambda>t. if t \<in> set activeTiers then Some ((newBatcher maxSize)\<lparr>b_table := existing t\<rparr>) else None),
      s_tw = newTombstoneWriter, s_fw = newFeedWriter\<lparr>fw_table := feed\<rparr>\<rparr>"

definition setTier :: "string \<Rightarrow> event batcher \<Rightarrow> store \<Rightarrow> store" where
  "setTier t b s = s\<lparr>s_tiers := (s_tiers s)(t \<mapsto> b)\<rparr>"

subsection \<open>Steps of the components\<close>

text \<open>A batcher's step hands the events it stored to the feed writer, inside \<open>sendOne\<close>.\<close>

definition newOffers :: "event batcher \<Rightarrow> event batcher \<Rightarrow> event list" where
  "newOffers b b' = drop (length (b_offered b)) (b_offered b')"

inductive sstep :: "store \<Rightarrow> store \<Rightarrow> bool" where
  s_batcher: "s_tiers s t = Some b \<Longrightarrow> bstep b b' \<Longrightarrow>
     sstep s ((setTier t b' s)\<lparr>s_fw := fold offer (newOffers b b') (s_fw s)\<rparr>)"
| s_tombstone: "tstep (s_tw s) w \<Longrightarrow> sstep s (s\<lparr>s_tw := w\<rparr>)"
| s_feed: "fstep (s_fw s) w \<Longrightarrow> fw_offered w = fw_offered (s_fw s) \<Longrightarrow> sstep s (s\<lparr>s_fw := w\<rparr>)"

subsection \<open>The tables\<close>

definition storeTables :: "store \<Rightarrow> tables" where
  "storeTables s tbl =
     (if tbl = ''events_feed'' then map rowFromEvent (fw_table (s_fw s))
      else if take 7 tbl = ''events_''
      then (case s_tiers s (drop 7 tbl) of Some b \<Rightarrow> map rowFromEvent (b_table b) | None \<Rightarrow> [])
      else [])"

subsection \<open>Writes\<close>

definition SaveEvent :: "override \<Rightarrow> event \<Rightarrow> store \<Rightarrow> store_error option \<times> store" where
  "SaveEvent ov evt s =
     (let tier = tierForEvent evt ov in
      if tier = TierDrop then (Some KindOutOfScope, s)
      else case s_tiers s tier of
        None \<Rightarrow> (Some (NoBatcher tier), s)
      | Some b \<Rightarrow> (case enqueue evt b of (err, b') \<Rightarrow> (map_option BatchErr err, setTier tier b' s)))"

definition retireIDs :: "string list \<Rightarrow> string \<Rightarrow> string \<Rightarrow> store \<Rightarrow> store_error option \<times> store" where
  "retireIDs ids reason deletedBy s =
     (if ids = [] then (None, s)
      else case retire ids reason deletedBy (s_tw s) of
        (err, w) \<Rightarrow> (map_option TombErr err, s\<lparr>s_tw := w\<rparr>))"

definition DeleteEvent :: "event \<Rightarrow> store \<Rightarrow> store_error option \<times> store" where
  "DeleteEvent evt s = retireIDs [ev_id evt] ''nip09'' (ev_pubkey evt) s"

text \<open>\<open>FlushAll\<close> of one batcher: the request, the wait, the reply.\<close>

definition flushTier :: "world \<Rightarrow> wait_point \<Rightarrow> string \<Rightarrow> store \<Rightarrow> batch_error option \<times> store" where
  "flushTier w p t s =
     (case s_tiers s t of
        None \<Rightarrow> (None, s)
      | Some b \<Rightarrow>
          (case flushRequest (wd_chan w p) b of
             (Some e, b1) \<Rightarrow> (Some e, setTier t b1 s)
           | (None, b1) \<Rightarrow>
               (let s2 = wd_others w p (setTier t b1 s);
                    reply = \<lparr>r_ident = wd_chan w p, r_snapshot = length (b_accepted b)\<rparr> in
                case s_tiers s2 t of
                  None \<Rightarrow> (Some ErrBatcherStopped, s2)
                | Some b2 \<Rightarrow>
                    (case map_of (b_answers b2) reply of
                       Some err \<Rightarrow>
                         (if wd_giveUp w p then (Some (if b_stop b2 then ErrBatcherStopped else ErrRequestTimeout), s2)
                          else (err, s2))
                     | None \<Rightarrow> (Some (if b_stop b2 then ErrBatcherStopped else ErrRequestTimeout), s2)))))"

text \<open>\<open>FlushAll\<close> of the store ranges over the tier map, in an order Go leaves open.\<close>

fun FlushAll :: "world \<Rightarrow> string list \<Rightarrow> store \<Rightarrow> batch_error option \<times> store" where
  "FlushAll w [] s = (None, s)"
| "FlushAll w (t # ts) s =
     (case flushTier w (AtFlush t) t s of (err, s1) \<Rightarrow>
        case FlushAll w ts s1 of (rest, s2) \<Rightarrow> (if err \<noteq> None then err else rest, s2))"

subsection \<open>Replaceable events\<close>

definition probeQuery :: "event \<Rightarrow> string \<Rightarrow> select_stmt" where
  "probeQuery evt t =
     \<lparr>sel_table = ''events_'' @ t,
      sel_where = [PubkeyIn [ev_pubkey evt], KindIn [uint (word_of_int (ev_kind evt) :: 32 word)], NotTombstoned],
      sel_order = CreatedDescIdAsc, sel_collapse = False, sel_limit = 50\<rparr>"

definition probeFilter :: "event \<Rightarrow> nostr_filter" where
  "probeFilter evt = match_all\<lparr>f_authors := [ev_pubkey evt], f_kinds := [ev_kind evt]\<rparr>"

fun probeLoop :: "(string \<Rightarrow> bool) \<Rightarrow> connection \<Rightarrow> event \<Rightarrow> string list \<Rightarrow> read_error + replaceableRow list" where
  "probeLoop cancelled conn evt [] = Inr []"
| "probeLoop cancelled conn evt (t # ts) =
     (if cancelled t then Inl CtxErr
      else case conn (probeQuery evt t) of
        Inl e \<Rightarrow> Inl (QueryErr (''events_'' @ t) e)
      | Inr rows \<Rightarrow>
          map_sum id (\<lambda>out. map (\<lambda>r. \<lparr>rr_id = r_id r, rr_createdAt = r_created_at r\<rparr>) rows @ out)
            (probeLoop cancelled conn evt ts))"

definition probeReplaceable :: "(string \<Rightarrow> bool) \<Rightarrow> connection \<Rightarrow> override \<Rightarrow> event \<Rightarrow>
    read_error + replaceableRow list" where
  "probeReplaceable cancelled conn ov evt =
     probeLoop cancelled conn evt (tiersForFilter (probeFilter evt) ov)"

definition prevOlder :: "event \<Rightarrow> replaceableRow \<Rightarrow> bool" where
  "prevOlder evt p \<longleftrightarrow>
     uint (rr_createdAt p) < ev_created_at evt \<or>
     (uint (rr_createdAt p) = ev_created_at evt \<and> rr_id p > ev_id evt)"

fun decide :: "event \<Rightarrow> replaceableRow list \<Rightarrow> bool \<Rightarrow> string list \<Rightarrow> bool \<times> string list" where
  "decide evt [] shouldStore retired = (shouldStore, retired)"
| "decide evt (p # ps) shouldStore retired =
     (if prevOlder evt p then decide evt ps shouldStore (retired @ [rr_id p])
      else decide evt ps False retired)"

text \<open>Storing the new version: enqueue it and wait until its tier has flushed it.\<close>

definition storeNew :: "world \<Rightarrow> override \<Rightarrow> event \<Rightarrow> store \<Rightarrow> store_error option \<times> store" where
  "storeNew w ov evt s =
     (case SaveEvent ov evt s of
        (Some e, s1) \<Rightarrow> (Some e, s1)
      | (None, s1) \<Rightarrow>
          (case s_tiers s1 (tierForEvent evt ov) of
             None \<Rightarrow> (Some (NoBatcher (tierForEvent evt ov)), s1)
           | Some b \<Rightarrow>
               (case flushTier w AtFlushNew (tierForEvent evt ov) s1 of
                  (Some e, s2) \<Rightarrow> (Some (FlushNewVersion e), s2)
                | (None, s2) \<Rightarrow> (None, s2))))"

text \<open>\<open>ReplaceEvent\<close> of a replaceable kind up to the point where it retires: an error, or the
  ids to retire with the state they are retired in.\<close>

definition replaceUpTo :: "world \<Rightarrow> string list \<Rightarrow> override \<Rightarrow> event \<Rightarrow> store \<Rightarrow>
    (store_error \<times> store) + (replaceableRow list \<times> string list \<times> store)" where
  "replaceUpTo w order ov evt s =
     (let s1 = snd (FlushAll w order s) in
      case wd_admit w of
        Some e \<Rightarrow> Inl (ProbeRefused e, s1)
      | None \<Rightarrow>
          (case probeReplaceable (wd_cancelled w) (wd_conn w s1) ov evt of
             Inl e \<Rightarrow> Inl (ReplaceQuery e, s1)
           | Inr prev \<Rightarrow>
               (let s2 = wd_others w AtProbe s1; (shouldStore, ids) = decide evt prev True [] in
                case (if shouldStore then storeNew w ov evt s2 else (None, s2)) of
                  (Some e, s3) \<Rightarrow> Inl (e, s3)
                | (None, s3) \<Rightarrow> Inr (prev, ids, wd_others w AtRetire s3))))"

definition ReplaceEvent :: "world \<Rightarrow> string list \<Rightarrow> override \<Rightarrow> event \<Rightarrow> store \<Rightarrow> store_error option \<times> store" where
  "ReplaceEvent w order ov evt s =
     (if \<not> isReplaceableKind (ev_kind evt) then SaveEvent ov evt s
      else case replaceUpTo w order ov evt s of
        Inl (e, s1) \<Rightarrow> (Some e, s1)
      | Inr (_, ids, s1) \<Rightarrow>
          (if ids \<noteq> [] then (None, snd (retireIDs ids ''replaced'' (ev_pubkey evt) s1)) else (None, s1)))"

subsection \<open>Reads, backfill and shutdown\<close>

definition QueryEvents :: "world \<Rightarrow> string list \<Rightarrow> bool \<Rightarrow> instant \<Rightarrow> override \<Rightarrow> nostr_filter \<Rightarrow> store \<Rightarrow>
    (read_error + event list) \<times> store" where
  "QueryEvents w order internal now ov f s =
     (let s1 = (if internal then snd (FlushAll w order s) else s) in
      case (if internal then None else wd_admit w) of
        Some e \<Rightarrow> (Inl e, s1)
      | None \<Rightarrow> (collectEvents True now (wd_cancelled w) (wd_conn w s1) ov f, s1))"

text \<open>\<open>backfillFeed\<close>: copy the retention window of the tiers into an empty feed. The copy is one
  \<open>INSERT ... SELECT\<close> over the view of all tiers.\<close>

definition backfillFeed :: "send_outcome \<Rightarrow> string option \<Rightarrow> int \<Rightarrow> store \<Rightarrow> string option \<times> store" where
  "backfillFeed oc countErr nowSec s =
     (case countErr of
        Some e \<Rightarrow> (Some e, s)
      | None \<Rightarrow>
          if length (fw_table (s_fw s)) > 0 then (None, s)
          else
            let tierEvents = concat (map (\<lambda>t. case s_tiers s t of Some b \<Rightarrow> b_table b | None \<Rightarrow> []) activeTiers);
                window = filter (\<lambda>e. uint (r_created_at (rowFromEvent e)) \<ge> nowSec - feedRetention div second) tierEvents in
            (case feedInsert oc window (fw_table (s_fw s)) of
               (ok, table) \<Rightarrow>
                 (if ok then None else Some ''insert'', s\<lparr>s_fw := (s_fw s)\<lparr>fw_table := table\<rparr>\<rparr>)))"

fun closeTiers :: "world \<Rightarrow> string list \<Rightarrow> store \<Rightarrow> store" where
  "closeTiers w [] s = s"
| "closeTiers w (t # ts) s =
     (case s_tiers s t of
        None \<Rightarrow> closeTiers w ts s
      | Some b \<Rightarrow> closeTiers w ts (wd_others w (AtClose t) (setTier t (shutdown b) s)))"

definition Close :: "world \<Rightarrow> string list \<Rightarrow> store \<Rightarrow> store" where
  "Close w order s =
     (let s1 = closeTiers w order s;
          s2 = wd_others w (AtClose ''tombstone'') (s1\<lparr>s_tw := (s_tw s1)\<lparr>t_stopCh := True\<rparr>\<rparr>) in
      wd_others w (AtClose ''feed'') (s2\<lparr>s_fw := (s_fw s2)\<lparr>fw_stopCh := True\<rparr>\<rparr>))"

subsection \<open>The database name\<close>

definition letter :: "char \<Rightarrow> bool" where
  "letter c \<longleftrightarrow> between 65 90 c \<or> between 97 122 c \<or> c = CHR ''_''"

definition identifierRe :: "string \<Rightarrow> bool" where
  "identifierRe s \<longleftrightarrow> (case s of [] \<Rightarrow> False | c # cs \<Rightarrow> letter c \<and> list_all (\<lambda>x. letter x \<or> between 48 57 x) cs)"

text \<open>\<open>ensureDatabase\<close>: its error, and the statement it sends to the server. \<open>openErr\<close> and \<open>execErr\<close>
  say how the bootstrap connection and the statement end.\<close>

definition createDatabase :: "string \<Rightarrow> string" where
  "createDatabase db = ''CREATE DATABASE IF NOT EXISTS `'' @ db @ ''` ENGINE = Atomic''"

definition ensureDatabase :: "string option \<Rightarrow> string option \<Rightarrow> string \<Rightarrow> string option \<times> string list" where
  "ensureDatabase openErr execErr db =
     (if db = [] \<or> db = ''default'' then (None, [])
      else if \<not> identifierRe db then (Some (''clickhouse.database '' @ db @ '' is not a valid identifier''), [])
      else case openErr of
        Some e \<Rightarrow> (Some (''clickhouse open (bootstrap): '' @ e), [])
      | None \<Rightarrow>
          (map_option (\<lambda>e. ''create database '' @ db @ '': '' @ e) execErr, [createDatabase db]))"

section \<open>Runs of the store\<close>

definition stored :: "store \<Rightarrow> event set" where
  "stored s = (\<Union>b \<in> ran (s_tiers s). set (b_table b))"

definition feedEvents :: "'e feedWriter \<Rightarrow> 'e set" where
  "feedEvents w = set (fw_in w) \<union> set (fw_buf w) \<union> set (fw_table w)"

text \<open>The store's invariant: every tier has a sound batcher, and the feed mirrors stored events
  only.\<close>

definition sinv :: "store \<Rightarrow> bool" where
  "sinv s \<longleftrightarrow> dom (s_tiers s) = set activeTiers \<and> (\<forall>b \<in> ran (s_tiers s). bvalid b) \<and>
     feedEvents (s_fw s) \<subseteq> stored s"

definition legal :: "world \<Rightarrow> bool" where
  "legal w \<longleftrightarrow> (\<forall>p s. sstep\<^sup>*\<^sup>* s (wd_others w p s))"

lemma setTier_simps [simp]:
  "s_tiers (setTier t b s) = (s_tiers s)(t \<mapsto> b)" "s_tw (setTier t b s) = s_tw s" "s_fw (setTier t b s) = s_fw s"
  by (simp_all add: setTier_def)

lemma fold_offer_events: "feedEvents (fold offer es w) \<subseteq> set es \<union> feedEvents w"
proof (induction es arbitrary: w)
  case (Cons e es)
  have "feedEvents (offer e w) \<subseteq> insert e (feedEvents w)" by (auto simp: feedEvents_def offer_def Let_def)
  then show ?case using Cons.IH[of "offer e w"] by auto
qed simp

lemma feedFlush_events: "feedEvents (feedFlush oc w) \<subseteq> feedEvents w"
  by (cases oc) (auto simp: feedEvents_def feedFlush_def Let_def split: if_splits)

lemma takeFeed_events: "fw_in w = evt # rest \<Longrightarrow> feedEvents (takeFeed oc evt (w\<lparr>fw_in := rest\<rparr>)) \<subseteq> feedEvents w"
  using feedFlush_events[of oc "w\<lparr>fw_in := rest, fw_buf := fw_buf w @ [evt]\<rparr>"]
  by (auto simp: takeFeed_def Let_def feedEvents_def)

lemma fstep_events:
  assumes "fstep w w'" "fw_offered w' = fw_offered w"
  shows "feedEvents w' \<subseteq> feedEvents w"
  using assms
proof (induction rule: fstep.induct)
  case (f_offer w evt)
  then show ?case by (simp add: offer_def Let_def split: if_splits)
next
  case (f_take w evt rest oc)
  from takeFeed_events[OF f_take(2)] show ?case .
next
  case (f_tick w oc)
  show ?case by (rule feedFlush_events)
next
  case (f_exit w oc)
  show ?case using feedFlush_events[of oc w] by (simp add: feedEvents_def)
qed (simp_all add: feedEvents_def)

lemma tier_step:
  assumes "sstep s s'" "s_tiers s t = Some b"
  shows "\<exists>b'. s_tiers s' t = Some b' \<and> bstep\<^sup>*\<^sup>* b b'"
  using assms by (induction rule: sstep.induct) auto

lemma tier_run:
  assumes "sstep\<^sup>*\<^sup>* s s'" "s_tiers s t = Some b"
  shows "\<exists>b'. s_tiers s' t = Some b' \<and> bstep\<^sup>*\<^sup>* b b'"
  using assms
proof (induction rule: rtranclp_induct)
  case (step y z)
  then obtain b1 where "s_tiers y t = Some b1" "bstep\<^sup>*\<^sup>* b b1" by blast
  with tier_step[OF step.hyps(2), of t b1] show ?case by (meson rtranclp_trans)
qed auto

lemma bstep_table: "bstep b b' \<Longrightarrow> set (b_table b) \<subseteq> set (b_table b')"
  using table_steps.kept_bstep[of b b' "set (b_table b)"] by simp

lemma bstep_newOffers: "bvalid b \<Longrightarrow> bstep b b' \<Longrightarrow> set (newOffers b b') \<subseteq> set (b_table b')"
proof -
  assume "bvalid b" "bstep b b'"
  then have "bvalid b'" by (rule bstep_valid)
  then have "set (b_offered b') \<subseteq> set (b_table b')"
    using bvalid_stored[of b'] by (simp add: bvalid_def durable_def)
  then show ?thesis using set_drop_subset[of "length (b_offered b)" "b_offered b'"]
    by (auto simp: newOffers_def)
qed

lemma stored_iff: "x \<in> stored s \<longleftrightarrow> (\<exists>t b. s_tiers s t = Some b \<and> x \<in> set (b_table b))"
  by (auto simp: stored_def ran_def)

lemma stored_setTier:
  assumes "s_tiers s t = Some b" "set (b_table b) \<subseteq> set (b_table b')"
  shows "stored s \<union> set (b_table b') \<subseteq> stored (setTier t b' s)"
proof
  fix x
  assume "x \<in> stored s \<union> set (b_table b')"
  then consider "x \<in> set (b_table b')" | u c where "s_tiers s u = Some c" "x \<in> set (b_table c)" "u \<noteq> t"
    using assms unfolding Un_iff stored_iff by (metis option.inject subsetD)
  then show "x \<in> stored (setTier t b' s)"
    by cases (auto simp: stored_iff)
qed

lemma sstep_sinv: "sstep s s' \<Longrightarrow> sinv s \<Longrightarrow> sinv s'"
proof (induction rule: sstep.induct)
  case (s_batcher s t b b')
  let ?s = "(setTier t b' s)\<lparr>s_fw := fold offer (newOffers b b') (s_fw s)\<rparr>"
  have b: "bvalid b" using s_batcher by (auto simp: sinv_def ran_def)
  have "stored ?s = stored (setTier t b' s)" by (simp add: stored_def)
  moreover have "feedEvents (s_fw ?s) \<subseteq> set (newOffers b b') \<union> feedEvents (s_fw s)"
    by (simp add: fold_offer_events)
  moreover have "stored s \<union> set (b_table b') \<subseteq> stored (setTier t b' s)"
    by (rule stored_setTier[OF s_batcher(1) bstep_table[OF s_batcher(2)]])
  moreover have "feedEvents (s_fw s) \<subseteq> stored s" using s_batcher.prems by (simp add: sinv_def)
  ultimately have "feedEvents (s_fw ?s) \<subseteq> stored ?s" using bstep_newOffers[OF b s_batcher(2)] by blast
  moreover have "\<forall>c \<in> ran (s_tiers ?s). bvalid c"
    using s_batcher.prems bstep_valid[OF b s_batcher(2)] by (auto simp: sinv_def ran_def)
  moreover have "dom (s_tiers ?s) = set activeTiers" using s_batcher by (auto simp: sinv_def)
  ultimately show ?case unfolding sinv_def by blast
next
  case (s_tombstone s w)
  then show ?case by (simp add: sinv_def stored_def)
next
  case (s_feed s w)
  then show ?case using fstep_events[of "s_fw s" w] by (auto simp: sinv_def stored_def)
qed

lemma srun_sinv: "sstep\<^sup>*\<^sup>* s s' \<Longrightarrow> sinv s \<Longrightarrow> sinv s'"
  by (induction rule: rtranclp_induct) (auto intro: sstep_sinv)

lemma Init_sinv:
  assumes "0 < maxSize" "set feed \<subseteq> (\<Union>t \<in> set activeTiers. set (existing t))"
  shows "sinv (Init maxSize existing feed)"
proof -
  have "bvalid ((newBatcher maxSize)\<lparr>b_table := T\<rparr>)" for T :: "event list"
    using assms(1) newBatcher_inv[of maxSize]
    by (simp add: bvalid_def durable_def newBatcher_def Let_def binv_def fifo_def waiting_def covered_def)
  moreover have "stored (Init maxSize existing feed) = (\<Union>t \<in> set activeTiers. set (existing t))"
    by (auto simp: stored_def Init_def ran_def)
  moreover have "feedEvents (s_fw (Init maxSize existing feed)) = set feed"
    by (simp add: feedEvents_def Init_def newFeedWriter_def)
  moreover have "dom (s_tiers (Init maxSize existing feed)) = set activeTiers"
    by (auto simp: Init_def split: if_splits)
  ultimately show ?thesis using assms(2) by (auto simp: sinv_def Init_def ran_def split: if_splits)
qed

section \<open>Calls\<close>

lemma quiet_step:
  assumes "s_tiers s t = Some b" "bstep b b'" "b_offered b' = b_offered b"
  shows "sstep s (setTier t b' s)"
proof -
  have "(setTier t b' s)\<lparr>s_fw := fold offer (newOffers b b') (s_fw s)\<rparr> = setTier t b' s"
    using assms(3) by (simp add: newOffers_def setTier_def)
  with sstep.s_batcher[OF assms(1,2)] show ?thesis by simp
qed

lemma SaveEvent_run:
  assumes "SaveEvent ov evt s = (err, s')"
  shows "sstep\<^sup>*\<^sup>* s s'"
  using assms quiet_step[OF _ bstep.b_enqueue, of s "tierForEvent evt ov" _ evt]
  by (force simp: SaveEvent_def Let_def enqueue_def split: if_splits option.splits prod.splits)

lemma SaveEvent_nil:
  assumes "SaveEvent ov evt s = (None, s')"
  shows "\<exists>b. s_tiers s' (tierForEvent evt ov) = Some b \<and> evt \<in> set (b_accepted b)"
  using assms by (auto simp: SaveEvent_def Let_def enqueue_def split: if_splits option.splits)

lemma flushTier_run:
  assumes "legal w" "flushTier w p t s = (err, s')"
  shows "sstep\<^sup>*\<^sup>* s s'"
proof (cases "s_tiers s t")
  case (Some b)
  let ?b = "snd (flushRequest (wd_chan w p) b)"
  have "sstep s (setTier t ?b s)"
    by (rule quiet_step[OF Some bstep.b_request]) (simp add: flushRequest_def)
  then have "sstep\<^sup>*\<^sup>* s (setTier t ?b s)" "sstep\<^sup>*\<^sup>* s (wd_others w p (setTier t ?b s))"
    using assms(1) by (auto simp: legal_def intro: converse_rtranclp_into_rtranclp)
  then show ?thesis using assms(2) Some
    by (auto simp: flushTier_def Let_def split: prod.splits option.splits if_splits)
qed (use assms in \<open>simp add: flushTier_def\<close>)

text \<open>A flush that returns nil has stored everything its tier had accepted.\<close>

lemma flushTier_nil:
  assumes "legal w" "sinv s" "s_tiers s t = Some b" "flushTier w p t s = (None, s')"
  shows "\<exists>b'. s_tiers s' t = Some b' \<and> set (b_accepted b) \<subseteq> set (b_acked b')"
proof -
  let ?b = "snd (flushRequest (wd_chan w p) b)" and ?r = "\<lparr>r_ident = wd_chan w p, r_snapshot = length (b_accepted b)\<rparr>"
  obtain b' where b': "s_tiers s' t = Some b'" "s' = wd_others w p (setTier t ?b s)"
    "map_of (b_answers b') ?r = Some None"
    using assms(3,4) by (auto simp: flushTier_def Let_def split: prod.splits option.splits if_splits)
  have step: "bstep b ?b" by (rule bstep.b_request)
  have "sstep\<^sup>*\<^sup>* (setTier t ?b s) s'" using assms(1) b'(2) by (simp add: legal_def)
  from tier_run[OF this, of t ?b] b'(1) have "bstep\<^sup>*\<^sup>* ?b b'" by simp
  then have run: "bstep\<^sup>*\<^sup>* b b'" using step by (meson converse_rtranclp_into_rtranclp)
  have "answeredNil b' (length (b_accepted b))"
    using map_of_SomeD[OF b'(3)] by (force simp: answeredNil_def list_ex_iff)
  moreover have "bvalid b" using assms(2,3) by (auto simp: sinv_def ran_def)
  ultimately have "set (b_accepted b) \<subseteq> set (b_acked b')" using tier_log.flush_covers run by blast
  then show ?thesis using b'(1) by blast
qed

lemma FlushAll_run:
  assumes "legal w" "FlushAll w ts s = (err, s')"
  shows "sstep\<^sup>*\<^sup>* s s'"
  using assms(2)
proof (induction ts arbitrary: s err)
  case (Cons t ts)
  then obtain e1 s1 e2 where "flushTier w (AtFlush t) t s = (e1, s1)" "FlushAll w ts s1 = (e2, s')"
    by (auto split: prod.splits)
  with Cons.IH[of s1 e2] flushTier_run[OF assms(1)] show ?case by (meson rtranclp_trans)
qed simp

lemma acked_persist:
  assumes "sstep\<^sup>*\<^sup>* s s'" "sinv s" "s_tiers s t = Some b"
  shows "\<exists>b'. s_tiers s' t = Some b' \<and> set (b_accepted b) \<subseteq> set (b_accepted b') \<and>
    set (b_acked b) \<subseteq> set (b_acked b') \<and> set (b_acked b') \<subseteq> set (b_table b')"
proof -
  obtain b' where b': "s_tiers s' t = Some b'" "bstep\<^sup>*\<^sup>* b b'" using tier_run[OF assms(1,3)] by blast
  have "bvalid b" using assms(2,3) by (auto simp: sinv_def ran_def)
  from tier_log.run_grows[OF b'(2) this] show ?thesis
    using b'(1) bvalid_stored[of b'] set_mono_prefix by blast
qed

lemma FlushAll_nil:
  assumes "legal w" "sinv s" "FlushAll w ts s = (None, s')" "t \<in> set ts" "s_tiers s t = Some b"
  shows "\<exists>b'. s_tiers s' t = Some b' \<and> set (b_accepted b) \<subseteq> set (b_table b')"
  using assms(2-5)
proof (induction ts arbitrary: s b)
  case (Cons u us)
  from Cons.prems(2) obtain s1 where u: "flushTier w (AtFlush u) u s = (None, s1)" "FlushAll w us s1 = (None, s')"
    by (auto split: prod.splits if_splits)
  have s1: "sstep\<^sup>*\<^sup>* s s1" "sinv s1" using flushTier_run[OF assms(1) u(1)] srun_sinv Cons.prems(1) by auto
  show ?case
  proof (cases "t = u")
    case True
    with flushTier_nil[OF assms(1) Cons.prems(1,4), of "AtFlush u" s1] u(1)
    obtain b1 where b1: "s_tiers s1 t = Some b1" "set (b_accepted b) \<subseteq> set (b_acked b1)" by blast
    from acked_persist[OF FlushAll_run[OF assms(1) u(2)] s1(2) b1(1)] b1(2) show ?thesis by blast
  next
    case False
    obtain b1 where "s_tiers s1 t = Some b1" "set (b_accepted b) \<subseteq> set (b_accepted b1)"
      using acked_persist[OF s1(1) Cons.prems(1,4)] by blast
    then show ?thesis using Cons.IH[OF s1(2) u(2), of b1] Cons.prems(3) False by auto
  qed
qed simp

section \<open>Replacing\<close>

definition verKey :: "replaceableRow \<Rightarrow> int \<times> string" where
  "verKey p = (- uint (rr_createdAt p), rr_id p)"

lemma prevOlder_key: "prevOlder evt p \<longleftrightarrow> evKey evt < verKey p"
  by (auto simp: prevOlder_def evKey_def verKey_def less_prod_def)

lemma decide_spec:
  "decide evt ps store ids = (store \<and> list_all (prevOlder evt) ps, ids @ map rr_id (filter (prevOlder evt) ps))"
  by (induction evt ps store ids rule: decide.induct) auto

definition slim :: "row \<Rightarrow> replaceableRow" where
  "slim r = \<lparr>rr_id = r_id r, rr_createdAt = r_created_at r\<rparr>"

lemma verKey_slim [simp]: "verKey (slim r) = rowKey r" "rr_id (slim r) = r_id r"
  by (simp_all add: verKey_def slim_def rowKey_def)

lemma slim_fold [simp]: "(\<lambda>r. \<lparr>rr_id = r_id r, rr_createdAt = r_created_at r\<rparr>) = slim"
  by (simp add: slim_def fun_eq_iff)

definition version_of :: "event \<Rightarrow> row \<Rightarrow> bool" where
  "version_of evt r \<longleftrightarrow> r_pubkey r = ev_pubkey evt \<and> r_kind r = word_of_int (ev_kind evt)"

lemma probe_match: "sel_match dead (probeQuery evt t) r \<longleftrightarrow> version_of evt r \<and> \<not> dead (r_id r)"
  by (simp add: sel_match_def probeQuery_def version_of_def word_uint_eq_iff)

lemma probe_tiers:
  "tiersForFilter (probeFilter evt) ov = (if tierForEvent evt ov = TierDrop then [] else [tierForEvent evt ov])"
  by (simp add: tiersForFilter_def probeFilter_def tierForEvent_def Let_def match_all_def)

lemma probe_Inr:
  assumes "probeReplaceable cancelled conn ov evt = Inr prev" "tierForEvent evt ov \<noteq> TierDrop"
  shows "\<exists>rows. conn (probeQuery evt (tierForEvent evt ov)) = Inr rows \<and> prev = map slim rows"
  using assms by (auto simp: probeReplaceable_def probe_tiers split: if_splits sum.splits)

context clickhouse
begin

lemma probe_sound:
  assumes "probeReplaceable cancelled conn ov evt = Inr prev" "p \<in> set prev"
  shows "\<exists>r \<in> set (tables (''events_'' @ tierForEvent evt ov)). version_of evt r \<and> \<not> dead (r_id r) \<and> p = slim r"
proof -
  have "tierForEvent evt ov \<noteq> TierDrop" using assms by (auto simp: probeReplaceable_def probe_tiers split: if_splits)
  then obtain rows where rows: "conn (probeQuery evt (tierForEvent evt ov)) = Inr rows" "prev = map slim rows"
    using probe_Inr[OF assms(1)] by blast
  then obtain r where "r \<in> set rows" "p = slim r" using assms(2) by auto
  then show ?thesis using answer_member[OF rows(1), of r] unfolding probe_match by (auto simp: probeQuery_def)
qed

lemma probe_complete:
  assumes "probeReplaceable cancelled conn ov evt = Inr prev" "tierForEvent evt ov \<noteq> TierDrop"
    "r \<in> set (tables (''events_'' @ tierForEvent evt ov))" "version_of evt r" "\<not> dead (r_id r)"
    "length (filter (\<lambda>r. version_of evt r \<and> \<not> dead (r_id r)) (tables (''events_'' @ tierForEvent evt ov))) \<le> 50"
  shows "slim r \<in> set prev"
proof -
  obtain rows where rows: "conn (probeQuery evt (tierForEvent evt ov)) = Inr rows" "prev = map slim rows"
    using probe_Inr[OF assms(1,2)] by blast
  have q: "sel_table (probeQuery evt t) = ''events_'' @ t" "\<not> sel_collapse (probeQuery evt t)"
    "sel_limit (probeQuery evt t) = 50" for t by (simp_all add: probeQuery_def)
  have "sel_match dead (probeQuery evt t) = (\<lambda>r. version_of evt r \<and> \<not> dead (r_id r))" for t
    by (simp add: fun_eq_iff probe_match)
  then show ?thesis using answer_all[OF rows(1) q(2)] assms(3-6) by (auto simp: q rows(2))
qed

end

lemma storeTables_tier: "s_tiers s t = Some b \<Longrightarrow> t \<noteq> ''feed'' \<Longrightarrow> storeTables s (''events_'' @ t) = map rowFromEvent (b_table b)"
  by (simp add: storeTables_def)

lemma active_not_feed: "t \<in> set activeTiers \<Longrightarrow> t \<noteq> ''feed''"
  by (auto simp: activeTiers_def tier_defs)

lemma storeNew_nil:
  assumes "legal w" "sinv s" "storeNew w ov evt s = (None, s')"
  shows "sstep\<^sup>*\<^sup>* s s' \<and> (\<exists>b. s_tiers s' (tierForEvent evt ov) = Some b \<and> evt \<in> set (b_acked b))"
proof -
  from assms(3) obtain s1 where s1: "SaveEvent ov evt s = (None, s1)"
    "flushTier w AtFlushNew (tierForEvent evt ov) s1 = (None, s')"
    by (auto simp: storeNew_def split: prod.splits option.splits)
  obtain b where b: "s_tiers s1 (tierForEvent evt ov) = Some b" "evt \<in> set (b_accepted b)"
    using SaveEvent_nil[OF s1(1)] by blast
  have run: "sstep\<^sup>*\<^sup>* s s1" by (rule SaveEvent_run[OF s1(1)])
  from flushTier_nil[OF assms(1) srun_sinv[OF run assms(2)] b(1) s1(2)] b(2)
  show ?thesis using run flushTier_run[OF assms(1) s1(2)] by (auto intro: rtranclp_trans)
qed

lemma table_run:
  assumes "sstep\<^sup>*\<^sup>* s s'" "s_tiers s t = Some b"
  shows "\<exists>b'. s_tiers s' t = Some b' \<and> set (b_table b) \<subseteq> set (b_table b')"
proof -
  obtain b' where b': "s_tiers s' t = Some b'" "bstep\<^sup>*\<^sup>* b b'" using tier_run[OF assms] by blast
  have "set (b_table b) \<subseteq> set (b_table b')"
    using b'(2) by (induction rule: rtranclp_induct) (use bstep_table in blast)+
  then show ?thesis using b'(1) by blast
qed

lemma tables_run:
  assumes "sstep\<^sup>*\<^sup>* s s'" "sinv s" "t \<in> set activeTiers"
  shows "set (storeTables s (''events_'' @ t)) \<subseteq> set (storeTables s' (''events_'' @ t))"
proof -
  obtain b where b: "s_tiers s t = Some b" using assms(2,3) unfolding sinv_def by (metis domD)
  obtain b' where "s_tiers s' t = Some b'" "set (b_table b) \<subseteq> set (b_table b')" using table_run[OF assms(1) b] by blast
  then show ?thesis using storeTables_tier[OF b] storeTables_tier[of s' t b'] active_not_feed[OF assms(3)] by auto
qed

lemma replaceUpTo_Inr:
  assumes "replaceUpTo w order ov evt s = Inr (prev, ids, s')"
  obtains s1 s2 where "s1 = snd (FlushAll w order s)"
    "probeReplaceable (wd_cancelled w) (wd_conn w s1) ov evt = Inr prev"
    "ids = map rr_id (filter (prevOlder evt) prev)"
    "(list_all (prevOlder evt) prev \<and> storeNew w ov evt (wd_others w AtProbe s1) = (None, s2)) \<or>
     (\<not> list_all (prevOlder evt) prev \<and> s2 = wd_others w AtProbe s1)"
    "s' = wd_others w AtRetire s2"
  using assms by (auto simp: replaceUpTo_def Let_def decide_spec split: option.splits sum.splits prod.splits if_splits)

lemma probed_state_run:
  assumes "legal w" "sinv s"
  shows "sinv (snd (FlushAll w order s))" "sinv (wd_others w AtProbe (snd (FlushAll w order s)))"
    "sstep\<^sup>*\<^sup>* (snd (FlushAll w order s)) (wd_others w AtProbe (snd (FlushAll w order s)))"
proof -
  have "sstep\<^sup>*\<^sup>* s (snd (FlushAll w order s))" by (rule FlushAll_run[OF assms(1), of order s "fst (FlushAll w order s)"]) simp
  then show 1: "sinv (snd (FlushAll w order s))" using assms(2) by (rule srun_sinv)
  show 2: "sstep\<^sup>*\<^sup>* (snd (FlushAll w order s)) (wd_others w AtProbe (snd (FlushAll w order s)))"
    using assms(1) by (simp add: legal_def)
  from 2 1 show "sinv (wd_others w AtProbe (snd (FlushAll w order s)))" by (rule srun_sinv)
qed

section \<open>A concrete run\<close>

text \<open>A worker that serves one waiting flush request with a successful send.\<close>

definition serveFlush :: "string \<Rightarrow> store \<Rightarrow> store" where
  "serveFlush t s =
     (case s_tiers s t of
        None \<Rightarrow> s
      | Some b \<Rightarrow>
          (case b_flushReq b of
             [] \<Rightarrow> s
           | r # rs \<Rightarrow>
               if w_state b = Stopped then s
               else let b' = onFlushReq SendOK r (b\<lparr>b_flushReq := rs\<rparr>) in
                 (setTier t b' s)\<lparr>s_fw := fold offer (newOffers b b') (s_fw s)\<rparr>))"

definition demo_world :: world where
  "demo_world =
     \<lparr>wd_others = (\<lambda>p. case p of AtFlush t \<Rightarrow> serveFlush t | AtFlushNew \<Rightarrow> serveFlush ''permanent'' | _ \<Rightarrow> id),
      wd_giveUp = (\<lambda>_. False), wd_chan = (\<lambda>p. if p = AtFlushNew then 1 else 0), wd_admit = None,
      wd_cancelled = (\<lambda>_. False), wd_conn = (\<lambda>s. run_select (storeTables s) (\<lambda>_. False))\<rparr>"

definition demo_old :: event where
  "demo_old = demo_note\<lparr>ev_id := ''m1'', ev_kind := 0, ev_created_at := 1700000005\<rparr>"

definition demo_new :: event where
  "demo_new = demo_note\<lparr>ev_id := ''m2'', ev_kind := 0, ev_created_at := 1700000009\<rparr>"

definition demo_store :: store where
  "demo_store = snd (SaveEvent Map.empty demo_old (Init 10 (\<lambda>_. []) []))"

lemma serveFlush_run: "sstep\<^sup>*\<^sup>* s (serveFlush t s)"
  by (auto simp: serveFlush_def Let_def split: option.splits list.splits
      intro!: r_into_rtranclp sstep.s_batcher bstep.b_flushReq)

lemma demo_legal: "legal demo_world"
  by (simp add: legal_def demo_world_def serveFlush_run split: wait_point.splits)

lemma demo_store_sinv: "sinv demo_store"
proof -
  have "sinv (Init 10 (\<lambda>_. []) [])" by (rule Init_sinv) simp_all
  from srun_sinv[OF SaveEvent_run this, of Map.empty demo_old "fst (SaveEvent Map.empty demo_old (Init 10 (\<lambda>_. []) []))"]
  show ?thesis by (simp add: demo_store_def)
qed

lemma demo_replace:
  "\<exists>s'. replaceUpTo demo_world [''permanent''] Map.empty demo_new demo_store = Inr ([slim (rowFromEvent demo_old)], [''m1''], s')"
proof -
  have "(case replaceUpTo demo_world [''permanent''] Map.empty demo_new demo_store of
      Inl _ \<Rightarrow> False | Inr (prev, ids, s') \<Rightarrow> prev = [slim (rowFromEvent demo_old)] \<and> ids = [''m1''])"
    by code_simp
  then show ?thesis by (auto split: sum.splits prod.splits)
qed

section \<open>Properties\<close>

text \<open>C1. Replacing never hides the last good version: whenever \<open>ReplaceEvent\<close> gets as far as
  retiring, the ids it retires are exactly the probed versions that lose to the incoming event
  under NIP-01, and some version that beats every one of them is in its tier's table at that
  moment, whatever other goroutines did meanwhile: the incoming event itself, or a live version
  that the probe saw and that is not retired for losing.\<close>

theorem replace_never_hides_winner:
  assumes "legal w" "sinv s" "replaceUpTo w order ov evt s = Inr (prev, ids, s')"
    "tierForEvent evt ov \<in> set activeTiers"
    "clickhouse (storeTables (snd (FlushAll w order s))) dead (wd_conn w (snd (FlushAll w order s)))"
  shows "ids = map rr_id (filter (prevOlder evt) prev) \<and>
    (\<exists>win. list_all (\<lambda>q. win < verKey q) (filter (prevOlder evt) prev) \<and>
      ((win = evKey evt \<and> (\<exists>b. s_tiers s' (tierForEvent evt ov) = Some b \<and> evt \<in> set (b_table b))) \<or>
       (\<exists>r \<in> set (storeTables s' (''events_'' @ tierForEvent evt ov)).
          win = rowKey r \<and> version_of evt r \<and> \<not> dead (r_id r) \<and> \<not> prevOlder evt (slim r))))"
proof -
  let ?s1 = "snd (FlushAll w order s)"
  obtain s2 where prev: "probeReplaceable (wd_cancelled w) (wd_conn w ?s1) ov evt = Inr prev"
    and ids: "ids = map rr_id (filter (prevOlder evt) prev)" and s': "s' = wd_others w AtRetire s2"
    and stores: "(list_all (prevOlder evt) prev \<and> storeNew w ov evt (wd_others w AtProbe ?s1) = (None, s2)) \<or>
     (\<not> list_all (prevOlder evt) prev \<and> s2 = wd_others w AtProbe ?s1)"
    using replaceUpTo_Inr[OF assms(3)] by metis
  note run = probed_state_run[OF assms(1,2), of order]
  have last: "sstep\<^sup>*\<^sup>* s2 s'" using assms(1) s' by (simp add: legal_def)
  from stores show ?thesis
  proof
    assume new: "list_all (prevOlder evt) prev \<and> storeNew w ov evt (wd_others w AtProbe ?s1) = (None, s2)"
    then obtain b where b: "s_tiers s2 (tierForEvent evt ov) = Some b" "evt \<in> set (b_acked b)"
      and "sstep\<^sup>*\<^sup>* (wd_others w AtProbe ?s1) s2" using storeNew_nil[OF assms(1) run(2)] by blast
    then have "sinv s2" using run(2) srun_sinv by blast
    from acked_persist[OF last this b(1)] b(2)
    have "\<exists>b'. s_tiers s' (tierForEvent evt ov) = Some b' \<and> evt \<in> set (b_table b')" by blast
    then show ?thesis using ids by (intro conjI exI[of _ "evKey evt"]) (auto simp: list_all_iff prevOlder_key)
  next
    assume old: "\<not> list_all (prevOlder evt) prev \<and> s2 = wd_others w AtProbe ?s1"
    then obtain p where p: "p \<in> set prev" "\<not> prevOlder evt p" by (auto simp: list_all_iff)
    obtain r where r: "r \<in> set (storeTables ?s1 (''events_'' @ tierForEvent evt ov))" "version_of evt r"
      "\<not> dead (r_id r)" "p = slim r" using clickhouse.probe_sound[OF assms(5) prev p(1)] by blast
    have "sstep\<^sup>*\<^sup>* ?s1 s'" using run(3) last old by simp
    from tables_run[OF this run(1) assms(4)] r(1)
    have "r \<in> set (storeTables s' (''events_'' @ tierForEvent evt ov))" by blast
    moreover have "list_all (\<lambda>q. rowKey r < verKey q) (filter (prevOlder evt) prev)"
      using p(2) r(4) by (auto simp: list_all_iff prevOlder_key)
    ultimately show ?thesis using ids r p(2) by blast
  qed
qed

theorem replace_never_hides_winner_witness:
  "\<exists>s'. replaceUpTo demo_world [''permanent''] Map.empty demo_new demo_store =
      Inr ([slim (rowFromEvent demo_old)], [''m1''], s') \<and>
    (\<exists>win. list_all (\<lambda>q. win < verKey q) (filter (prevOlder demo_new) [slim (rowFromEvent demo_old)]))"
proof -
  obtain s' where r: "replaceUpTo demo_world [''permanent''] Map.empty demo_new demo_store =
      Inr ([slim (rowFromEvent demo_old)], [''m1''], s')" using demo_replace by blast
  have t: "tierForEvent demo_new Map.empty \<in> set activeTiers" by code_simp
  have c: "clickhouse (storeTables x) (\<lambda>_. False) (wd_conn demo_world x)" for x
    by (simp add: demo_world_def server.clickhouse_axioms)
  show ?thesis using r replace_never_hides_winner[OF demo_legal demo_store_sinv r t c] by blast
qed

text \<open>C12. Replacing retires every superseded version it can reach: if the preliminary flush
  succeeded and the author has at most 50 live versions of the kind, then every live version
  that had been accepted by the tier before the call and loses to the incoming event is among
  the retired ids, even if it was still in the batcher's buffers.\<close>

theorem replace_retires_superseded:
  assumes "legal w" "sinv s" "replaceUpTo w order ov evt s = Inr (prev, ids, s')"
    "tierForEvent evt ov \<in> set activeTiers" "tierForEvent evt ov \<in> set order"
    "FlushAll w order s = (None, s1)" "clickhouse (storeTables s1) dead (wd_conn w s1)"
    "length (filter (\<lambda>r. version_of evt r \<and> \<not> dead (r_id r)) (storeTables s1 (''events_'' @ tierForEvent evt ov))) \<le> 50"
    "s_tiers s (tierForEvent evt ov) = Some b" "old \<in> set (b_accepted b)" "event_in_range old"
    "ev_pubkey old = ev_pubkey evt" "ev_kind old = ev_kind evt" "\<not> dead (ev_id old)" "evKey evt < evKey old"
  shows "ev_id old \<in> set ids"
proof -
  have prev: "probeReplaceable (wd_cancelled w) (wd_conn w s1) ov evt = Inr prev"
    and ids: "ids = map rr_id (filter (prevOlder evt) prev)"
    using replaceUpTo_Inr[OF assms(3)] assms(6) by (metis snd_conv)+
  obtain b1 where b1: "s_tiers s1 (tierForEvent evt ov) = Some b1" "old \<in> set (b_table b1)"
    using FlushAll_nil[OF assms(1,2,6,5,9)] assms(10) by blast
  have "rowFromEvent old \<in> set (storeTables s1 (''events_'' @ tierForEvent evt ov))"
    using b1 storeTables_tier[OF b1(1)] active_not_feed[OF assms(4)] by simp
  moreover have "version_of evt (rowFromEvent old)" "\<not> dead (r_id (rowFromEvent old))"
    using assms(12-14) by (simp_all add: version_of_def rowFromEvent_def)
  moreover have "tierForEvent evt ov \<noteq> TierDrop" using assms(4) by (auto simp: activeTiers_def)
  ultimately have "slim (rowFromEvent old) \<in> set prev"
    using clickhouse.probe_complete[OF assms(7) prev] assms(8) by blast
  moreover have "rowKey (rowFromEvent old) = evKey old"
    using assms(11) by (simp add: rowKey_def evKey_def row_created) (simp add: rowFromEvent_def)
  ultimately have "rr_id (slim (rowFromEvent old)) \<in> set ids"
    using ids assms(15) by (force simp: prevOlder_key)
  then show ?thesis by (simp add: rowFromEvent_def)
qed

theorem replace_retires_superseded_witness:
  "\<exists>ids s'. replaceUpTo demo_world [''permanent''] Map.empty demo_new demo_store =
      Inr ([slim (rowFromEvent demo_old)], ids, s') \<and> ev_id demo_old \<in> set ids"
proof -
  obtain s' where r: "replaceUpTo demo_world [''permanent''] Map.empty demo_new demo_store =
      Inr ([slim (rowFromEvent demo_old)], [''m1''], s')" using demo_replace by blast
  obtain s1 where fl: "FlushAll demo_world [''permanent''] demo_store = (None, s1)"
    and few: "length (filter (\<lambda>r. version_of demo_new r \<and> \<not> False)
      (storeTables s1 (''events_'' @ tierForEvent demo_new Map.empty))) \<le> 50"
  proof -
    have "(case FlushAll demo_world [''permanent''] demo_store of (err, s1) \<Rightarrow> err = None \<and>
      length (filter (\<lambda>r. version_of demo_new r \<and> \<not> False)
        (storeTables s1 (''events_'' @ tierForEvent demo_new Map.empty))) \<le> 50)" by code_simp
    then show ?thesis using that by (auto split: prod.splits)
  qed
  have t: "tierForEvent demo_new Map.empty \<in> set activeTiers" "tierForEvent demo_new Map.empty \<in> set [''permanent'']"
    "event_in_range demo_old" "evKey demo_new < evKey demo_old" by code_simp+
  obtain b where b: "s_tiers demo_store (tierForEvent demo_new Map.empty) = Some b" "demo_old \<in> set (b_accepted b)"
  proof -
    have "(case s_tiers demo_store (tierForEvent demo_new Map.empty) of None \<Rightarrow> False
        | Some b \<Rightarrow> b_accepted b = [demo_old])" by code_simp
    then show ?thesis using that by (auto split: option.splits)
  qed
  have c: "clickhouse (storeTables s1) (\<lambda>_. False) (wd_conn demo_world s1)"
    by (simp add: demo_world_def server.clickhouse_axioms)
  have "ev_pubkey demo_old = ev_pubkey demo_new" "ev_kind demo_old = ev_kind demo_new"
    by (simp_all add: demo_old_def demo_new_def)
  with replace_retires_superseded[OF demo_legal demo_store_sinv r t(1,2) fl c few b t(3) _ _ _ t(4)] r
  show ?thesis by blast
qed

text \<open>C11. A deletion finds what was just published: once a tier has accepted an event, khatru's
  internal lookup by its id, which flushes the tiers first and bypasses read admission, returns
  it, provided the flush succeeded, the query is answered and the event is not already
  tombstoned, even if the event was still in the batcher's buffers.\<close>

theorem internal_lookup_sees_published:
  assumes "legal w" "sinv s" "s_tiers s (tierForEvent evt ov) = Some b" "evt \<in> set (b_accepted b)"
    "tierForEvent evt ov \<in> set order" "FlushAll w order s = (None, s1)"
    "clickhouse (storeTables s1) dead (wd_conn w s1)" "\<not> dead (ev_id evt)"
    "QueryEvents w order True now ov (match_all\<lparr>f_ids := [ev_id evt]\<rparr>) s = (Inr es, s')"
  shows "\<exists>e \<in> set es. ev_id e = ev_id evt"
proof -
  let ?f = "match_all\<lparr>f_ids := [ev_id evt]\<rparr>" and ?t = "tierForEvent evt ov"
  have act: "?t \<in> set activeTiers" using assms(2,3) by (auto simp: sinv_def dom_def)
  have es: "collectTiers (wd_cancelled w) (wd_conn w s1) ov ?f = Inr es"
    using assms(6,9) by (auto simp: QueryEvents_def Let_def collectEvents_def feedEligible_def)
  obtain b1 where b1: "s_tiers s1 ?t = Some b1" "evt \<in> set (b_table b1)"
    using FlushAll_nil[OF assms(1,2,6,5,3)] assms(4) by blast
  have r: "rowFromEvent evt \<in> set (storeTables s1 (''events_'' @ ?t))"
    using b1 storeTables_tier[OF b1(1)] active_not_feed[OF act] by simp
  have w: "where_holds dead ?f x \<longleftrightarrow> r_id x = ev_id evt \<and> \<not> dead (ev_id evt)" for x
    by (auto simp: where_holds_def filterConds_def match_all_def)
  have tier: "?t \<in> set (tiersForFilter ?f ov)" using act by (simp add: tiersForFilter_def match_all_def)
  have "where_holds dead ?f (rowFromEvent evt)" using assms(8) by (simp add: w rowFromEvent_def)
  from clickhouse.tiers_complete[OF assms(7) es tier r this]
  obtain v where "where_holds dead ?f v" and cut: "scanEvent v \<in> set es \<or> length es = nat (clampLimit (f_limit ?f))"
    by blast
  then have "ev_id (scanEvent v) = ev_id evt" by (simp add: w scanEvent_def)
  moreover have "es \<noteq> []" if "length es = nat (clampLimit (f_limit ?f))"
    using that by (auto simp: clampLimit_def defaultQueryLimit_def match_all_def)
  moreover have "ev_id e = ev_id evt" if "e \<in> set es" for e
    using clickhouse.tiers_member[OF assms(7) es that] by (auto simp: w scanEvent_def)
  ultimately show ?thesis using cut by (metis last_in_set)
qed

theorem internal_lookup_sees_published_witness:
  "\<exists>es s'. QueryEvents demo_world [''permanent''] True 0 Map.empty (match_all\<lparr>f_ids := [ev_id demo_old]\<rparr>) demo_store = (Inr es, s') \<and>
    (\<exists>e \<in> set es. ev_id e = ev_id demo_old)"
proof -
  have "(case QueryEvents demo_world [''permanent''] True 0 Map.empty (match_all\<lparr>f_ids := [ev_id demo_old]\<rparr>) demo_store of
      (Inr es, s') \<Rightarrow> True | _ \<Rightarrow> False)" by code_simp
  then obtain es s' where q: "QueryEvents demo_world [''permanent''] True 0 Map.empty (match_all\<lparr>f_ids := [ev_id demo_old]\<rparr>) demo_store
      = (Inr es, s')" by (auto split: prod.splits sum.splits)
  have "fst (FlushAll demo_world [''permanent''] demo_store) = None" by code_simp
  then obtain s1 where fl: "FlushAll demo_world [''permanent''] demo_store = (None, s1)" by (metis prod.collapse)
  have "(case s_tiers demo_store (tierForEvent demo_old Map.empty) of None \<Rightarrow> False
      | Some b \<Rightarrow> b_accepted b = [demo_old])" by code_simp
  then obtain b where b: "s_tiers demo_store (tierForEvent demo_old Map.empty) = Some b" "demo_old \<in> set (b_accepted b)"
    by (auto split: option.splits)
  have t: "tierForEvent demo_old Map.empty \<in> set [''permanent'']" by code_simp
  have c: "clickhouse (storeTables s1) (\<lambda>_. False) (wd_conn demo_world s1)"
    by (simp add: demo_world_def server.clickhouse_axioms)
  show ?thesis using q internal_lookup_sees_published[OF demo_legal demo_store_sinv b t fl c _ q] by blast
qed



end
