(* ===== verification/Control.thy ===== *)
theory Control
  imports Classifier
begin

text \<open>
  The SQLite control plane (\<open>internal/control/control.go\<close>). Each table is a list of its rows
  in rowid order: a new row gets the largest rowid, so \<open>INSERT OR IGNORE\<close> appends, and
  \<open>INSERT OR REPLACE\<close> removes the row with the same primary key and appends. Every statement may
  fail; whether it does is an argument, and a failed statement or rolled-back transaction leaves
  the tables as they were. Times are Unix seconds.
\<close>

record SeenRef =
  sr_id :: string
  sr_created_at :: int

record AllowedPubkey =
  al_pubkey :: string
  al_note :: string
  al_created_at :: int

record ScheduledRow =
  se_id :: string
  se_event_json :: string
  se_publish_at :: int

record crawl_row =
  cr_pubkey :: string
  cr_last_fetched :: int
  cr_last_full_sweep :: int
  cr_updated_at :: int

record control_db =
  c_seen :: "SeenRef list"
  c_allowed :: "AllowedPubkey list"
  c_scheduled :: "ScheduledRow list"
  c_crawl :: "crawl_row list"

type_synonym fault = "string option"

section \<open>Definitions\<close>

definition emptyDB :: control_db where
  "emptyDB = \<lparr>c_seen = [], c_allowed = [], c_scheduled = [], c_crawl = []\<rparr>"

subsection \<open>Statements\<close>

definition insertIgnore :: "('r \<Rightarrow> 'k) \<Rightarrow> 'r \<Rightarrow> 'r list \<Rightarrow> 'r list" where
  "insertIgnore key r rows = (if key r \<in> key ` set rows then rows else rows @ [r])"

definition insertReplace :: "('r \<Rightarrow> 'k) \<Rightarrow> 'r \<Rightarrow> 'r list \<Rightarrow> 'r list" where
  "insertReplace key r rows = filter (\<lambda>x. key x \<noteq> key r) rows @ [r]"

text \<open>\<open>INSERT ... ON CONFLICT(pubkey) DO UPDATE\<close>: the existing row is changed in place.\<close>

definition upsert :: "('r \<Rightarrow> 'k) \<Rightarrow> 'r \<Rightarrow> ('r \<Rightarrow> 'r) \<Rightarrow> 'r list \<Rightarrow> 'r list" where
  "upsert key r upd rows =
     (if key r \<in> key ` set rows then map (\<lambda>x. if key x = key r then upd x else x) rows else rows @ [r])"

subsection \<open>Seen events\<close>

definition MarkSeen :: "fault \<Rightarrow> string \<Rightarrow> int \<Rightarrow> control_db \<Rightarrow> (string + bool) \<times> control_db" where
  "MarkSeen flt i createdAt db =
     (case flt of
        Some e \<Rightarrow> (Inl e, db)
      | None \<Rightarrow>
          let rows = insertIgnore sr_id \<lparr>sr_id = i, sr_created_at = createdAt\<rparr> (c_seen db) in
          (Inr (length rows > length (c_seen db)), db\<lparr>c_seen := rows\<rparr>))"

text \<open>One transaction: begin, prepare, each insert and commit may fail, and then nothing of it
  remains.\<close>

definition MarkSeenBatch :: "fault \<Rightarrow> SeenRef list \<Rightarrow> control_db \<Rightarrow> fault \<times> control_db" where
  "MarkSeenBatch flt items db =
     (if items = [] then (None, db)
      else case flt of
        Some e \<Rightarrow> (Some e, db)
      | None \<Rightarrow> (None, db\<lparr>c_seen := fold (insertIgnore sr_id) items (c_seen db)\<rparr>))"

definition LoadRecentSeen :: "fault \<Rightarrow> nat \<Rightarrow> control_db \<Rightarrow> string + string list" where
  "LoadRecentSeen flt limit db =
     (case flt of Some e \<Rightarrow> Inl e | None \<Rightarrow> Inr (take limit (map sr_id (rev (c_seen db)))))"

definition PruneSeen :: "fault \<Rightarrow> instant \<Rightarrow> duration \<Rightarrow> control_db \<Rightarrow> (string + nat) \<times> control_db" where
  "PruneSeen flt now maxAge db =
     (let cutoff = (now - maxAge) div second in
      case flt of
        Some e \<Rightarrow> (Inl e, db)
      | None \<Rightarrow>
          let rows = filter (\<lambda>r. \<not> sr_created_at r < cutoff) (c_seen db) in
          (Inr (length (c_seen db) - length rows), db\<lparr>c_seen := rows\<rparr>))"

definition pruneSeenChunk :: nat where "pruneSeenChunk = 50000"

text \<open>The chunk loop of \<open>PruneSeenByRowid\<close>: rows deleted, error, tables. The \<open>i\<close>-th
  transaction fails as \<open>flt i\<close> says.\<close>

function pruneChunks :: "(nat \<Rightarrow> fault) \<Rightarrow> nat \<Rightarrow> nat \<Rightarrow> nat \<Rightarrow> nat \<Rightarrow> nat \<Rightarrow> control_db \<Rightarrow> nat \<times> fault \<times> control_db" where
  "pruneChunks flt chunk cap i cnt deleted db =
     (if cnt > cap then
        let extra = cnt - cap; n = (if chunk > extra then extra else chunk) in
        case flt i of
          Some e \<Rightarrow> (deleted, Some e, db)
        | None \<Rightarrow>
            let got = min n (length (c_seen db)); db1 = db\<lparr>c_seen := drop n (c_seen db)\<rparr> in
            if got = 0 then (deleted, None, db1)
            else pruneChunks flt chunk cap (Suc i) (cnt - got) (deleted + got) db1
      else (deleted, None, db))"
  by pat_completeness auto
termination
  by (relation "measure (\<lambda>(flt, chunk, cap, i, cnt, deleted, db). cnt)") auto

definition PruneSeenByRowid :: "fault \<Rightarrow> (nat \<Rightarrow> fault) \<Rightarrow> nat \<Rightarrow> int \<Rightarrow> control_db \<Rightarrow> nat \<times> fault \<times> control_db" where
  "PruneSeenByRowid countFault flt chunk cap db =
     (if cap \<le> 0 then (0, None, db)
      else case countFault of
        Some e \<Rightarrow> (0, Some e, db)
      | None \<Rightarrow> pruneChunks flt chunk (nat cap) 0 (length (c_seen db)) 0 db)"

subsection \<open>The allow-list\<close>

definition AllowPubkeyDB :: "fault \<Rightarrow> int \<Rightarrow> string \<Rightarrow> string \<Rightarrow> control_db \<Rightarrow> fault \<times> control_db" where
  "AllowPubkeyDB flt now pubkey note db =
     (case flt of
        Some e \<Rightarrow> (Some e, db)
      | None \<Rightarrow> (None, db\<lparr>c_allowed := insertReplace al_pubkey
                   \<lparr>al_pubkey = pubkey, al_note = note, al_created_at = now\<rparr> (c_allowed db)\<rparr>))"

definition RevokePubkeyDB :: "fault \<Rightarrow> string \<Rightarrow> control_db \<Rightarrow> fault \<times> control_db" where
  "RevokePubkeyDB flt pubkey db =
     (case flt of
        Some e \<Rightarrow> (Some e, db)
      | None \<Rightarrow> (None, db\<lparr>c_allowed := filter (\<lambda>a. al_pubkey a \<noteq> pubkey) (c_allowed db)\<rparr>))"

definition ListAllowed :: "fault \<Rightarrow> control_db \<Rightarrow> string + AllowedPubkey list" where
  "ListAllowed flt db = (case flt of Some e \<Rightarrow> Inl e | None \<Rightarrow> Inr (sort_key al_created_at (c_allowed db)))"

definition LoadAllowedSet :: "fault \<Rightarrow> control_db \<Rightarrow> string + string set" where
  "LoadAllowedSet flt db = (case flt of Some e \<Rightarrow> Inl e | None \<Rightarrow> Inr (al_pubkey ` set (c_allowed db)))"

subsection \<open>Crawl progress\<close>

definition crawlLookup :: "string \<Rightarrow> control_db \<Rightarrow> crawl_row option" where
  "crawlLookup pubkey db = find (\<lambda>r. cr_pubkey r = pubkey) (c_crawl db)"

definition LastFetched :: "fault \<Rightarrow> string \<Rightarrow> control_db \<Rightarrow> string + int" where
  "LastFetched flt pubkey db =
     (case flt of Some e \<Rightarrow> Inl e
      | None \<Rightarrow> Inr (case crawlLookup pubkey db of None \<Rightarrow> 0 | Some r \<Rightarrow> cr_last_fetched r))"

definition MarkFetched :: "fault \<Rightarrow> int \<Rightarrow> string \<Rightarrow> control_db \<Rightarrow> fault \<times> control_db" where
  "MarkFetched flt now pubkey db =
     (case flt of
        Some e \<Rightarrow> (Some e, db)
      | None \<Rightarrow> (None, db\<lparr>c_crawl := upsert cr_pubkey
          \<lparr>cr_pubkey = pubkey, cr_last_fetched = now, cr_last_full_sweep = 0, cr_updated_at = now\<rparr>
          (\<lambda>r. r\<lparr>cr_last_fetched := now, cr_updated_at := now\<rparr>) (c_crawl db)\<rparr>))"

definition LastSwept :: "fault \<Rightarrow> string \<Rightarrow> control_db \<Rightarrow> string + int" where
  "LastSwept flt pubkey db =
     (case flt of Some e \<Rightarrow> Inl e
      | None \<Rightarrow> Inr (case crawlLookup pubkey db of None \<Rightarrow> 0 | Some r \<Rightarrow> cr_last_full_sweep r))"

definition MarkSwept :: "fault \<Rightarrow> int \<Rightarrow> string \<Rightarrow> control_db \<Rightarrow> fault \<times> control_db" where
  "MarkSwept flt now pubkey db =
     (case flt of
        Some e \<Rightarrow> (Some e, db)
      | None \<Rightarrow> (None, db\<lparr>c_crawl := upsert cr_pubkey
          \<lparr>cr_pubkey = pubkey, cr_last_fetched = 0, cr_last_full_sweep = now, cr_updated_at = now\<rparr>
          (\<lambda>r. r\<lparr>cr_last_full_sweep := now, cr_updated_at := now\<rparr>) (c_crawl db)\<rparr>))"

subsection \<open>Scheduled events\<close>

definition SaveScheduled :: "fault \<Rightarrow> string \<Rightarrow> string \<Rightarrow> int \<Rightarrow> control_db \<Rightarrow> fault \<times> control_db" where
  "SaveScheduled flt i eventJSON publishAt db =
     (case flt of
        Some e \<Rightarrow> (Some e, db)
      | None \<Rightarrow> (None, db\<lparr>c_scheduled := insertReplace se_id
          \<lparr>se_id = i, se_event_json = eventJSON, se_publish_at = publishAt\<rparr> (c_scheduled db)\<rparr>))"

definition LoadDueScheduled :: "fault \<Rightarrow> int \<Rightarrow> nat \<Rightarrow> control_db \<Rightarrow> string + (string \<times> string) list" where
  "LoadDueScheduled flt now limit db =
     (case flt of
        Some e \<Rightarrow> Inl e
      | None \<Rightarrow> Inr (map (\<lambda>r. (se_id r, se_event_json r))
          (take limit (sort_key se_publish_at (filter (\<lambda>r. se_publish_at r \<le> now) (c_scheduled db))))))"

definition DeleteScheduled :: "fault \<Rightarrow> string \<Rightarrow> control_db \<Rightarrow> fault \<times> control_db" where
  "DeleteScheduled flt i db =
     (case flt of
        Some e \<Rightarrow> (Some e, db)
      | None \<Rightarrow> (None, db\<lparr>c_scheduled := filter (\<lambda>r. se_id r \<noteq> i) (c_scheduled db)\<rparr>))"

text \<open>The primary keys.\<close>

definition keysUnique :: "control_db \<Rightarrow> bool" where
  "keysUnique db \<longleftrightarrow> distinct (map sr_id (c_seen db)) \<and> distinct (map al_pubkey (c_allowed db)) \<and>
     distinct (map se_id (c_scheduled db)) \<and> distinct (map cr_pubkey (c_crawl db))"

section \<open>Lemmas\<close>

declare pruneChunks.simps [simp del]

lemma insertIgnore_keys: "distinct (map key rows) \<Longrightarrow> distinct (map key (insertIgnore key r rows))"
  by (simp add: insertIgnore_def)

lemma insertIgnore_image: "key ` set (insertIgnore key r rows) = insert (key r) (key ` set rows)"
  by (auto simp: insertIgnore_def)

lemma fold_insertIgnore_keys:
  "distinct (map key rows) \<Longrightarrow> distinct (map key (fold (insertIgnore key) items rows))"
  by (induction items arbitrary: rows) (simp_all add: insertIgnore_keys)

lemma fold_insertIgnore_image:
  "key ` set (fold (insertIgnore key) items rows) = key ` set items \<union> key ` set rows"
  by (induction items arbitrary: rows) (auto simp: insertIgnore_image)

lemma insertReplace_keys: "distinct (map key rows) \<Longrightarrow> distinct (map key (insertReplace key r rows))"
  by (auto simp: insertReplace_def distinct_map_filter)

lemma insertReplace_set: "set (insertReplace key r rows) = insert r {x \<in> set rows. key x \<noteq> key r}"
  by (auto simp: insertReplace_def)

lemma upsert_keys:
  assumes "distinct (map key rows)" "\<And>x. key (upd x) = key x"
  shows "distinct (map key (upsert key r upd rows))"
proof -
  have "map key (map (\<lambda>x. if key x = key r then upd x else x) rows) = map key rows"
    using assms(2) by (simp add: comp_def)
  then show ?thesis using assms(1) by (auto simp: upsert_def simp del: map_map)
qed

lemma pruneChunks_suffix:
  assumes "pruneChunks flt chunk cap i cnt deleted db = (n, err, db')" "cnt = length (c_seen db)" "0 < chunk"
  shows "\<exists>k. n = deleted + k \<and> k \<le> cnt - cap \<and> db' = db\<lparr>c_seen := drop k (c_seen db)\<rparr> \<and>
    (err = None \<longrightarrow> k = cnt - cap)"
  using assms
proof (induction flt chunk cap i cnt deleted db rule: pruneChunks.induct)
  case (1 flt chunk cap i cnt deleted db)
  note IH = "1.IH" and prems = "1.prems"
  show ?case
  proof (cases "cnt > cap \<and> flt i = None")
    case False
    then have "pruneChunks flt chunk cap i cnt deleted db = (deleted, if cnt > cap then flt i else None, db)"
      by (cases "flt i") (auto simp: pruneChunks.simps[of flt chunk cap i cnt] Let_def)
    then have "n = deleted" "db' = db" "err = (if cnt > cap then flt i else None)" using prems(1) by simp_all
    then show ?thesis using False by (intro exI[of _ 0]) auto
  next
    case True
    define m where "m = (if chunk > cnt - cap then cnt - cap else chunk)"
    let ?db = "db\<lparr>c_seen := drop m (c_seen db)\<rparr>"
    have got: "min m (length (c_seen db)) = m" "m \<noteq> 0" "m \<le> cnt - cap"
      using prems(2,3) True unfolding m_def by auto
    then have rest: "pruneChunks flt chunk cap (Suc i) (cnt - m) (deleted + m) ?db = (n, err, db')"
      using prems(1) True by (simp add: pruneChunks.simps[of flt chunk cap i cnt] Let_def m_def[symmetric])
    have len: "cnt - m = length (c_seen ?db)" using prems(2) by simp
    have "\<exists>k. n = deleted + m + k \<and> k \<le> cnt - m - cap \<and> db' = ?db\<lparr>c_seen := drop k (c_seen ?db)\<rparr> \<and>
        (err = None \<longrightarrow> k = cnt - m - cap)"
      using IH[of "cnt - cap" m m ?db] True got(1,2) rest len prems(3) by (simp add: m_def[symmetric])
    then obtain k where "n = deleted + m + k" "k \<le> cnt - m - cap"
      "db' = ?db\<lparr>c_seen := drop k (c_seen ?db)\<rparr>" "err = None \<longrightarrow> k = cnt - m - cap" by blast
    then show ?thesis using got(3) by (intro exI[of _ "m + k"]) (auto simp: add.commute)
  qed
qed

lemma find_map_upd:
  "(\<And>x. key (upd x) = key x) \<Longrightarrow>
   find (\<lambda>x. key x = k) (map (\<lambda>x. if key x = j then upd x else x) rows) =
     (if k = j then map_option upd (find (\<lambda>x. key x = k) rows) else find (\<lambda>x. key x = k) rows)"
  by (induction rows) auto

lemma find_append: "find P (xs @ ys) = (case find P xs of Some x \<Rightarrow> Some x | None \<Rightarrow> find P ys)"
  by (induction xs) auto

lemma find_upsert:
  assumes "\<And>x. key (upd x) = key x"
  shows "find (\<lambda>x. key x = k) (upsert key r upd rows) =
    (if k = key r then Some (case find (\<lambda>x. key x = k) rows of None \<Rightarrow> r | Some x \<Rightarrow> upd x)
     else find (\<lambda>x. key x = k) rows)"
proof (cases "key r \<in> key ` set rows")
  case True
  then have "find (\<lambda>x. key x = key r) rows \<noteq> None" by (auto simp: find_None_iff)
  then obtain x where x: "find (\<lambda>x. key x = key r) rows = Some x" by blast
  have "find (\<lambda>x. key x = k) (upsert key r upd rows) =
      (if k = key r then map_option upd (find (\<lambda>x. key x = k) rows) else find (\<lambda>x. key x = k) rows)"
    using True find_map_upd[of key upd k "key r" rows, OF assms] unfolding upsert_def by simp
  then show ?thesis using x by (cases "k = key r") simp_all
next
  case False
  then have "find (\<lambda>x. key x = key r) rows = None" by (auto simp: find_None_iff image_iff)
  then show ?thesis using False by (auto simp: upsert_def find_append split: option.splits)
qed

text \<open>The two progress marks of a pubkey are independent, and other pubkeys are untouched.\<close>

lemma crawl_marks:
  "LastFetched None p (snd (MarkFetched None now p db)) = Inr now"
  "LastSwept None p (snd (MarkFetched None now p db)) = LastSwept None p db"
  "LastSwept None p (snd (MarkSwept None now p db)) = Inr now"
  "LastFetched None p (snd (MarkSwept None now p db)) = LastFetched None p db"
  "q \<noteq> p \<Longrightarrow> crawlLookup q (snd (MarkFetched None now p db)) = crawlLookup q db"
  "q \<noteq> p \<Longrightarrow> crawlLookup q (snd (MarkSwept None now p db)) = crawlLookup q db"
  by (auto simp: LastFetched_def LastSwept_def MarkFetched_def MarkSwept_def crawlLookup_def find_upsert
      split: option.splits)

section \<open>Properties\<close>

text \<open>Cap-pruning removes the oldest rows only and reports exactly what it removed: whatever
  transaction fails, the remaining rows are the newest ones, as many fewer as reported, never
  fewer than the cap; and when it reports success, exactly the newest cap rows remain.\<close>

theorem prune_keeps_newest:
  assumes "PruneSeenByRowid countFault flt chunk cap db = (n, err, db')" "0 < chunk" "0 < cap"
  shows "db' = db\<lparr>c_seen := drop n (c_seen db)\<rparr> \<and> n \<le> length (c_seen db) - nat cap \<and>
    (err = None \<longrightarrow> length (c_seen db') = min (length (c_seen db)) (nat cap))"
proof (cases countFault)
  case None
  with assms(1,3) have "pruneChunks flt chunk (nat cap) 0 (length (c_seen db)) 0 db = (n, err, db')"
    by (simp add: PruneSeenByRowid_def)
  from pruneChunks_suffix[OF this refl assms(2)] show ?thesis by auto
next
  case (Some e)
  with assms show ?thesis by (auto simp: PruneSeenByRowid_def)
qed

theorem prune_keeps_newest_witness:
  "let db = emptyDB\<lparr>c_seen := [\<lparr>sr_id = ''a'', sr_created_at = 5\<rparr>, \<lparr>sr_id = ''b'', sr_created_at = 1\<rparr>]\<rparr> in
   PruneSeenByRowid None (\<lambda>_. None) 50000 1 db = (1, None, db\<lparr>c_seen := [\<lparr>sr_id = ''b'', sr_created_at = 1\<rparr>]\<rparr>)"
proof -
  let ?db = "emptyDB\<lparr>c_seen := [\<lparr>sr_id = ''a'', sr_created_at = 5\<rparr>, \<lparr>sr_id = ''b'', sr_created_at = 1\<rparr>]\<rparr>"
  obtain n err db' where r: "PruneSeenByRowid None (\<lambda>_. None) 50000 1 ?db = (n, err, db')" by (metis prod_cases3)
  have "err = None \<and> n = 1" using r by (simp add: PruneSeenByRowid_def pruneChunks.simps Let_def)
  with prune_keeps_newest[OF r] r show ?thesis by (simp add: Let_def)
qed

end
