(* ===== verification/Control_Open.thy ===== *)
theory Control_Open
  imports Control
begin

text \<open>
  Opening the control database (\<open>internal/control/control.go\<close>, \<open>Open\<close> and
  \<open>migrateCrawlState\<close>). A \<open>control_file\<close> is the SQLite file before its tables are known to be
  there: a table that was never created is \<open>None\<close>, and \<open>crawl_state\<close> carries its own column
  names because a file written by an older release lacks \<open>last_full_sweep\<close>. \<open>readDB\<close> is what
  the queries of Control see of such a file. The faults of the SQL calls are the fields of \<open>open_io\<close>;
  \<open>os_schema\<close> also says how many statements of the schema had been carried out.
\<close>

record crawl_table =
  ct_columns :: "string list"
  ct_rows :: "(string \<times> int list) list"

record control_file =
  f_crawl :: "crawl_table option"
  f_scheduled :: "ScheduledRow list option"
  f_dueIndex :: bool
  f_seen :: "SeenRef list option"
  f_allowed :: "AllowedPubkey list option"

record open_io =
  os_open :: fault
  os_schema :: "(nat \<times> string) option"
  os_tableInfo :: fault
  os_scan :: "nat \<Rightarrow> fault"
  os_rowsErr :: fault
  os_alter :: fault

section \<open>Definitions\<close>

text \<open>\<open>CREATE TABLE IF NOT EXISTS\<close> leaves a table that is there as it is, whatever its columns.\<close>

definition createIfMissing :: "'t \<Rightarrow> 't option \<Rightarrow> 't option" where
  "createIfMissing new t = (case t of None \<Rightarrow> Some new | Some rows \<Rightarrow> Some rows)"

definition freshCrawl :: crawl_table where
  "freshCrawl = \<lparr>ct_columns = [''last_fetched'', ''last_full_sweep'', ''updated_at''], ct_rows = []\<rparr>"

definition schema :: "(control_file \<Rightarrow> control_file) list" where
  "schema =
     [\<lambda>f. f\<lparr>f_crawl := createIfMissing freshCrawl (f_crawl f)\<rparr>,
      \<lambda>f. f\<lparr>f_scheduled := createIfMissing [] (f_scheduled f)\<rparr>,
      \<lambda>f. f\<lparr>f_dueIndex := True\<rparr>,
      \<lambda>f. f\<lparr>f_seen := createIfMissing [] (f_seen f)\<rparr>,
      \<lambda>f. f\<lparr>f_allowed := createIfMissing [] (f_allowed f)\<rparr>]"

definition execSchema :: "(nat \<times> string) option \<Rightarrow> control_file \<Rightarrow> fault \<times> control_file" where
  "execSchema flt f =
     (case flt of
        None \<Rightarrow> (None, fold (\<lambda>st. st) schema f)
      | Some (n, e) \<Rightarrow> (Some e, fold (\<lambda>st. st) (take n schema) f))"

text \<open>\<open>PRAGMA table_info\<close>: one row per column, none for a missing table.\<close>

definition tableInfo :: "crawl_table option \<Rightarrow> string list" where
  "tableInfo t = (case t of None \<Rightarrow> [] | Some c \<Rightarrow> ''pubkey'' # ct_columns c)"

fun scanColumns :: "(nat \<Rightarrow> fault) \<Rightarrow> nat \<Rightarrow> string list \<Rightarrow> bool \<Rightarrow> string + bool" where
  "scanColumns flt i [] has = Inr has"
| "scanColumns flt i (name # names) has =
     (case flt i of
        Some e \<Rightarrow> Inl e
      | None \<Rightarrow> scanColumns flt (Suc i) names (has \<or> name = ''last_full_sweep''))"

definition addColumn :: "string \<Rightarrow> crawl_table \<Rightarrow> crawl_table" where
  "addColumn name t =
     \<lparr>ct_columns = ct_columns t @ [name], ct_rows = map (\<lambda>(pk, vs). (pk, vs @ [0])) (ct_rows t)\<rparr>"

definition migrateCrawlState :: "open_io \<Rightarrow> control_file \<Rightarrow> fault \<times> control_file" where
  "migrateCrawlState io f =
     (case os_tableInfo io of
        Some e \<Rightarrow> (Some (''crawl_state table_info: '' @ e), f)
      | None \<Rightarrow>
          case scanColumns (os_scan io) 0 (tableInfo (f_crawl f)) False of
            Inl e \<Rightarrow> (Some e, f)
          | Inr has \<Rightarrow>
              case os_rowsErr io of
                Some e \<Rightarrow> (Some e, f)
              | None \<Rightarrow>
                  if has then (None, f)
                  else case (os_alter io, f_crawl f) of
                    (Some e, _) \<Rightarrow> (Some (''add last_full_sweep: '' @ e), f)
                  | (None, None) \<Rightarrow> (Some ''add last_full_sweep: no such table: crawl_state'', f)
                  | (None, Some t) \<Rightarrow> (None, f\<lparr>f_crawl := Some (addColumn ''last_full_sweep'' t)\<rparr>))"

text \<open>A query reads a column by its name.\<close>

definition column :: "crawl_table \<Rightarrow> string \<Rightarrow> int list \<Rightarrow> int" where
  "column t name vs = (case map_of (zip (ct_columns t) vs) name of None \<Rightarrow> 0 | Some v \<Rightarrow> v)"

definition crawlRows :: "crawl_table \<Rightarrow> crawl_row list" where
  "crawlRows t = map (\<lambda>(pk, vs).
     \<lparr>cr_pubkey = pk, cr_last_fetched = column t ''last_fetched'' vs,
      cr_last_full_sweep = column t ''last_full_sweep'' vs, cr_updated_at = column t ''updated_at'' vs\<rparr>) (ct_rows t)"

definition readDB :: "control_file \<Rightarrow> control_db" where
  "readDB f =
     \<lparr>c_seen = (case f_seen f of None \<Rightarrow> [] | Some r \<Rightarrow> r),
      c_allowed = (case f_allowed f of None \<Rightarrow> [] | Some r \<Rightarrow> r),
      c_scheduled = (case f_scheduled f of None \<Rightarrow> [] | Some r \<Rightarrow> r),
      c_crawl = (case f_crawl f of None \<Rightarrow> [] | Some t \<Rightarrow> crawlRows t)\<rparr>"

definition Open :: "open_io \<Rightarrow> control_file \<Rightarrow> (string + control_db) \<times> control_file" where
  "Open io f =
     (case os_open io of
        Some e \<Rightarrow> (Inl e, f)
      | None \<Rightarrow>
          case execSchema (os_schema io) f of
            (Some e, f1) \<Rightarrow> (Inl (''control schema init: '' @ e), f1)
          | (None, f1) \<Rightarrow>
              case migrateCrawlState io f1 of
                (Some e, f2) \<Rightarrow> (Inl e, f2)
              | (None, f2) \<Rightarrow> (Inr (readDB f2), f2))"

subsection \<open>Well-formed files\<close>

definition tableOK :: "crawl_table \<Rightarrow> bool" where
  "tableOK t \<longleftrightarrow> distinct (ct_columns t) \<and> {''last_fetched'', ''updated_at''} \<subseteq> set (ct_columns t) \<and>
     (\<forall>(pk, vs) \<in> set (ct_rows t). length vs = length (ct_columns t))"

definition fileOK :: "control_file \<Rightarrow> bool" where
  "fileOK f \<longleftrightarrow> (case f_crawl f of None \<Rightarrow> True | Some t \<Rightarrow> tableOK t)"

text \<open>What every query of Control needs of the file: all tables, and all columns of \<open>crawl_state\<close>.\<close>

definition ready :: "control_file \<Rightarrow> bool" where
  "ready f \<longleftrightarrow> f_scheduled f \<noteq> None \<and> f_seen f \<noteq> None \<and> f_allowed f \<noteq> None \<and> f_dueIndex f \<and>
     (\<exists>t. f_crawl f = Some t \<and> tableOK t \<and> ''last_full_sweep'' \<in> set (ct_columns t))"

section \<open>Lemmas\<close>

lemma createIfMissing_cases [simp]:
  "createIfMissing e None = Some e" "createIfMissing e (Some r) = Some r" "createIfMissing e t \<noteq> None"
  by (auto simp: createIfMissing_def split: option.splits)

lemma createIfMissing_the: "createIfMissing e t = Some (case t of None \<Rightarrow> e | Some r \<Rightarrow> r)"
  by (cases t) simp_all

lemma schema_effect: "execSchema None f = (None,
    \<lparr>f_crawl = createIfMissing freshCrawl (f_crawl f), f_scheduled = createIfMissing [] (f_scheduled f), f_dueIndex = True,
     f_seen = createIfMissing [] (f_seen f), f_allowed = createIfMissing [] (f_allowed f)\<rparr>)"
  by (cases f) (simp add: execSchema_def schema_def)

lemma scanColumns_result: "scanColumns flt i names has = Inr b \<Longrightarrow> b = (has \<or> ''last_full_sweep'' \<in> set names)"
  by (induction names arbitrary: i has) (auto split: option.splits)

lemma freshCrawl_ok [simp]: "tableOK freshCrawl" "''last_full_sweep'' \<in> set (ct_columns freshCrawl)" "crawlRows freshCrawl = []"
  by (auto simp: freshCrawl_def tableOK_def crawlRows_def)

lemma addColumn_ok:
  assumes "tableOK t" "name \<notin> set (ct_columns t)"
  shows "tableOK (addColumn name t)" "name \<in> set (ct_columns (addColumn name t))"
  using assms by (auto simp: tableOK_def addColumn_def)

lemma column_absent: "name \<notin> set (ct_columns t) \<Longrightarrow> column t name vs = 0"
  unfolding column_def by (auto split: option.splits dest!: map_of_SomeD set_zip_leftD)

text \<open>Adding a column changes no value a query reads, the new one included: it reads 0.\<close>

lemma column_addColumn:
  assumes "length vs = length (ct_columns t)" "name \<notin> set (ct_columns t)"
  shows "column (addColumn name t) c (vs @ [0]) = column t c vs"
proof -
  have "map_of (zip (ct_columns t @ [name]) (vs @ [0])) c = (map_of (zip [name] [0]) ++ map_of (zip (ct_columns t) vs)) c"
    using assms(1) by (simp add: map_of_append[symmetric])
  also have "\<dots> = (case map_of (zip (ct_columns t) vs) c of None \<Rightarrow> if c = name then Some 0 else None | Some v \<Rightarrow> Some v)"
    by (simp add: map_add_def split: option.splits)
  finally show ?thesis unfolding column_def addColumn_def by (simp split: option.splits)
qed

lemma crawlRows_addColumn:
  assumes "tableOK t" "name \<notin> set (ct_columns t)"
  shows "crawlRows (addColumn name t) = crawlRows t"
proof -
  have "column (addColumn name t) c (vs @ [0]) = column t c vs" if "(pk, vs) \<in> set (ct_rows t)" for pk vs c
    using that assms column_addColumn[of vs t name c] by (auto simp: tableOK_def)
  then show ?thesis by (auto simp: crawlRows_def addColumn_def)
qed

text \<open>A migration that succeeds has added the column exactly when it was missing.\<close>

lemma migrate_result:
  assumes "migrateCrawlState io f = (None, f2)" "f_crawl f = Some t"
  shows "f2 = (if ''last_full_sweep'' \<in> set (ct_columns t) then f else f\<lparr>f_crawl := Some (addColumn ''last_full_sweep'' t)\<rparr>)"
  using assms
  by (auto simp: migrateCrawlState_def tableInfo_def dest!: scanColumns_result split: option.splits sum.splits if_splits)

lemma Open_result:
  assumes "Open io f = (Inr db, f2)"
  shows "os_schema io = None" "migrateCrawlState io (snd (execSchema None f)) = (None, f2)" "db = readDB f2"
  using assms by (auto simp: Open_def execSchema_def split: option.splits prod.splits)

lemma Open_crawl:
  assumes "Open io f = (Inr db, f2)"
  defines "t \<equiv> (case f_crawl f of None \<Rightarrow> freshCrawl | Some r \<Rightarrow> r)"
  shows "f_crawl f2 = Some (if ''last_full_sweep'' \<in> set (ct_columns t) then t else addColumn ''last_full_sweep'' t)"
    "f_seen f2 = createIfMissing [] (f_seen f)" "f_allowed f2 = createIfMissing [] (f_allowed f)"
    "f_scheduled f2 = createIfMissing [] (f_scheduled f)" "f_dueIndex f2"
proof -
  have c: "f_crawl (snd (execSchema None f)) = Some t" by (simp add: schema_effect createIfMissing_the t_def)
  note r = migrate_result[OF Open_result(2)[OF assms(1)] c]
  show "f_crawl f2 = Some (if ''last_full_sweep'' \<in> set (ct_columns t) then t else addColumn ''last_full_sweep'' t)"
    using r c by simp
  show "f_seen f2 = createIfMissing [] (f_seen f)" "f_allowed f2 = createIfMissing [] (f_allowed f)"
    "f_scheduled f2 = createIfMissing [] (f_scheduled f)" "f_dueIndex f2"
    using r by (simp_all add: schema_effect)
qed

lemma fileOK_table: "fileOK f \<Longrightarrow> tableOK (case f_crawl f of None \<Rightarrow> freshCrawl | Some r \<Rightarrow> r)"
  by (auto simp: fileOK_def split: option.splits)

lemma ready_Open:
  assumes "fileOK f" "Open io f = (Inr db, f2)"
  shows "ready f2"
  using Open_crawl[OF assms(2)] fileOK_table[OF assms(1)] addColumn_ok[of _ "''last_full_sweep''"]
  by (auto simp: ready_def)

lemma readDB_Open:
  assumes "fileOK f" "Open io f = (Inr db, f2)"
  shows "db = readDB f"
proof -
  let ?t = "case f_crawl f of None \<Rightarrow> freshCrawl | Some r \<Rightarrow> r"
  have "crawlRows (the (f_crawl f2)) = crawlRows ?t"
    using Open_crawl(1)[OF assms(2)] crawlRows_addColumn[OF fileOK_table[OF assms(1)]] by simp
  then show ?thesis
    using Open_crawl[OF assms(2)] Open_result(3)[OF assms(2)]
    by (auto simp: readDB_def createIfMissing_the split: option.splits)
qed

lemma Open_ready:
  assumes "ready f" "Open io f = (Inr db, f2)"
  shows "f2 = f"
proof -
  obtain t where t: "f_crawl f = Some t" "''last_full_sweep'' \<in> set (ct_columns t)" using assms(1) by (auto simp: ready_def)
  have "snd (execSchema None f) = f" using assms(1) t by (cases f) (auto simp: schema_effect ready_def)
  then show ?thesis using migrate_result[OF Open_result(2)[OF assms(2)], of t] t by simp
qed

section \<open>Properties\<close>

text \<open>C27. Opening a control database, one an older release wrote included, loses nothing: a
  successful Open leaves every table and every column the queries need, the rows they read are the
  rows of the file (a missing sweep time reads as never swept), and opening the file again changes
  nothing.\<close>

theorem control_open_migrates:
  assumes "fileOK f" "Open io f = (Inr db, f2)"
  shows "ready f2 \<and> db = readDB f \<and> (\<forall>io' db' f3. Open io' f2 = (Inr db', f3) \<longrightarrow> f3 = f2 \<and> db' = db)"
proof (intro conjI allI impI)
  show ready: "ready f2" by (rule ready_Open[OF assms])
  show db: "db = readDB f" by (rule readDB_Open[OF assms])
  fix io' db' f3
  assume again: "Open io' f2 = (Inr db', f3)"
  show "f3 = f2" by (rule Open_ready[OF ready again])
  then show "db' = db" using Open_result(3)[OF again] Open_result(3)[OF assms(2)] by simp
qed

definition old_file :: control_file where
  "old_file = \<lparr>f_crawl = Some \<lparr>ct_columns = [''last_fetched'', ''updated_at''], ct_rows = [(''aa'', [500, 501])]\<rparr>,
     f_scheduled = Some [], f_dueIndex = True, f_seen = Some [\<lparr>sr_id = ''e1'', sr_created_at = 7\<rparr>], f_allowed = None\<rparr>"

definition sound_io :: open_io where
  "sound_io = \<lparr>os_open = None, os_schema = None, os_tableInfo = None, os_scan = (\<lambda>i. None), os_rowsErr = None, os_alter = None\<rparr>"

theorem control_open_migrates_witness:
  "(\<exists>f2. Open sound_io old_file = (Inr (readDB old_file), f2) \<and> ready f2 \<and> f2 \<noteq> old_file) \<and>
   LastFetched None ''aa'' (readDB old_file) = Inr 500 \<and> LastSwept None ''aa'' (readDB old_file) = Inr 0"
proof -
  obtain db f2 where run: "Open sound_io old_file = (Inr db, f2)"
    by (simp add: Open_def sound_io_def migrateCrawlState_def schema_effect old_file_def tableInfo_def)
  have ok: "fileOK old_file" by (simp add: fileOK_def old_file_def tableOK_def)
  have "ready f2" "db = readDB old_file" using control_open_migrates[OF ok run] by simp_all
  moreover from this have "f2 \<noteq> old_file" by (auto simp: ready_def old_file_def)
  moreover have "LastFetched None ''aa'' (readDB old_file) = Inr 500 \<and> LastSwept None ''aa'' (readDB old_file) = Inr 0"
    by code_simp
  ultimately show ?thesis using run by blast
qed

end
