(* ===== verification/Dedup.thy ===== *)
theory Dedup
  imports Control Event_Row
begin

text \<open>
  The shared deduplication layer (\<open>internal/crawler/dedup.go\<close>): a two-generation in-memory
  cache of event ids with its rotation, the bounded queue of durable \<open>seen_events\<close> writes, its
  writer goroutine and the drain at shutdown. The key of the cache is the 32-byte value of the
  hex id, a byte string here; the Go maps used as sets are sets. The package variable
  \<open>memCap\<close> is a field of the record, as tests change it. The writes go to the control database
  of \<open>Control\<close>; the time of a mark is an argument.
\<close>

type_synonym event_key = string

record dedup =
  d_memCap :: nat
  d_cur :: "event_key set"
  d_prev :: "event_key set"
  d_writeQ :: "SeenRef list list"
  d_droppedWrites :: nat
  d_droppedBadID :: nat
  d_lastEvent :: instant
  d_writerRunning :: bool

section \<open>Definitions\<close>

subsection \<open>Event ids\<close>

definition hexVal :: "char \<Rightarrow> nat option" where
  "hexVal c =
     (if between 48 57 c then Some (byte c - 48)
      else if between 97 102 c then Some (byte c - 97 + 10)
      else if between 65 70 c then Some (byte c - 65 + 10)
      else None)"

fun hexDecode :: "string \<Rightarrow> string option" where
  "hexDecode [] = Some []"
| "hexDecode [a] = None"
| "hexDecode (a # b # cs) =
     (case (hexVal a, hexVal b, hexDecode cs) of
        (Some h, Some l, Some bs) \<Rightarrow> Some (char_of (16 * h + l) # bs)
      | _ \<Rightarrow> None)"

definition parseEventID :: "string \<Rightarrow> event_key option" where
  "parseEventID i = (if length i \<noteq> 64 then None else hexDecode i)"

text \<open>\<open>hex.EncodeToString\<close>, the form in which ids are published.\<close>

definition hexEncode :: "string \<Rightarrow> string" where
  "hexEncode bs = concat (map (\<lambda>c. [hexDigit (byte c div 16), hexDigit (byte c mod 16)]) bs)"

subsection \<open>The cache\<close>

definition memCap :: nat where "memCap = 2000000"
definition writeQueueCap :: nat where "writeQueueCap = 64"

definition NewDedup :: "nat \<Rightarrow> dedup" where
  "NewDedup cap =
     \<lparr>d_memCap = cap, d_cur = {}, d_prev = {}, d_writeQ = [], d_droppedWrites = 0, d_droppedBadID = 0,
      d_lastEvent = 0, d_writerRunning = False\<rparr>"

definition Warm :: "fault \<Rightarrow> control_db \<Rightarrow> dedup \<Rightarrow> fault \<times> dedup" where
  "Warm flt db d =
     (case LoadRecentSeen flt (d_memCap d) db of
        Inl e \<Rightarrow> (Some e, d)
      | Inr ids \<Rightarrow> (None, d\<lparr>d_cur := d_cur d \<union> set (List.map_filter parseEventID ids)\<rparr>))"

definition Seen :: "string \<Rightarrow> dedup \<Rightarrow> bool" where
  "Seen i d = (case parseEventID i of None \<Rightarrow> False | Some key \<Rightarrow> key \<in> d_cur d \<or> key \<in> d_prev d)"

definition insertLocked :: "instant \<Rightarrow> event_key \<Rightarrow> dedup \<Rightarrow> dedup" where
  "insertLocked now key d =
     (let cur = insert key (d_cur d); d1 = d\<lparr>d_lastEvent := now, d_cur := cur\<rparr> in
      if card cur \<ge> d_memCap d1 then d1\<lparr>d_prev := cur, d_cur := {}\<rparr> else d1)"

definition Mark :: "instant \<Rightarrow> string \<Rightarrow> dedup \<Rightarrow> dedup" where
  "Mark now i d = (case parseEventID i of None \<Rightarrow> d | Some key \<Rightarrow> insertLocked now key d)"

definition CheckAndMark :: "instant \<Rightarrow> string \<Rightarrow> dedup \<Rightarrow> bool \<times> dedup" where
  "CheckAndMark now i d =
     (case parseEventID i of
        None \<Rightarrow> (True, d)
      | Some key \<Rightarrow>
          if key \<in> d_cur d then (False, d)
          else if key \<in> d_prev d then (False, d)
          else (True, insertLocked now key d))"

fun MarkMany :: "instant \<Rightarrow> string list \<Rightarrow> dedup \<Rightarrow> dedup" where
  "MarkMany now [] d = d"
| "MarkMany now (i # ids) d =
     MarkMany now ids (case parseEventID i of None \<Rightarrow> d | Some key \<Rightarrow> insertLocked now key d)"

definition Unmark :: "string \<Rightarrow> dedup \<Rightarrow> dedup" where
  "Unmark i d =
     (case parseEventID i of
        None \<Rightarrow> d
      | Some key \<Rightarrow> d\<lparr>d_cur := d_cur d - {key}, d_prev := d_prev d - {key}\<rparr>)"

definition DroppedWrites :: "dedup \<Rightarrow> nat" where "DroppedWrites d = d_droppedWrites d"
definition DroppedBadID :: "dedup \<Rightarrow> nat" where "DroppedBadID d = d_droppedBadID d"

definition LastEventAgo :: "instant \<Rightarrow> dedup \<Rightarrow> duration" where
  "LastEventAgo now d = (if d_lastEvent d = 0 then 0 else now - d_lastEvent d)"

subsection \<open>The durable writes\<close>

definition seenRef :: "event \<Rightarrow> SeenRef" where
  "seenRef ev = \<lparr>sr_id = ev_id ev, sr_created_at = ev_created_at ev\<rparr>"

definition OnFlushed :: "instant \<Rightarrow> event list \<Rightarrow> dedup \<Rightarrow> dedup" where
  "OnFlushed now events d =
     (if events = [] then d
      else
        let d1 = MarkMany now (map ev_id events) d in
        if length (d_writeQ d1) < writeQueueCap
        then d1\<lparr>d_writeQ := d_writeQ d1 @ [map seenRef events]\<rparr>
        else d1\<lparr>d_droppedWrites := Suc (d_droppedWrites d1)\<rparr>)"

definition StartWriter :: "dedup \<Rightarrow> dedup" where
  "StartWriter d = (if d_writerRunning d then d else d\<lparr>d_writerRunning := True\<rparr>)"

text \<open>One iteration of \<open>writeLoop\<close> that takes a batch; a failed write is only logged.\<close>

definition writeOne :: "fault \<Rightarrow> dedup \<times> control_db \<Rightarrow> dedup \<times> control_db" where
  "writeOne flt = (\<lambda>(d, db). case d_writeQ d of
     [] \<Rightarrow> (d, db)
   | batch # rest \<Rightarrow> (d\<lparr>d_writeQ := rest\<rparr>, snd (MarkSeenBatch flt batch db)))"

text \<open>How the drain deals with a batch: the deadline has passed before it, it is written, the
  write fails, or the write fails because the deadline passed.\<close>

datatype drain_outcome = Expired | DrainWritten | DrainFailed string | DrainTimedOut string

definition dropDrainBatch :: "dedup \<Rightarrow> dedup" where
  "dropDrainBatch d = d\<lparr>d_droppedWrites := Suc (d_droppedWrites d)\<rparr>"

fun dropRemaining :: "SeenRef list list \<Rightarrow> dedup \<Rightarrow> dedup" where
  "dropRemaining [] d = d\<lparr>d_writeQ := []\<rparr>"
| "dropRemaining (batch # rest) d = dropRemaining rest (dropDrainBatch d)"

fun drainLoop :: "drain_outcome list \<Rightarrow> SeenRef list list \<Rightarrow> dedup \<Rightarrow> control_db \<Rightarrow> (dedup \<times> control_db) option" where
  "drainLoop ocs [] d db = Some (d\<lparr>d_writeQ := []\<rparr>, db)"
| "drainLoop [] (batch # rest) d db = None"
| "drainLoop (oc # ocs) (batch # rest) d db =
     (case oc of
        Expired \<Rightarrow> Some (dropRemaining rest (dropDrainBatch d), db)
      | DrainWritten \<Rightarrow> drainLoop ocs rest d (snd (MarkSeenBatch None batch db))
      | DrainFailed e \<Rightarrow> drainLoop ocs rest (dropDrainBatch d) (snd (MarkSeenBatch (Some e) batch db))
      | DrainTimedOut e \<Rightarrow>
          Some (dropRemaining rest (dropDrainBatch d), snd (MarkSeenBatch (Some e) batch db)))"

definition drainQueued :: "drain_outcome list \<Rightarrow> dedup \<Rightarrow> control_db \<Rightarrow> (dedup \<times> control_db) option" where
  "drainQueued ocs d db = drainLoop ocs (d_writeQ d) d db"

definition StopWriter :: "drain_outcome list \<Rightarrow> dedup \<Rightarrow> control_db \<Rightarrow> (dedup \<times> control_db) option" where
  "StopWriter ocs d db =
     (if \<not> d_writerRunning d then Some (d, db)
      else map_option (\<lambda>(d1, db1). (d1\<lparr>d_writerRunning := False\<rparr>, db1)) (drainQueued ocs d db))"

subsection \<open>Pruning\<close>

definition DefaultSeenCap :: int where "DefaultSeenCap = 20000000"
definition DefaultPruneEvery :: duration where "DefaultPruneEvery = hour"
definition DefaultPruneMaxAge :: duration where "DefaultPruneMaxAge = 7 * 24 * hour"

definition StartPrune :: "duration \<Rightarrow> int \<Rightarrow> duration \<times> int \<times> duration" where
  "StartPrune every cap =
     (if every \<le> 0 then DefaultPruneEvery else every, if cap \<le> 0 then DefaultSeenCap else cap, DefaultPruneMaxAge)"

text \<open>One tick of \<open>pruneLoop\<close>: both prunes run, whatever the first returned.\<close>

definition pruneTick :: "fault \<Rightarrow> fault \<Rightarrow> (nat \<Rightarrow> fault) \<Rightarrow> instant \<Rightarrow> int \<Rightarrow> duration \<Rightarrow> control_db \<Rightarrow> control_db" where
  "pruneTick ageFault countFault chunkFault now cap maxAge db =
     snd (snd (PruneSeenByRowid countFault chunkFault pruneSeenChunk cap (snd (PruneSeen ageFault now maxAge db))))"

text \<open>The cache's bounds.\<close>

definition dinv :: "dedup \<Rightarrow> bool" where
  "dinv d \<longleftrightarrow> finite (d_cur d) \<and> finite (d_prev d) \<and> card (d_cur d) \<le> d_memCap d \<and>
     card (d_prev d) \<le> Suc (d_memCap d) \<and> length (d_writeQ d) \<le> writeQueueCap"

text \<open>The calls of the ingest paths and the writer.\<close>

inductive dstep :: "dedup \<times> control_db \<Rightarrow> dedup \<times> control_db \<Rightarrow> bool" where
  d_mark: "dstep (d, db) (Mark now i d, db)"
| d_check: "dstep (d, db) (snd (CheckAndMark now i d), db)"
| d_many: "dstep (d, db) (MarkMany now ids d, db)"
| d_unmark: "dstep (d, db) (Unmark i d, db)"
| d_flushed: "dstep (d, db) (OnFlushed now events d, db)"
| d_write: "dstep (d, db) (writeOne flt (d, db))"
| d_prune: "dstep (d, db) (d, pruneTick f1 f2 f3 now cap maxAge db)"

section \<open>Lemmas\<close>

lemma hexVal_digit: "n < 16 \<Longrightarrow> hexVal (hexDigit n) = Some n"
proof -
  have "\<forall>n \<in> {..< 16}. hexVal (hexDigit n) = Some n" by code_simp
  then show "n < 16 \<Longrightarrow> hexVal (hexDigit n) = Some n" by simp
qed

lemma hexDecode_encode: "hexDecode (hexEncode bs) = Some bs"
proof (induction bs)
  case (Cons c cs)
  have c: "byte c < 256" by simp
  then have "hexVal (hexDigit (byte c div 16)) = Some (byte c div 16)" by (intro hexVal_digit) linarith
  moreover have "hexVal (hexDigit (byte c mod 16)) = Some (byte c mod 16)" by (intro hexVal_digit) simp
  moreover have "char_of (16 * (byte c div 16) + byte c mod 16) = c" by simp
  ultimately show ?case using Cons.IH by (simp add: hexEncode_def)
qed (simp add: hexEncode_def)

lemma hexDecode_length: "hexDecode s = Some bs \<Longrightarrow> length s = 2 * length bs"
  by (induction s arbitrary: bs rule: hexDecode.induct) (auto split: option.splits)

lemma hexEncode_length: "length (hexEncode bs) = 2 * length bs"
  by (induction bs) (simp_all add: hexEncode_def)

lemma insertLocked_cap [simp]: "d_memCap (insertLocked now k d) = d_memCap d" "d_writeQ (insertLocked now k d) = d_writeQ d"
  by (simp_all add: insertLocked_def Let_def)

lemma insertLocked_dinv: "dinv d \<Longrightarrow> dinv (insertLocked now k d)"
  by (auto simp: dinv_def insertLocked_def Let_def card_insert_if)

lemma MarkMany_dinv: "dinv d \<Longrightarrow> dinv (MarkMany now ids d)"
  by (induction ids arbitrary: d) (auto split: option.splits intro: insertLocked_dinv)

lemma MarkMany_queue [simp]: "d_writeQ (MarkMany now ids d) = d_writeQ d"
  by (induction ids arbitrary: d) (auto split: option.splits)

lemma Unmark_dinv: "dinv d \<Longrightarrow> dinv (Unmark i d)"
  by (auto simp: dinv_def Unmark_def split: option.splits intro: le_trans[OF card_Diff1_le])

lemma OnFlushed_dinv: "dinv d \<Longrightarrow> dinv (OnFlushed now events d)"
  using MarkMany_dinv[of d now "map ev_id events"] by (auto simp: OnFlushed_def Let_def dinv_def)

lemma Mark_dinv: "dinv d \<Longrightarrow> dinv (Mark now i d)"
  by (auto simp: Mark_def split: option.splits intro: insertLocked_dinv)

lemma CheckAndMark_dinv: "dinv d \<Longrightarrow> dinv (snd (CheckAndMark now i d))"
  by (auto simp: CheckAndMark_def split: option.splits intro: insertLocked_dinv)

lemma Warm_dinv:
  assumes "Warm flt db (NewDedup cap) = (err, d)"
  shows "dinv d \<and> d_memCap d = cap"
proof -
  have "card (set (List.map_filter parseEventID xs)) \<le> length xs" for xs
    using card_length[of "List.map_filter parseEventID xs"]
    by (simp add: map_filter_def) (meson le_trans length_filter_le)
  from this[of "take cap (map sr_id (rev (c_seen db)))"]
  have "card (set (List.map_filter parseEventID (take cap (map sr_id (rev (c_seen db)))))) \<le> cap" by simp
  then show ?thesis using assms
    by (auto simp: Warm_def NewDedup_def LoadRecentSeen_def dinv_def split: option.splits)
qed

lemma dstep_dinv: "dstep p q \<Longrightarrow> dinv (fst p) \<Longrightarrow> dinv (fst q)"
proof (induction rule: dstep.induct)
  case (d_write d db flt)
  then show ?case by (auto simp: writeOne_def dinv_def split: list.splits)
qed (simp_all add: Mark_dinv CheckAndMark_dinv MarkMany_dinv Unmark_dinv OnFlushed_dinv)

lemma dsteps_dinv: "dstep\<^sup>*\<^sup>* p q \<Longrightarrow> dinv (fst p) \<Longrightarrow> dinv (fst q)"
  by (induction rule: rtranclp_induct) (auto intro: dstep_dinv)

section \<open>What the ingest paths rely on\<close>

text \<open>A filter of seen ids that concurrent ingest paths race on: \<open>claim\<close> has one winner, a
  winner's id is seen from then on, and \<open>forget\<close> makes the id claimable again. Malformed ids
  are never seen.\<close>

locale seen_filter =
  fixes wellformed :: "string \<Rightarrow> bool" and seen :: "string \<Rightarrow> 'd \<Rightarrow> bool"
    and claim :: "string \<Rightarrow> 'd \<Rightarrow> bool \<times> 'd" and forget :: "string \<Rightarrow> 'd \<Rightarrow> 'd"
  assumes claim_unseen: "fst (claim i d) \<longleftrightarrow> \<not> seen i d"
    and claim_marks: "wellformed i \<Longrightarrow> seen i (snd (claim i d))"
    and claim_loses: "\<not> fst (claim i d) \<Longrightarrow> snd (claim i d) = d"
    and forget_unseen: "\<not> seen i (forget i d)"
    and malformed_unseen: "\<not> wellformed i \<Longrightarrow> \<not> seen i d"
begin

lemma one_winner: "wellformed i \<Longrightarrow> claim i (snd (claim i d)) = (False, snd (claim i d))"
  using claim_unseen[of i "snd (claim i d)"] claim_marks[of i d] claim_loses[of i "snd (claim i d)"]
  by (simp add: prod_eq_iff)

lemma forgotten_claimable: "fst (claim i (forget i d))"
  using claim_unseen[of i "forget i d"] forget_unseen[of i d] by simp

lemma malformed_always_wins: "\<not> wellformed i \<Longrightarrow> fst (claim i d)"
  using claim_unseen malformed_unseen by blast

end

definition validID :: "string \<Rightarrow> bool" where
  "validID i \<longleftrightarrow> parseEventID i \<noteq> None"

interpretation cache: seen_filter validID Seen "CheckAndMark now" Unmark for now
proof
  show "fst (CheckAndMark now i d) \<longleftrightarrow> \<not> Seen i d" for i d
    by (simp add: CheckAndMark_def Seen_def split: option.splits)
  show "validID i \<Longrightarrow> Seen i (snd (CheckAndMark now i d))" for i d
    by (auto simp: CheckAndMark_def Seen_def validID_def insertLocked_def Let_def split: option.splits)
  show "\<not> fst (CheckAndMark now i d) \<Longrightarrow> snd (CheckAndMark now i d) = d" for i d
    by (auto simp: CheckAndMark_def split: option.splits if_splits)
  show "\<not> Seen i (Unmark i d)" for i d by (simp add: Seen_def Unmark_def split: option.splits)
  show "\<not> validID i \<Longrightarrow> \<not> Seen i d" for i d by (simp add: validID_def Seen_def)
qed

section \<open>Retention\<close>

datatype dedup_call = CallMark string | CallCheck string | CallUnmark string

fun runCall :: "instant \<Rightarrow> dedup_call \<Rightarrow> dedup \<Rightarrow> dedup" where
  "runCall now (CallMark i) d = Mark now i d"
| "runCall now (CallCheck i) d = snd (CheckAndMark now i d)"
| "runCall now (CallUnmark i) d = Unmark i d"

fun marks :: "dedup_call \<Rightarrow> bool" where
  "marks (CallUnmark i) = False"
| "marks _ = True"

fun unmarks :: "event_key \<Rightarrow> dedup_call \<Rightarrow> bool" where
  "unmarks k (CallUnmark i) \<longleftrightarrow> parseEventID i = Some k"
| "unmarks k _ \<longleftrightarrow> False"

text \<open>The key will survive \<open>n\<close> more insertions: it is in the current generation, or in the
  previous one with room left in the current.\<close>

definition safe_for :: "event_key \<Rightarrow> nat \<Rightarrow> dedup \<Rightarrow> bool" where
  "safe_for k n d \<longleftrightarrow> finite (d_cur d) \<and> n < d_memCap d \<and>
     (k \<in> d_cur d \<or> (k \<in> d_prev d \<and> card (d_cur d) + n < d_memCap d))"

lemma safe_insert: "safe_for k (Suc n) d \<Longrightarrow> safe_for k n (insertLocked now j d)"
  by (auto simp: safe_for_def insertLocked_def Let_def card_insert_if)

lemma safe_less: "safe_for k (Suc n) d \<Longrightarrow> safe_for k n d"
  by (auto simp: safe_for_def)

lemma safe_unmark:
  assumes "safe_for k n d" "parseEventID i \<noteq> Some k"
  shows "safe_for k n (Unmark i d)"
proof (cases "parseEventID i")
  case (Some j)
  have "card (d_cur d - {j}) \<le> card (d_cur d)" by (rule card_Diff1_le)
  then show ?thesis using assms Some by (auto simp: safe_for_def Unmark_def)
qed (use assms in \<open>simp add: Unmark_def\<close>)

lemma safe_call:
  assumes "\<not> unmarks k c" "safe_for k (n + (if marks c then 1 else 0)) d"
  shows "safe_for k n (runCall now c d)"
proof (cases "marks c")
  case True
  then have "safe_for k (Suc n) d" using assms(2) by simp
  note safe = safe_insert[OF this] safe_less[OF this]
  show ?thesis using True safe by (cases c) (simp_all add: Mark_def CheckAndMark_def split: option.splits)
next
  case False
  then show ?thesis using assms by (cases c) (simp_all add: safe_unmark)
qed

lemma safe_calls:
  assumes "list_all (\<lambda>c. \<not> unmarks k c) cs" "safe_for k (length (filter marks cs) + n) d"
  shows "safe_for k n (fold (runCall now) cs d)"
  using assms
proof (induction cs arbitrary: d)
  case (Cons c cs)
  have "safe_for k (length (filter marks cs) + n) (runCall now c d)"
    using Cons.prems safe_call[of k c "length (filter marks cs) + n" d now] by (auto split: if_splits)
  then show ?case using Cons.IH Cons.prems(1) by simp
qed simp

section \<open>Draining\<close>

lemma dropRemaining_spec:
  "dropRemaining q d = d\<lparr>d_writeQ := [], d_droppedWrites := d_droppedWrites d + length q\<rparr>"
  by (induction q arbitrary: d) (simp_all add: dropDrainBatch_def)

lemma MarkSeenBatch_ok: "snd (MarkSeenBatch None batch db) = db\<lparr>c_seen := fold (insertIgnore sr_id) batch (c_seen db)\<rparr>"
  by (simp add: MarkSeenBatch_def)

lemma MarkSeenBatch_fails: "snd (MarkSeenBatch (Some e) batch db) = db"
  by (simp add: MarkSeenBatch_def)

lemma drainLoop_spec:
  assumes "drainLoop ocs q d db = Some (d', db')"
  shows "\<exists>ws. subseq ws q \<and> db' = db\<lparr>c_seen := fold (insertIgnore sr_id) (concat ws) (c_seen db)\<rparr> \<and>
    d_writeQ d' = [] \<and> d_droppedWrites d' + length ws = d_droppedWrites d + length q \<and>
    d_cur d' = d_cur d \<and> d_prev d' = d_prev d"
  using assms
proof (induction ocs q d db rule: drainLoop.induct)
  case (3 oc ocs batch rest d db)
  show ?case
  proof (cases oc)
    case DrainWritten
    then obtain ws where "subseq ws rest"
      "db' = (snd (MarkSeenBatch None batch db))\<lparr>c_seen := fold (insertIgnore sr_id) (concat ws) (c_seen (snd (MarkSeenBatch None batch db)))\<rparr>"
      "d_writeQ d' = []" "d_droppedWrites d' + length ws = d_droppedWrites d + length rest"
      "d_cur d' = d_cur d" "d_prev d' = d_prev d"
      using 3 by auto
    then show ?thesis by (intro exI[of _ "batch # ws"]) (simp add: MarkSeenBatch_ok)
  next
    case (DrainFailed e)
    then obtain ws where "subseq ws rest" "db' = db\<lparr>c_seen := fold (insertIgnore sr_id) (concat ws) (c_seen db)\<rparr>"
      "d_writeQ d' = []" "d_droppedWrites d' + length ws = Suc (d_droppedWrites d) + length rest"
      "d_cur d' = d_cur d" "d_prev d' = d_prev d"
      using 3 by (auto simp: MarkSeenBatch_fails dropDrainBatch_def)
    then show ?thesis by (intro exI[of _ ws]) (simp add: subseq_Cons2_iff list_emb_Cons)
  next
    case Expired
    with 3 show ?thesis by (intro exI[of _ "[]"]) (auto simp: dropRemaining_spec dropDrainBatch_def)
  next
    case (DrainTimedOut e)
    with 3 show ?thesis
      by (intro exI[of _ "[]"]) (auto simp: dropRemaining_spec dropDrainBatch_def MarkSeenBatch_fails)
  qed
qed auto

lemma drainLoop_ends: "length q \<le> length ocs \<Longrightarrow> \<exists>r. drainLoop ocs q d db = Some r"
  by (induction ocs q d db rule: drainLoop.induct) (auto split: drain_outcome.splits)

section \<open>Properties\<close>

definition demo_id :: string where "demo_id = concat (replicate 32 ''ab'')"
definition demo_id2 :: string where "demo_id2 = concat (replicate 32 ''cd'')"

text \<open>The cache of seen ids is bounded: from a cold or warmed start, through any sequence
  of marks, checks, unmarks, flush notifications, durable writes and prunes, the current
  generation never exceeds \<open>memCap\<close> ids, the previous one \<open>memCap + 1\<close>, and the write queue
  64 batches.\<close>

theorem dedup_bounded:
  assumes "dstep\<^sup>*\<^sup>* (d, db) (d', db')" "d = NewDedup cap \<or> (\<exists>flt err. Warm flt db (NewDedup cap) = (err, d))"
  shows "card (d_cur d') \<le> d_memCap d' \<and> card (d_prev d') \<le> Suc (d_memCap d') \<and> length (d_writeQ d') \<le> writeQueueCap"
proof -
  have "dinv (NewDedup cap)" by (simp add: dinv_def NewDedup_def)
  then have "dinv d" using assms(2) Warm_dinv by blast
  then have "dinv (fst (d, db))" by simp
  then have "dinv (fst (d', db'))" by (rule dsteps_dinv[OF assms(1)])
  then show ?thesis by (simp add: dinv_def)
qed

theorem dedup_bounded_witness:
  "dstep\<^sup>*\<^sup>* (NewDedup 2, emptyDB) (snd (CheckAndMark 5 demo_id (NewDedup 2)), emptyDB) \<and>
   card (d_cur (snd (CheckAndMark 5 demo_id (NewDedup 2)))) \<le> d_memCap (snd (CheckAndMark 5 demo_id (NewDedup 2)))"
proof -
  have r: "dstep\<^sup>*\<^sup>* (NewDedup 2, emptyDB) (snd (CheckAndMark 5 demo_id (NewDedup 2)), emptyDB)"
    by (intro r_into_rtranclp dstep.d_check)
  then show ?thesis using dedup_bounded[OF r, of 2] by blast
qed

text \<open>A marked id is remembered: after an id has been marked it is reported as seen, and
  loses every further \<open>CheckAndMark\<close>, throughout any sequence of other calls with fewer than
  \<open>memCap\<close> marks or checks among them, unless its own mark is removed.\<close>

theorem dedup_remembers:
  assumes "parseEventID i = Some k" "finite (d_cur d)"
    "list_all (\<lambda>c. \<not> unmarks k c) cs" "length (filter marks cs) < d_memCap d"
  shows "Seen i (fold (runCall now) cs (Mark now0 i d)) \<and> \<not> fst (CheckAndMark now i (fold (runCall now) cs (Mark now0 i d)))"
proof -
  have "safe_for k (length (filter marks cs) + 0) (Mark now0 i d)"
    using assms(1,2,4) by (auto simp: safe_for_def Mark_def insertLocked_def Let_def)
  then have "safe_for k 0 (fold (runCall now) cs (Mark now0 i d))" by (rule safe_calls[OF assms(3)])
  then have "Seen i (fold (runCall now) cs (Mark now0 i d))" using assms(1) by (auto simp: safe_for_def Seen_def)
  then show ?thesis using cache.claim_unseen by simp
qed

lemma hexDecode_replicate:
  "hexVal a = Some h \<Longrightarrow> hexVal b = Some l \<Longrightarrow>
    hexDecode (concat (replicate n [a, b])) = Some (replicate n (char_of (16 * h + l)))"
  by (induction n) simp_all

lemma demo_keys:
  "parseEventID demo_id = Some (replicate 32 (CHR 0xAB))" "parseEventID demo_id2 = Some (replicate 32 (CHR 0xCD))"
proof -
  have vals: "hexVal CHR ''a'' = Some 10" "hexVal CHR ''b'' = Some 11" "hexVal CHR ''c'' = Some 12" "hexVal CHR ''d'' = Some 13"
    by code_simp+
  have keys: "char_of (16 * 10 + 11 :: nat) = CHR 0xAB" "char_of (16 * 12 + 13 :: nat) = CHR 0xCD" by code_simp+
  have len: "length (concat (replicate 32 [a, b])) = 64" for a b :: char by (simp add: length_concat sum_list_replicate)
  show "parseEventID demo_id = Some (replicate 32 (CHR 0xAB))"
    unfolding parseEventID_def demo_id_def len using hexDecode_replicate[OF vals(1,2), unfolded keys] by simp
  show "parseEventID demo_id2 = Some (replicate 32 (CHR 0xCD))"
    unfolding parseEventID_def demo_id2_def len using hexDecode_replicate[OF vals(3,4), unfolded keys] by simp
qed

lemma demo_ids_valid: "\<exists>k. parseEventID demo_id = Some k" "parseEventID demo_id \<noteq> parseEventID demo_id2"
  unfolding demo_keys by (simp, simp add: replicate_eq_replicate)

theorem dedup_remembers_witness:
  "Seen demo_id (fold (runCall 2) [CallCheck demo_id2, CallUnmark demo_id2] (Mark 1 demo_id (NewDedup 2)))"
proof -
  obtain k where k: "parseEventID demo_id = Some k" using demo_ids_valid(1) by blast
  then have "list_all (\<lambda>c. \<not> unmarks k c) [CallCheck demo_id2, CallUnmark demo_id2]"
    using demo_ids_valid(2) by simp
  from dedup_remembers[OF k _ this, of "NewDedup 2"] show ?thesis by (simp add: NewDedup_def)
qed

text \<open>Stopping the writer loses no batch silently: the drain of the durable queue ends, every
  queued batch is either written to \<open>seen_events\<close>, in order, or counted as dropped, and the
  queue is empty afterwards.\<close>

theorem writer_drain_accounts:
  assumes "length (d_writeQ d) \<le> length ocs"
  shows "\<exists>d' db' ws. drainQueued ocs d db = Some (d', db') \<and> subseq ws (d_writeQ d) \<and>
    db' = db\<lparr>c_seen := fold (insertIgnore sr_id) (concat ws) (c_seen db)\<rparr> \<and> d_writeQ d' = [] \<and>
    DroppedWrites d' + length ws = DroppedWrites d + length (d_writeQ d)"
proof -
  obtain d' db' where r: "drainLoop ocs (d_writeQ d) d db = Some (d', db')"
    using drainLoop_ends[OF assms] by (metis prod.exhaust)
  from drainLoop_spec[OF r] r show ?thesis by (auto simp: drainQueued_def DroppedWrites_def)
qed

theorem writer_drain_accounts_witness:
  "let d = (NewDedup 2)\<lparr>d_writeQ := [[\<lparr>sr_id = ''a'', sr_created_at = 1\<rparr>], [\<lparr>sr_id = ''b'', sr_created_at = 2\<rparr>]]\<rparr> in
   \<exists>d' db' ws. drainQueued [DrainFailed ''io'', DrainWritten] d emptyDB = Some (d', db') \<and>
     subseq ws (d_writeQ d) \<and> DroppedWrites d' + length ws = 2"
proof -
  let ?d = "(NewDedup 2)\<lparr>d_writeQ := [[\<lparr>sr_id = ''a'', sr_created_at = 1\<rparr>], [\<lparr>sr_id = ''b'', sr_created_at = 2\<rparr>]]\<rparr>"
  have "DroppedWrites ?d + length (d_writeQ ?d) = 2" by (simp add: DroppedWrites_def NewDedup_def)
  moreover have "length (d_writeQ ?d) \<le> length [DrainFailed ''io'', DrainWritten]" by simp
  ultimately show ?thesis using writer_drain_accounts[of ?d "[DrainFailed ''io'', DrainWritten]" emptyDB]
    unfolding Let_def by metis
qed

text \<open>Ids are parsed faithfully: the published lower-case form of every 32-byte id parses
  back to it, and only 64-character ids parse, to 32 bytes.\<close>

theorem event_id_roundtrip:
  "(length bs = 32 \<longrightarrow> parseEventID (hexEncode bs) = Some bs) \<and>
   (parseEventID i = Some k \<longrightarrow> length i = 64 \<and> length k = 32)"
  using hexDecode_length[of i k] by (auto simp: parseEventID_def hexEncode_length hexDecode_encode split: if_splits)

theorem event_id_roundtrip_witness:
  "parseEventID (hexEncode (replicate 32 (CHR 0xAB))) = Some (replicate 32 (CHR 0xAB))"
  using event_id_roundtrip[of "replicate 32 (CHR 0xAB)"] by simp

end
