(* ===== verification/Ingest.thy ===== *)
theory Ingest
  imports Store Dedup
begin

text \<open>
  The shared ingestion step (\<open>internal/crawler/ingest.go\<close>) and the path of durable
  deduplication from a batcher's flush to \<open>seen_events\<close>. The checks of go-nostr (\<open>CheckID\<close>,
  \<open>CheckSignature\<close>) are parameters. \<open>ystep\<close> runs the store's components, the deduplicator and
  the control database together: the callback registered with \<open>SetOnFlushed\<close> is called by the
  batcher's worker with every chunk it stored.
\<close>

section \<open>Definitions\<close>

definition verifyEvent :: "(event \<Rightarrow> bool) \<Rightarrow> (event \<Rightarrow> bool) \<Rightarrow> event \<Rightarrow> bool \<times> bool" where
  "verifyEvent checkID checkSignature ev =
     (if \<not> checkID ev then (False, False) else (True, checkSignature ev))"

definition ingestStep :: "instant \<Rightarrow> override \<Rightarrow> (event \<Rightarrow> bool \<times> bool) \<Rightarrow> event \<Rightarrow> dedup \<times> store \<Rightarrow>
    bool \<times> dedup \<times> store" where
  "ingestStep now ov verify ev = (\<lambda>(d, s).
     case CheckAndMark now (ev_id ev) d of
       (False, d1) \<Rightarrow> (False, d1, s)
     | (True, d1) \<Rightarrow>
         if TierForKind (ev_kind ev) = TierDrop then (False, Unmark (ev_id ev) d1, s)
         else
           case verify ev of (idOK, sigOK) \<Rightarrow>
             if \<not> idOK then (False, (Unmark (ev_id ev) d1)\<lparr>d_droppedBadID := Suc (d_droppedBadID d1)\<rparr>, s)
             else if \<not> sigOK then (False, Unmark (ev_id ev) d1, s)
             else
               case SaveEvent ov ev s of
                 (Some err, s1) \<Rightarrow>
                   (if err = BatchErr ErrBatchFull then (False, Unmark (ev_id ev) d1, s1) else (False, d1, s1))
               | (None, s1) \<Rightarrow> (True, d1, s1))"

definition ingest :: "instant \<Rightarrow> override \<Rightarrow> (event \<Rightarrow> bool) \<Rightarrow> (event \<Rightarrow> bool) \<Rightarrow> event \<Rightarrow> dedup \<times> store \<Rightarrow>
    bool \<times> dedup \<times> store" where
  "ingest now ov checkID checkSignature ev p = ingestStep now ov (verifyEvent checkID checkSignature) ev p"

text \<open>A relay's event stream, one \<open>ingestStep\<close> per event.\<close>

fun ingestAll :: "instant \<Rightarrow> override \<Rightarrow> (event \<Rightarrow> bool \<times> bool) \<Rightarrow> event list \<Rightarrow> dedup \<times> store \<Rightarrow>
    bool list \<times> dedup \<times> store" where
  "ingestAll now ov verify [] p = ([], p)"
| "ingestAll now ov verify (ev # evs) p =
     (case ingestStep now ov verify ev p of (r, p1) \<Rightarrow>
        case ingestAll now ov verify evs p1 of (rs, p2) \<Rightarrow> (r # rs, p2))"

text \<open>The callback wired with \<open>SetOnFlushed\<close>: every chunk a worker step stored, in order.\<close>

definition flushedChunks :: "event batcher \<Rightarrow> event batcher \<Rightarrow> event list list" where
  "flushedChunks b b' = drop (length (b_flushed b)) (b_flushed b')"

inductive ystep :: "store \<times> dedup \<times> control_db \<Rightarrow> store \<times> dedup \<times> control_db \<Rightarrow> bool" where
  y_batcher: "s_tiers s t = Some b \<Longrightarrow> bstep b b' \<Longrightarrow>
     ystep (s, d, db)
       ((setTier t b' s)\<lparr>s_fw := fold offer (newOffers b b') (s_fw s)\<rparr>,
        fold (OnFlushed now) (flushedChunks b b') d, db)"
| y_tombstone: "tstep (s_tw s) w \<Longrightarrow> ystep (s, d, db) (s\<lparr>s_tw := w\<rparr>, d, db)"
| y_feed: "fstep (s_fw s) w \<Longrightarrow> fw_offered w = fw_offered (s_fw s) \<Longrightarrow> ystep (s, d, db) (s\<lparr>s_fw := w\<rparr>, d, db)"
| y_check: "ystep (s, d, db) (s, snd (CheckAndMark now i d), db)"
| y_mark: "ystep (s, d, db) (s, Mark now i d, db)"
| y_unmark: "ystep (s, d, db) (s, Unmark i d, db)"
| y_write: "writeOne flt (d, db) = (d', db') \<Longrightarrow> ystep (s, d, db) (s, d', db')"
| y_stop: "StopWriter ocs d db = Some (d', db') \<Longrightarrow> ystep (s, d, db) (s, d', db')"
| y_prune: "ystep (s, d, db) (s, d, pruneTick f1 f2 f3 now cap maxAge db)"

definition recordedIDs :: "dedup \<Rightarrow> control_db \<Rightarrow> string set" where
  "recordedIDs d db = sr_id ` set (c_seen db) \<union> sr_id ` set (concat (d_writeQ d))"

section \<open>Lemmas\<close>

lemma OnFlushed_queue:
  "set (concat (d_writeQ (OnFlushed now events d))) \<subseteq> set (concat (d_writeQ d)) \<union> seenRef ` set events"
  by (auto simp: OnFlushed_def Let_def)

lemma fold_OnFlushed_queue:
  "set (concat (d_writeQ (fold (OnFlushed now) chunks d))) \<subseteq> set (concat (d_writeQ d)) \<union> seenRef ` set (concat chunks)"
proof (induction chunks arbitrary: d)
  case (Cons c cs)
  show ?case using Cons.IH[of "OnFlushed now c d"] OnFlushed_queue[of now c d] by auto
qed simp

lemma fold_OnFlushed_ids:
  "sr_id ` set (concat (d_writeQ (fold (OnFlushed now) chunks d))) \<subseteq>
     sr_id ` set (concat (d_writeQ d)) \<union> ev_id ` set (concat chunks)"
proof -
  have "sr_id ` set (concat (d_writeQ (fold (OnFlushed now) chunks d))) \<subseteq>
      sr_id ` (set (concat (d_writeQ d)) \<union> seenRef ` set (concat chunks))"
    by (rule image_mono[OF fold_OnFlushed_queue])
  also have "\<dots> = sr_id ` set (concat (d_writeQ d)) \<union> ev_id ` set (concat chunks)"
    unfolding image_Un image_image by (simp only: seenRef_def SeenRef.select_convs)
  finally show ?thesis .
qed

lemma fold_OnFlushed_recorded:
  "recordedIDs (fold (OnFlushed now) chunks d) db \<subseteq> recordedIDs d db \<union> ev_id ` set (concat chunks)"
  unfolding recordedIDs_def Un_assoc by (intro Un_mono subset_refl fold_OnFlushed_ids)

lemma queue_unchanged [simp]:
  "d_writeQ (snd (CheckAndMark now i d)) = d_writeQ d" "d_writeQ (Mark now i d) = d_writeQ d"
  "d_writeQ (Unmark i d) = d_writeQ d"
  by (simp_all add: CheckAndMark_def Mark_def Unmark_def split: option.splits)

lemma MarkSeenBatch_ids: "sr_id ` set (c_seen (snd (MarkSeenBatch flt items db))) \<subseteq> sr_id ` set items \<union> sr_id ` set (c_seen db)"
  using fold_insertIgnore_image[of sr_id items "c_seen db"] by (auto simp: MarkSeenBatch_def split: option.splits)

lemma writeOne_recorded: "writeOne flt (d, db) = (d', db') \<Longrightarrow> recordedIDs d' db' \<subseteq> recordedIDs d db"
  using MarkSeenBatch_ids[of flt "hd (d_writeQ d)" db]
  by (auto simp: writeOne_def recordedIDs_def split: list.splits)

lemma StopWriter_recorded:
  assumes "StopWriter ocs d db = Some (d', db')"
  shows "recordedIDs d' db' \<subseteq> recordedIDs d db"
proof (cases "d_writerRunning d")
  case True
  then obtain d1 where r: "drainLoop ocs (d_writeQ d) d db = Some (d1, db')" "d' = d1\<lparr>d_writerRunning := False\<rparr>"
    using assms by (auto simp: StopWriter_def drainQueued_def)
  obtain ws where ws: "subseq ws (d_writeQ d)" "db' = db\<lparr>c_seen := fold (insertIgnore sr_id) (concat ws) (c_seen db)\<rparr>"
    "d_writeQ d1 = []" using drainLoop_spec[OF r(1)] by blast
  have "set ws \<subseteq> set (d_writeQ d)" using ws(1) by (auto simp: subseq_conv_nths dest: in_set_nthsD)
  then have "sr_id ` set (concat ws) \<subseteq> sr_id ` set (concat (d_writeQ d))" by auto
  then show ?thesis using fold_insertIgnore_image[of sr_id "concat ws" "c_seen db"] ws(2,3) r(2)
    by (auto simp: recordedIDs_def)
qed (use assms in \<open>simp add: StopWriter_def\<close>)

lemma pruneTick_recorded: "recordedIDs d (pruneTick f1 f2 f3 now cap maxAge db) \<subseteq> recordedIDs d db"
proof -
  let ?db = "snd (PruneSeen f1 now maxAge db)"
  have 1: "set (c_seen ?db) \<subseteq> set (c_seen db)" by (auto simp: PruneSeen_def Let_def split: option.splits)
  obtain n err db' where r: "PruneSeenByRowid f2 f3 pruneSeenChunk cap ?db = (n, err, db')" by (metis prod_cases3)
  have "set (c_seen db') \<subseteq> set (c_seen ?db)"
  proof (cases "cap \<le> 0 \<or> f2 \<noteq> None")
    case True
    then show ?thesis using r by (auto simp: PruneSeenByRowid_def split: if_splits)
  next
    case False
    then have "pruneChunks f3 pruneSeenChunk (nat cap) 0 (length (c_seen ?db)) 0 ?db = (n, err, db')"
      using r by (auto simp: PruneSeenByRowid_def)
    from pruneChunks_suffix[OF this] show ?thesis by (auto simp: pruneSeenChunk_def dest: in_set_dropD)
  qed
  with 1 show ?thesis using r by (auto simp: recordedIDs_def pruneTick_def)
qed

lemma flushedChunks_stored:
  assumes "bvalid b" "bstep b b'"
  shows "set (concat (flushedChunks b b')) \<subseteq> set (b_table b')"
proof -
  have "bvalid b'" by (rule bstep_valid[OF assms])
  then have "set (concat (b_flushed b')) \<subseteq> set (b_table b')" using bvalid_stored[of b'] by (simp add: bvalid_def durable_def)
  then show ?thesis by (fastforce simp: flushedChunks_def dest: in_set_dropD)
qed

text \<open>A step of the whole keeps the store's invariant and records only stored ids.\<close>

lemma ystep_store: "ystep p q \<Longrightarrow> sstep\<^sup>*\<^sup>* (fst p) (fst q)"
  by (induction rule: ystep.induct) (auto intro: r_into_rtranclp sstep.intros)

lemma sstep_stored: "sstep s s' \<Longrightarrow> stored s \<subseteq> stored s'"
proof (induction rule: sstep.induct)
  case (s_batcher s t b b')
  show ?case using stored_setTier[OF s_batcher(1) bstep_table[OF s_batcher(2)]] by (simp add: stored_def)
qed (simp_all add: stored_def)

lemma srun_stored: "sstep\<^sup>*\<^sup>* s s' \<Longrightarrow> stored s \<subseteq> stored s'"
  by (induction rule: rtranclp_induct) (use sstep_stored in blast)+

definition yinv :: "string set \<Rightarrow> store \<times> dedup \<times> control_db \<Rightarrow> bool" where
  "yinv K = (\<lambda>(s, d, db). sinv s \<and> recordedIDs d db \<subseteq> K \<union> ev_id ` stored s)"

lemma ystep_yinv: "ystep p q \<Longrightarrow> yinv K p \<Longrightarrow> yinv K q"
proof (induction rule: ystep.induct)
  case (y_batcher s t b b' d db now)
  let ?s = "(setTier t b' s)\<lparr>s_fw := fold offer (newOffers b b') (s_fw s)\<rparr>"
  have step: "sstep s ?s" using y_batcher by (intro sstep.s_batcher)
  have "bvalid b" using y_batcher by (auto simp: yinv_def sinv_def ran_def)
  from flushedChunks_stored[OF this y_batcher(2)] have "set (concat (flushedChunks b b')) \<subseteq> set (b_table b')" .
  also have "\<dots> \<subseteq> stored (setTier t b' s)"
    using stored_setTier[OF y_batcher(1) bstep_table[OF y_batcher(2)]] by simp
  also have "\<dots> = stored ?s" by (simp add: stored_def)
  finally have "set (concat (flushedChunks b b')) \<subseteq> stored ?s" .
  then have new: "ev_id ` set (concat (flushedChunks b b')) \<subseteq> ev_id ` stored ?s" by (rule image_mono)
  have "recordedIDs (fold (OnFlushed now) (flushedChunks b b') d) db \<subseteq>
      recordedIDs d db \<union> ev_id ` set (concat (flushedChunks b b'))" by (rule fold_OnFlushed_recorded)
  also have "\<dots> \<subseteq> (K \<union> ev_id ` stored s) \<union> ev_id ` stored ?s"
    by (rule Un_mono[OF _ new]) (use y_batcher.prems in \<open>simp add: yinv_def\<close>)
  also have "\<dots> = K \<union> ev_id ` stored ?s" using image_mono[OF sstep_stored[OF step], of ev_id] by (simp add: Un_assoc Un_absorb1)
  finally show ?case using sstep_sinv[OF step] y_batcher.prems unfolding yinv_def prod.case by (intro conjI) simp_all
next
  case (y_tombstone s w d db)
  then show ?case by (auto simp: yinv_def stored_def intro: sstep_sinv[OF sstep.s_tombstone])
next
  case (y_feed s w d db)
  then show ?case by (auto simp: yinv_def stored_def intro: sstep_sinv[OF sstep.s_feed])
next
  case (y_write flt d db d' db' s)
  then show ?case using writeOne_recorded by (fastforce simp: yinv_def)
next
  case (y_stop ocs d db d' db' s)
  then show ?case using StopWriter_recorded by (fastforce simp: yinv_def)
next
  case (y_prune s d db f1 f2 f3 now cap maxAge)
  then show ?case using pruneTick_recorded by (fastforce simp: yinv_def)
qed (simp_all add: yinv_def recordedIDs_def)

lemma ysteps_yinv: "ystep\<^sup>*\<^sup>* p q \<Longrightarrow> yinv K p \<Longrightarrow> yinv K q"
  by (induction rule: rtranclp_induct) (auto intro: ystep_yinv)

section \<open>The ingest step\<close>

lemma ingestStep_eq:
  "ingestStep now ov verify ev (d, s) =
     (if Seen (ev_id ev) d then (False, d, s)
      else
        let d1 = snd (CheckAndMark now (ev_id ev) d) in
        if TierForKind (ev_kind ev) = TierDrop then (False, Unmark (ev_id ev) d1, s)
        else if \<not> fst (verify ev) then (False, (Unmark (ev_id ev) d1)\<lparr>d_droppedBadID := Suc (d_droppedBadID d1)\<rparr>, s)
        else if \<not> snd (verify ev) then (False, Unmark (ev_id ev) d1, s)
        else if fst (SaveEvent ov ev s) = None then (True, d1, snd (SaveEvent ov ev s))
        else if fst (SaveEvent ov ev s) = Some (BatchErr ErrBatchFull) then (False, Unmark (ev_id ev) d1, snd (SaveEvent ov ev s))
        else (False, d1, snd (SaveEvent ov ev s)))"
proof -
  have c: "CheckAndMark now (ev_id ev) d = (\<not> Seen (ev_id ev) d, snd (CheckAndMark now (ev_id ev) d))"
    using cache.claim_unseen[of now "ev_id ev" d] by (simp add: prod_eq_iff)
  have "Seen (ev_id ev) d \<Longrightarrow> snd (CheckAndMark now (ev_id ev) d) = d"
    using cache.claim_loses cache.claim_unseen by blast
  then show ?thesis unfolding ingestStep_def prod.case
    by (subst c) (simp add: Let_def split: prod.splits option.splits)
qed

text \<open>Whatever an ingest step does, it treats another id as one call would.\<close>

lemma ingest_safe:
  assumes "ingestStep now ov verify ev (d, s) = (r, d', s')" "safe_for k (Suc n) d"
    "parseEventID (ev_id ev) \<noteq> Some k \<or> Seen (ev_id ev) d"
  shows "safe_for k n d'"
proof (cases "Seen (ev_id ev) d")
  case True
  then show ?thesis using assms(1,2) safe_less by (simp add: ingestStep_eq)
next
  case False
  let ?d = "snd (CheckAndMark now (ev_id ev) d)"
  have "safe_for k n ?d" using safe_call[of k "CallCheck (ev_id ev)" n d now] assms(2) by simp
  moreover have "safe_for k n (Unmark (ev_id ev) ?d)" if "safe_for k n ?d"
    using safe_unmark[OF that] assms(3) False by blast
  moreover have "safe_for k n (x\<lparr>d_droppedBadID := m\<rparr>) = safe_for k n x" for x :: dedup and m
    by (simp add: safe_for_def)
  ultimately show ?thesis using assms(1) False by (auto simp: ingestStep_eq Let_def split: if_splits)
qed

lemma ingestAll_length: "ingestAll now ov verify evs p = (rs, q) \<Longrightarrow> length rs = length evs"
  by (induction evs arbitrary: p rs q) (auto split: prod.splits)

lemma safe_seen: "safe_for k n d \<Longrightarrow> parseEventID i = Some k \<Longrightarrow> Seen i d"
  by (auto simp: safe_for_def Seen_def)

lemma ingestAll_loses:
  assumes "ingestAll now ov verify evs (d, s) = (rs, q)" "safe_for k (length evs) d"
    "i < length evs" "parseEventID (ev_id (evs ! i)) = Some k"
  shows "\<not> rs ! i"
  using assms
proof (induction evs arbitrary: d s rs i)
  case (Cons ev evs)
  obtain r d1 s1 where e: "ingestStep now ov verify ev (d, s) = (r, d1, s1)" by (metis prod_cases3)
  obtain rs' where rest: "ingestAll now ov verify evs (d1, s1) = (rs', q)" "rs = r # rs'"
    using Cons.prems(1) e by (auto split: prod.splits)
  have lost: "parseEventID (ev_id ev) \<noteq> Some k \<or> Seen (ev_id ev) d" using safe_seen[OF Cons.prems(2)] by blast
  have "safe_for k (length evs) d1" using ingest_safe[OF e _ lost] Cons.prems(2) by simp
  then have "j < length evs \<Longrightarrow> parseEventID (ev_id (evs ! j)) = Some k \<Longrightarrow> \<not> rs' ! j" for j
    using Cons.IH[OF rest(1)] by blast
  moreover have "\<not> r" if "parseEventID (ev_id ev) = Some k"
    using safe_seen[OF Cons.prems(2) that] e by (simp add: ingestStep_eq)
  ultimately show ?case using Cons.prems(3,4) rest(2) by (cases i) auto
qed simp

section \<open>Properties\<close>

text \<open>C22. Ingestion accepts exactly the right events: a step reports success iff the id was not
  seen, the kind is in scope, id and signature check out and the tier's batcher accepted the
  event; and the store is touched only for events that passed every check.\<close>

theorem ingest_accepts_exactly:
  "(fst (ingestStep now ov verify ev (d, s)) \<longleftrightarrow>
     \<not> Seen (ev_id ev) d \<and> TierForKind (ev_kind ev) \<noteq> TierDrop \<and> verify ev = (True, True) \<and>
     fst (SaveEvent ov ev s) = None) \<and>
   snd (snd (ingestStep now ov verify ev (d, s))) =
     (if \<not> Seen (ev_id ev) d \<and> TierForKind (ev_kind ev) \<noteq> TierDrop \<and> verify ev = (True, True)
      then snd (SaveEvent ov ev s) else s)"
  by (auto simp: ingestStep_eq Let_def prod_eq_iff)


definition demo_hex :: event where "demo_hex = demo_note\<lparr>ev_id := demo_id\<rparr>"


text \<open>Each event is ingested at most once: after a successful ingest of an id, no later
  event with the same id is ingested again within the next \<open>memCap - 1\<close> events, whatever those
  are and however their ids are spelled.\<close>

theorem ingest_at_most_once:
  assumes "finite (d_cur d)" "parseEventID (ev_id ev) = Some k"
    "ingestStep now ov verify ev (d, s) = (True, d1, s1)"
    "ingestAll now ov verify evs (d1, s1) = (rs, q)" "length evs < d_memCap d"
    "i < length evs" "parseEventID (ev_id (evs ! i)) = Some k"
  shows "\<not> rs ! i"
proof -
  have "\<not> Seen (ev_id ev) d" "d1 = snd (CheckAndMark now (ev_id ev) d)"
    using assms(3) by (auto simp: ingestStep_eq Let_def split: if_splits)
  then have "safe_for k (length evs) d1" using assms(1,2,5)
    by (auto simp: safe_for_def Seen_def CheckAndMark_def insertLocked_def Let_def)
  then show ?thesis using ingestAll_loses[OF assms(4) _ assms(6,7)] by blast
qed

theorem ingest_at_most_once_witness:
  "\<exists>d1 s1 rs q. ingestStep 1 Map.empty (\<lambda>_. (True, True)) demo_hex (NewDedup 5, demo_store) = (True, d1, s1) \<and>
    ingestAll 1 Map.empty (\<lambda>_. (True, True)) [demo_note, demo_hex] (d1, s1) = (rs, q) \<and> \<not> rs ! 1"
proof -
  have "fst (SaveEvent Map.empty demo_hex demo_store) = None" by code_simp
  moreover have "TierForKind (ev_kind demo_hex) \<noteq> TierDrop" by code_simp
  moreover have "\<not> Seen (ev_id demo_hex) (NewDedup 5)" by (simp add: Seen_def NewDedup_def split: option.splits)
  ultimately have "fst (ingestStep 1 Map.empty (\<lambda>_. (True, True)) demo_hex (NewDedup 5, demo_store))"
    by (simp add: ingestStep_eq Let_def)
  then obtain d1 s1 where 1: "ingestStep 1 Map.empty (\<lambda>_. (True, True)) demo_hex (NewDedup 5, demo_store) = (True, d1, s1)"
    by (metis (full_types) fst_conv prod_cases3)
  obtain rs q where 2: "ingestAll 1 Map.empty (\<lambda>_. (True, True)) [demo_note, demo_hex] (d1, s1) = (rs, q)" by (metis prod.exhaust)
  obtain k where "parseEventID demo_id = Some k" using demo_ids_valid(1) by blast
  then have 3: "parseEventID (ev_id demo_hex) = Some k" by (simp add: demo_hex_def)
  have "finite (d_cur (NewDedup 5))" "length [demo_note, demo_hex] < d_memCap (NewDedup 5)" by (simp_all add: NewDedup_def)
  from ingest_at_most_once[OF this(1) 3 1 2 this(2), of 1] 1 2 3 show ?thesis by auto
qed

text \<open>C21. An event is durably recorded as seen only after it is stored: in every run of store,
  deduplicator and control database together, each id in \<open>seen_events\<close> was there at the start
  or belongs to an event in a tier's table, so a crash at any point never makes the relay skip
  an event it does not have.\<close>

theorem seen_only_after_stored:
  assumes "ystep\<^sup>*\<^sup>* (s, d, db) (s', d', db')" "sinv s" "d_writeQ d = []" "i \<in> sr_id ` set (c_seen db')"
  shows "i \<in> sr_id ` set (c_seen db) \<or> (\<exists>e \<in> stored s'. ev_id e = i)"
proof -
  let ?K = "sr_id ` set (c_seen db)"
  have "yinv ?K (s, d, db)" using assms(2,3) by (auto simp: yinv_def recordedIDs_def)
  then have "yinv ?K (s', d', db')" by (rule ysteps_yinv[OF assms(1)])
  then have "sr_id ` set (c_seen db') \<subseteq> ?K \<union> ev_id ` stored s'" by (simp add: yinv_def recordedIDs_def)
  from subsetD[OF this assms(4)] show ?thesis by (elim UnE imageE) auto
qed

theorem seen_only_after_stored_witness:
  "\<exists>s' d' db'. ystep\<^sup>*\<^sup>* (demo_store, NewDedup 5, emptyDB) (s', d', db') \<and> c_seen db' = [seenRef demo_old] \<and>
    (\<exists>e \<in> stored s'. ev_id e = ev_id demo_old)"
proof -
  let ?b = "the (s_tiers demo_store ''permanent'')"
  let ?b' = "onTick SendOK ?b"
  let ?s = "(setTier ''permanent'' ?b' demo_store)\<lparr>s_fw := fold offer (newOffers ?b ?b') (s_fw demo_store)\<rparr>"
  let ?d = "fold (OnFlushed 7) (flushedChunks ?b ?b') (NewDedup 5)"
  have "s_tiers demo_store ''permanent'' \<noteq> None" "w_state ?b = Normal" by code_simp+
  then have b: "s_tiers demo_store ''permanent'' = Some ?b" "bstep ?b ?b'" by (auto intro: bstep.b_tick)
  have 1: "ystep (demo_store, NewDedup 5, emptyDB) (?s, ?d, emptyDB)" by (rule ystep.y_batcher[OF b])
  have 2: "ystep (?s, ?d, emptyDB) (?s, fst (writeOne None (?d, emptyDB)), snd (writeOne None (?d, emptyDB)))"
    by (rule ystep.y_write) simp
  have seen: "c_seen (snd (writeOne None (?d, emptyDB))) = [seenRef demo_old]" by code_simp
  have run: "ystep\<^sup>*\<^sup>* (demo_store, NewDedup 5, emptyDB) (?s, fst (writeOne None (?d, emptyDB)), snd (writeOne None (?d, emptyDB)))"
    using 1 2 by (meson converse_rtranclp_into_rtranclp rtranclp.rtrancl_refl)
  from seen_only_after_stored[OF run demo_store_sinv, of "ev_id demo_old"] seen
  have "\<exists>e \<in> stored ?s. ev_id e = ev_id demo_old" by (simp add: NewDedup_def emptyDB_def seenRef_def)
  then show ?thesis using run seen by blast
qed

end
