(* ===== verification/Scheduler.thy ===== *)
theory Scheduler
  imports Control
begin

text \<open>
  The scheduler of future-dated events (\<open>internal/scheduler/scheduler.go\<close>): \<open>ShouldDefer\<close>,
  \<open>Defer\<close>, the polling period of \<open>Run\<close> and \<open>publishDue\<close>. The JSON codec is a parameter
  (\<open>marshal\<close>, \<open>unmarshal\<close>); how each publish, load and delete ends is given per call. The
  events published so far are the first component of the state \<open>publishDue\<close> works on.
\<close>

section \<open>Definitions\<close>

definition wholeSeconds :: "duration \<Rightarrow> int" where
  "wholeSeconds d = (if d \<ge> 0 then d div second else - ((- d) div second))"

definition ShouldDefer :: "instant \<Rightarrow> duration \<Rightarrow> event \<Rightarrow> bool" where
  "ShouldDefer now buffer evt \<longleftrightarrow> ev_created_at evt > now div second + wholeSeconds buffer"

definition Defer :: "(event \<Rightarrow> string + string) \<Rightarrow> fault \<Rightarrow> event \<Rightarrow> control_db \<Rightarrow> fault \<times> control_db" where
  "Defer marshal flt evt db =
     (case marshal evt of
        Inl e \<Rightarrow> (Some e, db)
      | Inr b \<Rightarrow> (case SaveScheduled flt (ev_id evt) b (ev_created_at evt) db of
                    (Some e, db1) \<Rightarrow> (Some e, db1)
                  | (None, db1) \<Rightarrow> (None, db1)))"

text \<open>The ticker of \<open>Run\<close>: \<open>None\<close> where \<open>time.NewTicker\<close> panics.\<close>

definition tickerPeriod :: "duration \<Rightarrow> duration option" where
  "tickerPeriod buffer =
     (let quarter = (if buffer \<ge> 0 then buffer div 4 else - ((- buffer) div 4)) in
      if quarter \<le> 0 then None else if quarter < second then Some second else Some quarter)"

text \<open>The loop of \<open>publishDue\<close>; \<open>pub i\<close> and \<open>del i\<close> say how the \<open>i\<close>-th publish and delete end.\<close>

fun publishLoop :: "(string \<Rightarrow> event option) \<Rightarrow> (nat \<Rightarrow> fault) \<Rightarrow> (nat \<Rightarrow> fault) \<Rightarrow> nat \<Rightarrow> (string \<times> string) list \<Rightarrow>
    event list \<times> control_db \<Rightarrow> event list \<times> control_db" where
  "publishLoop unmarshal pub del i [] st = st"
| "publishLoop unmarshal pub del i ((pid, js) # due) (sent, db) =
     (case unmarshal js of
        None \<Rightarrow> publishLoop unmarshal pub del (Suc i) due (sent, snd (DeleteScheduled (del i) pid db))
      | Some evt \<Rightarrow>
          (case pub i of
             Some e \<Rightarrow> publishLoop unmarshal pub del (Suc i) due (sent, db)
           | None \<Rightarrow> publishLoop unmarshal pub del (Suc i) due (sent @ [evt], snd (DeleteScheduled (del i) pid db))))"

definition publishDue :: "(string \<Rightarrow> event option) \<Rightarrow> fault \<Rightarrow> (nat \<Rightarrow> fault) \<Rightarrow> (nat \<Rightarrow> fault) \<Rightarrow> instant \<Rightarrow>
    event list \<times> control_db \<Rightarrow> event list \<times> control_db" where
  "publishDue unmarshal load pub del now = (\<lambda>(sent, db).
     case LoadDueScheduled load (now div second) 100 db of
       Inl e \<Rightarrow> (sent, db)
     | Inr due \<Rightarrow> publishLoop unmarshal pub del 0 due (sent, db))"

text \<open>Ticks of \<open>Run\<close>, each with its own faults and time.\<close>

fun runTicks :: "(string \<Rightarrow> event option) \<Rightarrow> (fault \<times> (nat \<Rightarrow> fault) \<times> (nat \<Rightarrow> fault) \<times> instant) list \<Rightarrow>
    event list \<times> control_db \<Rightarrow> event list \<times> control_db" where
  "runTicks unmarshal [] st = st"
| "runTicks unmarshal ((load, pub, del, now) # ticks) st =
     runTicks unmarshal ticks (publishDue unmarshal load pub del now st)"

section \<open>Lemmas\<close>

text \<open>A parked row is still there or its event has been published.\<close>

definition kept :: "(string \<Rightarrow> event option) \<Rightarrow> ScheduledRow \<Rightarrow> event list \<times> control_db \<Rightarrow> bool" where
  "kept unmarshal r = (\<lambda>(sent, db). r \<in> set (c_scheduled db) \<or> (\<exists>evt \<in> set sent. unmarshal (se_event_json r) = Some evt))"

lemma DeleteScheduled_rows: "snd (DeleteScheduled flt i db) = db\<lparr>c_scheduled := c_scheduled (snd (DeleteScheduled flt i db))\<rparr>"
  "set (c_scheduled (snd (DeleteScheduled flt i db))) \<subseteq> set (c_scheduled db)"
  "r \<in> set (c_scheduled db) \<Longrightarrow> se_id r \<noteq> i \<Longrightarrow> r \<in> set (c_scheduled (snd (DeleteScheduled flt i db)))"
  by (auto simp: DeleteScheduled_def split: option.splits)

text \<open>Primary keys: what is loaded for an id is the row of that id.\<close>

definition loadedFrom :: "(string \<times> string) list \<Rightarrow> control_db \<Rightarrow> bool" where
  "loadedFrom due db \<longleftrightarrow> (\<forall>p \<in> set due. \<forall>r \<in> set (c_scheduled db). se_id r = fst p \<longrightarrow> se_event_json r = snd p)"

lemma loadedFrom_delete: "loadedFrom due db \<Longrightarrow> loadedFrom due (snd (DeleteScheduled flt i db))"
  using DeleteScheduled_rows(2)[of flt i db] unfolding loadedFrom_def by blast

lemma publishLoop_keeps:
  assumes "loadedFrom due db" "kept unmarshal r (sent, db)" "unmarshal (se_event_json r) = Some e"
  shows "kept unmarshal r (publishLoop unmarshal pub del i due (sent, db))"
  using assms(1,2)
proof (induction due arbitrary: i sent db)
  case (Cons p due)
  obtain pid js where p: "p = (pid, js)" by (cases p)
  let ?db = "snd (DeleteScheduled (del i) pid db)"
  have tl: "loadedFrom due db" "loadedFrom due ?db"
    using Cons.prems(1) loadedFrom_delete[of due db] by (auto simp: loadedFrom_def)
  have same: "r \<in> set (c_scheduled ?db) \<or> se_event_json r = js" if "r \<in> set (c_scheduled db)"
    using that Cons.prems(1) DeleteScheduled_rows(3)[OF that, of pid "del i"] p by (auto simp: loadedFrom_def)
  show ?case
  proof (cases "unmarshal js")
    case None
    then have "kept unmarshal r (sent, ?db)" using Cons.prems(2) same assms(3) by (auto simp: kept_def)
    then show ?thesis using None p Cons.IH[OF tl(2)] by simp
  next
    case (Some evt)
    then have "kept unmarshal r (sent @ [evt], ?db)" using Cons.prems(2) same assms(3) by (auto simp: kept_def)
    then show ?thesis using Some p Cons.IH[OF tl(2)] Cons.IH[OF tl(1) Cons.prems(2)] by (simp split: option.splits)
  qed
qed simp

lemma publishLoop_rows: "set (c_scheduled (snd (publishLoop unmarshal pub del i due (sent, db)))) \<subseteq> set (c_scheduled db)"
proof (induction due arbitrary: i sent db)
  case (Cons p due)
  obtain pid js where p: "p = (pid, js)" by (cases p)
  have "set (c_scheduled (snd (DeleteScheduled (del i) pid db))) \<subseteq> set (c_scheduled db)" by (rule DeleteScheduled_rows(2))
  then show ?case using p Cons.IH[of _ _ "snd (DeleteScheduled (del i) pid db)"] Cons.IH[of _ _ db]
    by (auto split: option.splits)
qed simp

lemma publishLoop_all_ok:
  assumes "\<And>p. p \<in> set due \<Longrightarrow> unmarshal (snd p) \<noteq> None"
  shows "publishLoop unmarshal (\<lambda>_. None) (\<lambda>_. None) i due (sent, db) =
    (sent @ map (\<lambda>p. the (unmarshal (snd p))) due,
     db\<lparr>c_scheduled := filter (\<lambda>r. se_id r \<notin> fst ` set due) (c_scheduled db)\<rparr>)"
  using assms
proof (induction due arbitrary: i sent db)
  case (Cons p due)
  obtain pid js where p: "p = (pid, js)" by (cases p)
  obtain evt where "unmarshal js = Some evt" using Cons.prems[of p] p by auto
  moreover have "(\<lambda>x. se_id x \<notin> fst ` set due \<and> se_id x \<noteq> pid) = (\<lambda>r. se_id r \<noteq> pid \<and> se_id r \<notin> fst ` set due)" by auto
  ultimately show ?case using p Cons.IH[of "Suc i" "sent @ [evt]"] Cons.prems
    by (simp add: DeleteScheduled_def conj_commute)
qed simp

lemma loaded_loadedFrom:
  assumes "LoadDueScheduled flt now limit db = Inr due" "distinct (map se_id (c_scheduled db))"
  shows "loadedFrom due db"
proof -
  have "\<exists>r \<in> set (c_scheduled db). p = (se_id r, se_event_json r)" if "p \<in> set due" for p
    using that assms(1) by (auto simp: LoadDueScheduled_def split: option.splits dest!: in_set_takeD) blast
  moreover have "inj_on se_id (set (c_scheduled db))" using assms(2) by (simp add: distinct_map)
  ultimately show ?thesis unfolding loadedFrom_def by (metis fst_conv inj_onD snd_conv)
qed

lemma DeleteScheduled_keys: "distinct (map se_id (c_scheduled db)) \<Longrightarrow> distinct (map se_id (c_scheduled (snd (DeleteScheduled flt i db))))"
  by (auto simp: DeleteScheduled_def distinct_map_filter split: option.splits)

lemma publishLoop_keys:
  "distinct (map se_id (c_scheduled db)) \<Longrightarrow> distinct (map se_id (c_scheduled (snd (publishLoop unmarshal pub del i due (sent, db)))))"
proof (induction due arbitrary: i sent db)
  case (Cons p due)
  obtain pid js where p: "p = (pid, js)" by (cases p)
  show ?case using p Cons.IH[OF Cons.prems] Cons.IH[OF DeleteScheduled_keys[OF Cons.prems]] by (auto split: option.splits)
qed simp

lemma publishDue_keeps:
  assumes "distinct (map se_id (c_scheduled (snd st)))" "kept unmarshal r st" "unmarshal (se_event_json r) = Some e"
  shows "kept unmarshal r (publishDue unmarshal load pub del now st) \<and>
    distinct (map se_id (c_scheduled (snd (publishDue unmarshal load pub del now st))))"
proof -
  obtain sent db where st: "st = (sent, db)" by (cases st)
  show ?thesis
  proof (cases "LoadDueScheduled load (now div second) 100 db")
    case (Inl err)
    then show ?thesis using assms by (simp add: publishDue_def st)
  next
    case (Inr due)
    have "loadedFrom due db" using loaded_loadedFrom[OF Inr] assms(1) st by simp
    then show ?thesis using publishLoop_keeps[of due db unmarshal r sent e pub del 0] publishLoop_keys[of db] assms st Inr
      by (simp add: publishDue_def)
  qed
qed

lemma runTicks_keeps:
  assumes "distinct (map se_id (c_scheduled (snd st)))" "kept unmarshal r st" "unmarshal (se_event_json r) = Some e"
  shows "kept unmarshal r (runTicks unmarshal ticks st)"
  using assms(1,2)
proof (induction ticks arbitrary: st)
  case (Cons t ticks)
  obtain load pub del now where t: "t = (load, pub, del, now)" by (cases t)
  have "kept unmarshal r (publishDue unmarshal load pub del now st) \<and>
      distinct (map se_id (c_scheduled (snd (publishDue unmarshal load pub del now st))))"
    by (rule publishDue_keeps[OF Cons.prems assms(3)])
  then show ?case using Cons.IH t by simp
qed simp

section \<open>Properties\<close>

text \<open>C24. A deferred event is not lost: once \<open>Defer\<close> has returned nil, after any number of
  polling ticks, with any loads, publishes and deletes failing, the event is still parked or has
  been published. What \<open>json\<close> is relied on for is that unmarshalling undoes marshalling.\<close>

theorem deferred_not_lost:
  assumes "Defer marshal flt evt db = (None, db1)" "distinct (map se_id (c_scheduled db))"
    "\<And>e js. marshal e = Inr js \<Longrightarrow> unmarshal js = Some e"
    "runTicks unmarshal ticks (sent, db1) = (sent', db')"
  shows "evt \<in> set sent' \<or> (\<exists>r \<in> set (c_scheduled db'). se_id r = ev_id evt \<and> unmarshal (se_event_json r) = Some evt)"
proof -
  obtain js where js: "marshal evt = Inr js" and db1: "db1 = db\<lparr>c_scheduled := insertReplace se_id
      \<lparr>se_id = ev_id evt, se_event_json = js, se_publish_at = ev_created_at evt\<rparr> (c_scheduled db)\<rparr>"
    using assms(1) by (auto simp: Defer_def SaveScheduled_def split: sum.splits option.splits prod.splits)
  let ?r = "\<lparr>se_id = ev_id evt, se_event_json = js, se_publish_at = ev_created_at evt\<rparr>"
  have dec: "unmarshal (se_event_json ?r) = Some evt" using assms(3)[OF js] by simp
  have "distinct (map se_id (c_scheduled (snd (sent, db1))))" using assms(2) by (simp add: db1 insertReplace_keys)
  moreover have "kept unmarshal ?r (sent, db1)" by (simp add: kept_def db1 insertReplace_set)
  ultimately have "kept unmarshal ?r (runTicks unmarshal ticks (sent, db1))" using dec by (rule runTicks_keeps)
  then show ?thesis using assms(4) dec by (force simp: kept_def)
qed

definition demo_future :: event where
  "demo_future = \<lparr>ev_id = ''x'', ev_pubkey = [], ev_created_at = 9, ev_kind = 1, ev_tags = None, ev_content = [], ev_sig = []\<rparr>"

definition demo_marshal :: "event \<Rightarrow> string + string" where
  "demo_marshal e = (if e = demo_future then Inr ''j'' else Inl ''bad'')"

definition demo_unmarshal :: "string \<Rightarrow> event option" where
  "demo_unmarshal js = (if js = ''j'' then Some demo_future else None)"

definition demo_parked :: control_db where
  "demo_parked = snd (Defer demo_marshal None demo_future emptyDB)"

theorem deferred_not_lost_witness:
  "\<exists>db'. runTicks demo_unmarshal [(None, (\<lambda>_. Some ''down''), (\<lambda>_. None), 20 * second)] ([], demo_parked) = ([], db') \<and>
    (\<exists>r \<in> set (c_scheduled db'). se_id r = ''x'')"
proof -
  let ?ticks = "[(None, (\<lambda>_. Some ''down''), (\<lambda>_. None), 20 * second)]"
  have d: "Defer demo_marshal None demo_future emptyDB = (None, demo_parked)"
    by (simp add: demo_parked_def demo_marshal_def Defer_def SaveScheduled_def)
  obtain db' where run: "runTicks demo_unmarshal ?ticks ([], demo_parked) = ([], db')"
    by (simp add: demo_parked_def demo_marshal_def Defer_def SaveScheduled_def emptyDB_def insertReplace_def
        publishDue_def LoadDueScheduled_def demo_unmarshal_def demo_future_def)
  have "demo_marshal e = Inr js \<Longrightarrow> demo_unmarshal js = Some e" for e js
    by (simp add: demo_marshal_def demo_unmarshal_def split: if_splits)
  from deferred_not_lost[OF d _ this run] have "\<exists>r \<in> set (c_scheduled db'). se_id r = ev_id demo_future"
    by (auto simp: emptyDB_def)
  then show ?thesis using run by (simp add: demo_future_def)
qed

text \<open>Due events get published: a tick in which no call fails publishes every due event,
  once and oldest first, and unparks exactly those, as long as no more than 100 are due and they
  decode.\<close>

theorem tick_publishes_due:
  assumes "length (filter (\<lambda>r. se_publish_at r \<le> now div second) (c_scheduled db)) \<le> 100"
    "distinct (map se_id (c_scheduled db))"
    "\<And>r. r \<in> set (c_scheduled db) \<Longrightarrow> unmarshal (se_event_json r) \<noteq> None"
  shows "publishDue unmarshal None (\<lambda>_. None) (\<lambda>_. None) now (sent, db) =
    (sent @ map (\<lambda>r. the (unmarshal (se_event_json r)))
       (sort_key se_publish_at (filter (\<lambda>r. se_publish_at r \<le> now div second) (c_scheduled db))),
     db\<lparr>c_scheduled := filter (\<lambda>r. \<not> se_publish_at r \<le> now div second) (c_scheduled db)\<rparr>)"
proof -
  let ?due = "sort_key se_publish_at (filter (\<lambda>r. se_publish_at r \<le> now div second) (c_scheduled db))"
  have load: "LoadDueScheduled None (now div second) 100 db = Inr (map (\<lambda>r. (se_id r, se_event_json r)) ?due)"
    using assms(1) by (simp add: LoadDueScheduled_def)
  have "publishLoop unmarshal (\<lambda>_. None) (\<lambda>_. None) 0 (map (\<lambda>r. (se_id r, se_event_json r)) ?due) (sent, db) =
      (sent @ map (\<lambda>p. the (unmarshal (snd p))) (map (\<lambda>r. (se_id r, se_event_json r)) ?due),
       db\<lparr>c_scheduled := filter (\<lambda>r. se_id r \<notin> fst ` set (map (\<lambda>r. (se_id r, se_event_json r)) ?due)) (c_scheduled db)\<rparr>)"
    by (rule publishLoop_all_ok) (use assms(3) in auto)
  moreover have "filter (\<lambda>r. se_id r \<notin> fst ` set (map (\<lambda>r. (se_id r, se_event_json r)) ?due)) (c_scheduled db) =
      filter (\<lambda>r. \<not> se_publish_at r \<le> now div second) (c_scheduled db)"
  proof (rule filter_cong[OF refl])
    fix r
    assume r: "r \<in> set (c_scheduled db)"
    have "fst ` set (map (\<lambda>r. (se_id r, se_event_json r)) ?due) =
        se_id ` {x \<in> set (c_scheduled db). se_publish_at x \<le> now div second}" by (auto simp: image_iff)
    then show "(se_id r \<notin> fst ` set (map (\<lambda>r. (se_id r, se_event_json r)) ?due)) = (\<not> se_publish_at r \<le> now div second)"
      using r assms(2) by (auto simp: distinct_map inj_on_def)
  qed
  ultimately show ?thesis using load by (simp add: publishDue_def comp_def)
qed

theorem tick_publishes_due_witness:
  "fst (publishDue demo_unmarshal None (\<lambda>_. None) (\<lambda>_. None) (20 * second) ([], demo_parked)) = [demo_future]"
proof -
  have db: "demo_parked = emptyDB\<lparr>c_scheduled := [\<lparr>se_id = ''x'', se_event_json = ''j'', se_publish_at = 9\<rparr>]\<rparr>"
    by (simp add: demo_parked_def demo_marshal_def Defer_def SaveScheduled_def emptyDB_def insertReplace_def demo_future_def)
  show ?thesis
    using tick_publishes_due[of "20 * second" demo_parked demo_unmarshal "[]"] unfolding db
    by (simp add: demo_unmarshal_def)
qed

end
