(* ===== verification/Rate_Limit.thy ===== *)
theory Rate_Limit
  imports Classifier
begin

text \<open>
  Ingress and read policies (\<open>internal/policy/ratelimit.go\<close>, \<open>internal/policy/reject.go\<close>): the
  per-IP fixed-window limiter with its lazy garbage collection, its hook and middleware forms,
  the client address behind a proxy, the scope gate and the filter-breadth caps. Time is an
  argument of each call. \<open>net.ParseIP\<close> with its classification and \<open>net.SplitHostPort\<close> are
  parameters of \<open>ClientIP\<close>.
\<close>

record rlWindow =
  rl_start :: instant
  rl_count :: int

record limiter =
  l_perMinute :: int
  l_counts :: "string \<rightharpoonup> rlWindow"
  l_lastGC :: "instant option"

section \<open>Definitions\<close>

definition NewLimiter :: "int \<Rightarrow> limiter" where
  "NewLimiter perMinute = \<lparr>l_perMinute = perMinute, l_counts = Map.empty, l_lastGC = None\<rparr>"

definition gcDue :: "instant \<Rightarrow> limiter \<Rightarrow> bool" where
  "gcDue now l \<longleftrightarrow> (case l_lastGC l of None \<Rightarrow> True | Some t \<Rightarrow> now - t \<ge> minute)"

definition sweep :: "instant \<Rightarrow> (string \<rightharpoonup> rlWindow) \<Rightarrow> (string \<rightharpoonup> rlWindow)" where
  "sweep now counts = (\<lambda>ip. case counts ip of None \<Rightarrow> None | Some w \<Rightarrow> if now - rl_start w \<ge> minute then None else Some w)"

definition Allow :: "instant \<Rightarrow> string \<Rightarrow> limiter \<Rightarrow> bool \<times> limiter" where
  "Allow now ip l =
     (if l_perMinute l \<le> 0 \<or> ip = [] then (True, l)
      else
        let w = (case l_counts l ip of
                   None \<Rightarrow> \<lparr>rl_start = now, rl_count = 0\<rparr>
                 | Some w \<Rightarrow> if now - rl_start w \<ge> minute then \<lparr>rl_start = now, rl_count = 0\<rparr> else w);
            w1 = w\<lparr>rl_count := rl_count w + 1\<rparr>;
            allowed = (rl_count w1 \<le> l_perMinute l);
            l1 = l\<lparr>l_counts := (l_counts l)(ip \<mapsto> w1)\<rparr> in
        (allowed,
         if gcDue now l1 then l1\<lparr>l_counts := sweep now (l_counts l1), l_lastGC := Some now\<rparr> else l1))"

definition limiterRejectEvent :: "instant \<Rightarrow> string \<Rightarrow> limiter \<Rightarrow> string option \<times> limiter" where
  "limiterRejectEvent now ip l =
     (case Allow now ip l of (ok, l1) \<Rightarrow>
        (if \<not> ok then Some ''rate-limited: too many events from this IP'' else None, l1))"

definition limiterRejectFilter :: "instant \<Rightarrow> string \<Rightarrow> limiter \<Rightarrow> string option \<times> limiter" where
  "limiterRejectFilter now ip l =
     (case Allow now ip l of (ok, l1) \<Rightarrow>
        (if \<not> ok then Some ''rate-limited: too many reads from this IP'' else None, l1))"

text \<open>\<open>HTTPWhen\<close>: whether the request reaches the next handler (\<open>cond\<close> decides which requests
  are limited), else status 429.\<close>

definition HTTPWhen :: "bool \<Rightarrow> instant \<Rightarrow> string \<Rightarrow> limiter \<Rightarrow> nat option \<times> limiter" where
  "HTTPWhen cond now ip l =
     (if \<not> cond then (None, l)
      else case Allow now ip l of (ok, l1) \<Rightarrow> (if ok then None else Some 429, l1))"

definition limiterHTTP :: "instant \<Rightarrow> string \<Rightarrow> limiter \<Rightarrow> nat option \<times> limiter" where
  "limiterHTTP now ip l = HTTPWhen True now ip l"

subsection \<open>The client's address\<close>

text \<open>\<open>publicIP\<close> is \<open>net.ParseIP(ip) != nil\<close>, global unicast and not private.\<close>

definition ClientIP :: "(string \<Rightarrow> bool) \<Rightarrow> (string \<Rightarrow> string) \<Rightarrow> string \<Rightarrow> string \<Rightarrow> string" where
  "ClientIP publicIP hostOf xff remoteAddr =
     (case (if xff = [] then None else find publicIP (map trimSpace (splitOn (CHR '','') xff))) of
        Some ip \<Rightarrow> ip
      | None \<Rightarrow> hostOf remoteAddr)"

subsection \<open>Scope and breadth\<close>

definition RejectOutOfScope :: "event \<Rightarrow> string option" where
  "RejectOutOfScope evt = (if TierForKind (ev_kind evt) = TierDrop then Some ''kind out of scope'' else None)"

record RejectFilterBreadth =
  rb_MaxIDs :: int
  rb_MaxAuthors :: int
  rb_MaxKinds :: int
  rb_MaxTags :: int

definition tagValues :: "nostr_filter \<Rightarrow> int" where
  "tagValues f = (\<Sum>(k, vs) \<leftarrow> f_tags f. int (length vs))"

definition breadthReject :: "RejectFilterBreadth \<Rightarrow> nostr_filter \<Rightarrow> string option" where
  "breadthReject r f =
     (if rb_MaxIDs r > 0 \<and> int (length (f_ids f)) > rb_MaxIDs r then Some ''too many ids''
      else if rb_MaxAuthors r > 0 \<and> int (length (f_authors f)) > rb_MaxAuthors r then Some ''too many authors''
      else if rb_MaxKinds r > 0 \<and> int (length (f_kinds f)) > rb_MaxKinds r then Some ''too many kinds''
      else if rb_MaxTags r > 0 \<and> tagValues f > rb_MaxTags r then Some ''too many tag values''
      else None)"

subsection \<open>Sequences of calls\<close>

fun runLimiter :: "(instant \<times> string) list \<Rightarrow> limiter \<Rightarrow> bool list" where
  "runLimiter [] l = []"
| "runLimiter ((t, ip) # calls) l = (case Allow t ip l of (ok, l1) \<Rightarrow> ok # runLimiter calls l1)"

text \<open>The reference: one address, no garbage collection.\<close>

definition windowStep :: "int \<Rightarrow> instant \<Rightarrow> rlWindow option \<Rightarrow> bool \<times> rlWindow" where
  "windowStep P t w =
     (let w0 = (case w of
                  None \<Rightarrow> \<lparr>rl_start = t, rl_count = 0\<rparr>
                | Some w \<Rightarrow> if t - rl_start w \<ge> minute then \<lparr>rl_start = t, rl_count = 0\<rparr> else w) in
      (rl_count w0 + 1 \<le> P, w0\<lparr>rl_count := rl_count w0 + 1\<rparr>))"

fun windowRun :: "int \<Rightarrow> rlWindow option \<Rightarrow> instant list \<Rightarrow> (instant \<times> bool) list" where
  "windowRun P w [] = []"
| "windowRun P w (t # ts) = (case windowStep P t w of (ok, w1) \<Rightarrow> (t, ok) # windowRun P (Some w1) ts)"

definition answersFor :: "string \<Rightarrow> (instant \<times> string) list \<Rightarrow> bool list \<Rightarrow> (instant \<times> bool) list" where
  "answersFor ip calls oks = map (\<lambda>((t, i), ok). (t, ok)) (filter (\<lambda>((t, i), ok). i = ip) (zip calls oks))"

definition allowedIn :: "instant \<Rightarrow> (instant \<times> bool) list \<Rightarrow> nat" where
  "allowedIn a xs = length (filter (\<lambda>(t, ok). ok \<and> a \<le> t \<and> t < a + minute) xs)"

section \<open>Lemmas\<close>

text \<open>The limiter agrees with the reference for one address at time \<open>T\<close>: it has the same
  window, or has already swept an expired one.\<close>

definition agrees :: "instant \<Rightarrow> string \<Rightarrow> limiter \<Rightarrow> rlWindow option \<Rightarrow> bool" where
  "agrees T ip l w \<longleftrightarrow> l_counts l ip = w \<or> (l_counts l ip = None \<and> (\<exists>w'. w = Some w' \<and> T - rl_start w' \<ge> minute))"

lemma Allow_other:
  assumes "agrees T ip l w" "T \<le> t" "i \<noteq> ip"
  shows "agrees t ip (snd (Allow t i l)) w"
  using assms by (auto simp: Allow_def agrees_def sweep_def Let_def split: option.splits)

lemma Allow_same:
  assumes "agrees T ip l w" "T \<le> t" "0 < l_perMinute l" "ip \<noteq> []"
  shows "fst (Allow t ip l) = fst (windowStep (l_perMinute l) t w) \<and>
    agrees t ip (snd (Allow t ip l)) (Some (snd (windowStep (l_perMinute l) t w)))"
  using assms by (auto simp: Allow_def agrees_def sweep_def windowStep_def Let_def split: option.splits)

lemma Allow_perMinute [simp]: "l_perMinute (snd (Allow t i l)) = l_perMinute l"
  by (simp add: Allow_def Let_def)

lemma limiter_refines:
  assumes "agrees T ip l w" "sorted (map fst calls)" "\<forall>c \<in> set calls. T \<le> fst c" "0 < l_perMinute l" "ip \<noteq> []"
  shows "answersFor ip calls (runLimiter calls l) =
    windowRun (l_perMinute l) w (map fst (filter (\<lambda>c. snd c = ip) calls))"
  using assms(1-4)
proof (induction calls arbitrary: T l w)
  case (Cons c calls)
  obtain t i where c: "c = (t, i)" by (cases c)
  let ?l = "snd (Allow t i l)"
  have tl: "sorted (map fst calls)" "\<forall>c \<in> set calls. t \<le> fst c" "0 < l_perMinute ?l"
    using Cons.prems c by auto
  have run: "runLimiter (c # calls) l = fst (Allow t i l) # runLimiter calls ?l"
    using c by (simp split: prod.splits)
  show ?case
  proof (cases "i = ip")
    case True
    have "agrees t ip ?l (Some (snd (windowStep (l_perMinute l) t w)))" "fst (Allow t i l) = fst (windowStep (l_perMinute l) t w)"
      using Allow_same[OF Cons.prems(1) _ Cons.prems(4) assms(5), of t] Cons.prems(3) c True by auto
    with Cons.IH[OF this(1) tl] show ?thesis using c True run by (simp add: answersFor_def split: prod.splits)
  next
    case False
    have "agrees t ip ?l w" using Allow_other[OF Cons.prems(1) _ False, of t] Cons.prems(3) c by simp
    with Cons.IH[OF this tl] show ?thesis using c False run by (simp add: answersFor_def)
  qed
qed (simp add: answersFor_def)

lemma windowRun_late: "\<forall>u \<in> set ts. a + minute \<le> u \<Longrightarrow> allowedIn a (windowRun P w ts) = 0"
proof (induction ts arbitrary: w)
  case (Cons t ts)
  then show ?case by (simp add: allowedIn_def split: prod.splits)
qed (simp add: allowedIn_def)

text \<open>What a window that has already counted \<open>c\<close> requests still allows inside an interval of
  one minute.\<close>

definition budget :: "int \<Rightarrow> instant \<Rightarrow> rlWindow option \<Rightarrow> int" where
  "budget P a w = (case w of None \<Rightarrow> 2 * P
     | Some w \<Rightarrow> if a \<le> rl_start w then max 0 (P - rl_count w) else max 0 (P - rl_count w) + P)"

lemma windowRun_budget:
  assumes "sorted ts" "0 < P" "\<forall>w'. w = Some w' \<longrightarrow> (\<forall>t \<in> set ts. rl_start w' \<le> t) \<and> 0 \<le> rl_count w'"
    "\<forall>t \<in> set ts. a \<le> t"
  shows "int (allowedIn a (windowRun P w ts)) \<le> budget P a w"
  using assms(1,3,4)
proof (induction ts arbitrary: w)
  case Nil
  then show ?case using assms(2) by (auto simp: allowedIn_def budget_def split: option.splits)
next
  case (Cons t ts)
  obtain ok w1 where st: "windowStep P t w = (ok, w1)" by (cases "windowStep P t w")
  have tl: "sorted ts" "\<forall>u \<in> set ts. t \<le> u" using Cons.prems(1) by auto
  have w1: "rl_start w1 \<le> t" "0 \<le> rl_count w1" "ok \<longleftrightarrow> rl_count w1 \<le> P"
    using st Cons.prems(2) by (auto simp: windowStep_def Let_def split: option.splits if_splits)
  have "\<forall>w'. Some w1 = Some w' \<longrightarrow> (\<forall>u \<in> set ts. rl_start w' \<le> u) \<and> 0 \<le> rl_count w'"
    using w1(1,2) tl(2) by force
  then have IH: "int (allowedIn a (windowRun P (Some w1) ts)) \<le> budget P a (Some w1)"
    using Cons.IH[OF tl(1)] Cons.prems(3) by simp
  have eq: "allowedIn a (windowRun P w (t # ts)) =
      (if ok \<and> a \<le> t \<and> t < a + minute then 1 else 0) + allowedIn a (windowRun P (Some w1) ts)"
    using st by (simp add: allowedIn_def)
  show ?case
  proof (cases "t < a + minute")
    case False
    then have "allowedIn a (windowRun P (Some w1) ts) = 0" using tl(2) by (intro windowRun_late) auto
    then show ?thesis using False eq assms(2) by (auto simp: budget_def split: option.splits)
  next
    case True
    show ?thesis using IH eq w1 st True assms(2) Cons.prems(2,3)
      by (auto simp: budget_def windowStep_def Let_def split: option.splits if_splits)
  qed
qed

lemma windowRun_twice:
  assumes "sorted ts" "0 < P" "\<forall>w'. w = Some w' \<longrightarrow> (\<forall>t \<in> set ts. rl_start w' \<le> t) \<and> 0 \<le> rl_count w'"
  shows "int (allowedIn a (windowRun P w ts)) \<le> 2 * P"
  using assms(1,3)
proof (induction ts arbitrary: w)
  case Nil
  then show ?case using assms(2) by (simp add: allowedIn_def)
next
  case (Cons t ts)
  show ?case
  proof (cases "a \<le> t")
    case True
    then have "\<forall>u \<in> set (t # ts). a \<le> u" using Cons.prems(1) by auto
    from windowRun_budget[OF Cons.prems(1) assms(2) Cons.prems(2) this]
    have "int (allowedIn a (windowRun P w (t # ts))) \<le> budget P a w" .
    also have "\<dots> \<le> 2 * P" using assms(2) Cons.prems(2) by (auto simp: budget_def split: option.splits)
    finally show ?thesis .
  next
    case False
    obtain ok w1 where st: "windowStep P t w = (ok, w1)" by (cases "windowStep P t w")
    have "rl_start w1 \<le> t" "0 \<le> rl_count w1"
      using st Cons.prems(2) by (auto simp: windowStep_def Let_def split: option.splits if_splits)
    then have "\<forall>w'. Some w1 = Some w' \<longrightarrow> (\<forall>u \<in> set ts. rl_start w' \<le> u) \<and> 0 \<le> rl_count w'"
      using Cons.prems(1) by force
    then have "int (allowedIn a (windowRun P (Some w1) ts)) \<le> 2 * P" using Cons.IH[of "Some w1"] Cons.prems(1) by simp
    then show ?thesis using False st by (simp add: allowedIn_def)
  qed
qed

section \<open>Properties\<close>

text \<open>C26. The rate limit holds: over any sequence of calls in time order, in any interval of one
  minute, at most twice the configured number of requests of one address is let through (a fixed
  window may be exhausted just before and just after its boundary), whatever other addresses do
  and whenever the table is garbage-collected.\<close>

theorem rate_limit_holds:
  assumes "sorted (map fst calls)" "0 < perMinute" "ip \<noteq> []"
  shows "int (allowedIn a (answersFor ip calls (runLimiter calls (NewLimiter perMinute)))) \<le> 2 * perMinute"
proof -
  let ?l = "NewLimiter perMinute" and ?T = "if calls = [] then 0 else fst (hd calls)"
  have first: "\<forall>c \<in> set calls. ?T \<le> fst c" using assms(1) by (cases calls) auto
  have "agrees ?T ip ?l None" by (simp add: agrees_def NewLimiter_def)
  from limiter_refines[OF this assms(1) first _ assms(3)] assms(2)
  have "answersFor ip calls (runLimiter calls ?l) = windowRun perMinute None (map fst (filter (\<lambda>c. snd c = ip) calls))"
    by (simp add: NewLimiter_def)
  moreover have "sorted (map fst (filter (\<lambda>c. snd c = ip) calls))"
    using assms(1) by (rule sorted_filter)
  ultimately show ?thesis using windowRun_twice[OF _ assms(2), of _ None a] by simp
qed

theorem rate_limit_holds_witness:
  "int (allowedIn 0 (answersFor ''a'' [(1, ''a''), (2, ''b''), (3, ''a''), (4, ''a'')]
     (runLimiter [(1, ''a''), (2, ''b''), (3, ''a''), (4, ''a'')] (NewLimiter 1)))) \<le> 2 * 1"
  by (rule rate_limit_holds) simp_all

text \<open>Breadth caps are exact: a filter passes iff each of its four sizes is within its cap,
  a cap of zero or less meaning no limit.\<close>

theorem breadth_caps_exact:
  "breadthReject r f = None \<longleftrightarrow>
     (rb_MaxIDs r \<le> 0 \<or> int (length (f_ids f)) \<le> rb_MaxIDs r) \<and>
     (rb_MaxAuthors r \<le> 0 \<or> int (length (f_authors f)) \<le> rb_MaxAuthors r) \<and>
     (rb_MaxKinds r \<le> 0 \<or> int (length (f_kinds f)) \<le> rb_MaxKinds r) \<and>
     (rb_MaxTags r \<le> 0 \<or> tagValues f \<le> rb_MaxTags r)"
  by (auto simp: breadthReject_def)

end
