(* ===== verification/Access.thy ===== *)
theory Access
  imports Control Classifier
begin

text \<open>
  Access control (\<open>internal/policy/auth.go\<close>): the allow-list cache over the control database,
  the NIP-42 gate of the websocket hooks, NIP-98 authentication of HTTP requests, and the
  management calls of NIP-86.

  \<^item> The connection and the authenticated pubkey khatru keeps in the request context are the
    arguments \<open>hasConn\<close> and \<open>authed\<close> (the empty string when there is none).
  \<^item> \<open>auth_lib\<close> holds what is not in the sources: the JSON decoder, tag lookup and signature
    check of go-nostr, and \<open>url.Parse\<close>, of which only \<open>Path\<close> and \<open>Hostname()\<close> are read.
  \<^item> \<open>accStep\<close> interleaves the two critical sections of every mutation and refresh: the database
    call, and the update of the cache under the mutex.
\<close>

record access =
  a_enabled :: bool
  a_admin :: "string set"
  a_static :: "string set"
  a_serviceHost :: string
  a_allowed :: "string set"

record auth_lib =
  lib_unmarshal :: "string \<Rightarrow> event option"
  lib_findTag :: "string \<Rightarrow> string slice slice \<Rightarrow> string list option"
  lib_parseURL :: "string \<Rightarrow> (string \<times> string) option"
  lib_checkSignature :: "event \<Rightarrow> bool"

record http_request =
  rq_method :: string
  rq_path :: string
  rq_authorization :: string

datatype auth_result = AuthErr string | AuthPanic | AuthOK string

text \<open>What a middleware does with a request: hand it on, answer with a status, or panic.\<close>

datatype http_outcome = Next | Answer nat string | HandlerPanic

section \<open>Definitions\<close>

definition toSet :: "string list \<Rightarrow> string set" where
  "toSet xs = set (filter (\<lambda>x. x \<noteq> []) xs)"

definition rebuild :: "string set \<Rightarrow> access \<Rightarrow> access" where
  "rebuild dynamic a = a\<lparr>a_allowed := a_static a \<union> dynamic\<rparr>"

definition NewAccess :: "(string \<Rightarrow> (string \<times> string) option) \<Rightarrow> fault \<Rightarrow> bool \<Rightarrow> string list \<Rightarrow> string list \<Rightarrow>
    string \<Rightarrow> control_db \<Rightarrow> string + access" where
  "NewAccess parseURL flt enabled allow admin serviceURL db =
     (let host = (case parseURL serviceURL of Some (path, host) \<Rightarrow> host | None \<Rightarrow> []);
          a = \<lparr>a_enabled = enabled, a_admin = toSet admin, a_static = toSet allow,
               a_serviceHost = host, a_allowed = {}\<rparr> in
      case LoadAllowedSet flt db of
        Inl e \<Rightarrow> Inl e
      | Inr dyn \<Rightarrow> Inr (rebuild dyn a))"

definition Refresh :: "fault \<Rightarrow> control_db \<Rightarrow> access \<Rightarrow> access" where
  "Refresh flt db a = (case LoadAllowedSet flt db of Inl e \<Rightarrow> a | Inr dyn \<Rightarrow> rebuild dyn a)"

definition Enabled :: "access \<Rightarrow> bool" where "Enabled a = a_enabled a"

definition IsAdmin :: "string \<Rightarrow> access \<Rightarrow> bool" where "IsAdmin pk a \<longleftrightarrow> pk \<in> a_admin a"

definition Allowed :: "string \<Rightarrow> access \<Rightarrow> bool" where "Allowed pk a \<longleftrightarrow> pk \<in> a_allowed a"

subsection \<open>The websocket gate\<close>

definition gate :: "bool \<Rightarrow> string \<Rightarrow> access \<Rightarrow> string option" where
  "gate hasConn authed a =
     (if \<not> a_enabled a then None
      else if \<not> hasConn then None
      else if authed = [] then Some ''auth-required: this relay requires authentication''
      else if \<not> Allowed authed a then Some ''restricted: your public key is not on the allow-list''
      else None)"

definition accessRejectEvent :: "bool \<Rightarrow> string \<Rightarrow> access \<Rightarrow> event \<Rightarrow> string option" where
  "accessRejectEvent hasConn authed a evt = gate hasConn authed a"

definition accessRejectFilter :: "bool \<Rightarrow> string \<Rightarrow> access \<Rightarrow> nostr_filter \<Rightarrow> string option" where
  "accessRejectFilter hasConn authed a f = gate hasConn authed a"

definition AdminGate :: "string \<Rightarrow> access \<Rightarrow> string option" where
  "AdminGate authed a = (if \<not> IsAdmin authed a then Some ''unauthorized: admin pubkey required'' else None)"

subsection \<open>NIP-98 authentication of HTTP requests\<close>

definition httpAuthWindow :: int where "httpAuthWindow = 60"

definition KindHTTPAuth :: int where "KindHTTPAuth = 27235"

text \<open>\<open>base64.StdEncoding.DecodeString\<close>: line breaks are skipped, padding closes the input.\<close>

definition b64val :: "char \<Rightarrow> nat option" where
  "b64val c =
     (let n = of_char c :: nat in
      if 65 \<le> n \<and> n \<le> 90 then Some (n - 65)
      else if 97 \<le> n \<and> n \<le> 122 then Some (n - 71)
      else if 48 \<le> n \<and> n \<le> 57 then Some (n + 4)
      else if c = CHR ''+'' then Some 62
      else if c = CHR ''/'' then Some 63
      else None)"

fun b64bytes :: "nat list \<Rightarrow> string" where
  "b64bytes [a, b] = [char_of (a * 4 + b div 16)]"
| "b64bytes [a, b, c] = [char_of (a * 4 + b div 16), char_of (b mod 16 * 16 + c div 4)]"
| "b64bytes [a, b, c, d] =
     [char_of (a * 4 + b div 16), char_of (b mod 16 * 16 + c div 4), char_of (c mod 4 * 64 + d)]"
| "b64bytes _ = []"

fun b64quanta :: "string \<Rightarrow> string option" where
  "b64quanta [] = Some []"
| "b64quanta (a # b # c # d # rest) =
     (if d = CHR ''='' then
        if rest \<noteq> [] then None
        else map_option b64bytes (those (map b64val (if c = CHR ''='' then [a, b] else [a, b, c])))
      else
        case those (map b64val [a, b, c, d]) of
          None \<Rightarrow> None
        | Some vs \<Rightarrow> map_option (append (b64bytes vs)) (b64quanta rest))"
| "b64quanta _ = None"

definition base64Decode :: "string \<Rightarrow> string option" where
  "base64Decode s = b64quanta (filter (\<lambda>c. c \<noteq> CHR 0x0D \<and> c \<noteq> CHR 0x0A) s)"

definition cutPrefix :: "string \<Rightarrow> string \<Rightarrow> string option" where
  "cutPrefix p s = (if take (length p) s = p then Some (drop (length p) s) else None)"

definition checkFresh :: "auth_lib \<Rightarrow> int \<Rightarrow> event \<Rightarrow> auth_result" where
  "checkFresh lib now evt =
     (if ev_created_at evt > now + httpAuthWindow \<or> ev_created_at evt < now - httpAuthWindow
        then AuthErr ''auth event is stale or future-dated''
      else if \<not> lib_checkSignature lib evt then AuthErr ''invalid auth event signature''
      else AuthOK (ev_pubkey evt))"

text \<open>The checks after decoding, in the order of the source. Indexing a found tag at 1 panics when
  it has no second element.\<close>

definition checkAuthEvent :: "auth_lib \<Rightarrow> int \<Rightarrow> access \<Rightarrow> http_request \<Rightarrow> event \<Rightarrow> auth_result" where
  "checkAuthEvent lib now a r evt =
     (if ev_kind evt \<noteq> KindHTTPAuth then AuthErr ''auth event must be kind 27235''
      else case lib_findTag lib ''u'' (ev_tags evt) of
        None \<Rightarrow> AuthErr ''auth event missing 'u' tag''
      | Some uTag \<Rightarrow>
          if length uTag < 2 then AuthPanic
          else case lib_parseURL lib (uTag ! 1) of
            None \<Rightarrow> AuthErr '''u' tag does not match request path''
          | Some (path, h) \<Rightarrow>
              if path \<noteq> rq_path r then AuthErr '''u' tag does not match request path''
              else if h \<noteq> [] \<and> a_serviceHost a \<noteq> [] \<and> \<not> equalFold h (a_serviceHost a)
                then AuthErr '''u' tag host does not match this relay''
              else case lib_findTag lib ''method'' (ev_tags evt) of
                None \<Rightarrow> checkFresh lib now evt
              | Some mTag \<Rightarrow>
                  if length mTag < 2 then AuthPanic
                  else if \<not> equalFold (mTag ! 1) (rq_method r)
                    then AuthErr '''method' tag does not match request method''
                  else checkFresh lib now evt)"

definition httpAuthPubkey :: "auth_lib \<Rightarrow> int \<Rightarrow> access \<Rightarrow> http_request \<Rightarrow> auth_result" where
  "httpAuthPubkey lib now a r =
     (case cutPrefix ''Nostr '' (rq_authorization r) of
        None \<Rightarrow> AuthErr (''missing 'Authorization: Nostr <base64 event>'' @ [CHR 0x27])
      | Some b64 \<Rightarrow>
          case base64Decode (trimSpace b64) of
            None \<Rightarrow> AuthErr ''invalid base64 auth event''
          | Some raw \<Rightarrow>
              case lib_unmarshal lib raw of
                None \<Rightarrow> AuthErr ''invalid auth event JSON''
              | Some evt \<Rightarrow> checkAuthEvent lib now a r evt)"

definition HTTPAuth :: "auth_lib \<Rightarrow> int \<Rightarrow> access \<Rightarrow> http_request \<Rightarrow> http_outcome" where
  "HTTPAuth lib now a r =
     (if \<not> a_enabled a then Next
      else case httpAuthPubkey lib now a r of
        AuthErr e \<Rightarrow> Answer 401 (''unauthorized: '' @ e)
      | AuthPanic \<Rightarrow> HandlerPanic
      | AuthOK pk \<Rightarrow>
          if \<not> Allowed pk a then Answer 403 ''forbidden: pubkey is not on the allow-list'' else Next)"

subsection \<open>Management calls\<close>

definition cacheAllow :: "string \<Rightarrow> access \<Rightarrow> access" where
  "cacheAllow pk a = a\<lparr>a_allowed := insert pk (a_allowed a)\<rparr>"

definition cacheRevoke :: "string \<Rightarrow> access \<Rightarrow> access" where
  "cacheRevoke pk a = (if pk \<in> a_static a then a else a\<lparr>a_allowed := a_allowed a - {pk}\<rparr>)"

definition AllowPubkey :: "fault \<Rightarrow> int \<Rightarrow> string \<Rightarrow> string \<Rightarrow> access \<times> control_db \<Rightarrow> fault \<times> access \<times> control_db" where
  "AllowPubkey flt now pk note = (\<lambda>(a, db).
     case AllowPubkeyDB flt now pk note db of
       (Some e, db1) \<Rightarrow> (Some e, a, db1)
     | (None, db1) \<Rightarrow> (None, cacheAllow pk a, db1))"

definition RevokePubkey :: "fault \<Rightarrow> string \<Rightarrow> access \<times> control_db \<Rightarrow> fault \<times> access \<times> control_db" where
  "RevokePubkey flt pk = (\<lambda>(a, db).
     case RevokePubkeyDB flt pk db of
       (Some e, db1) \<Rightarrow> (Some e, a, db1)
     | (None, db1) \<Rightarrow> (None, cacheRevoke pk a, db1))"

text \<open>The pairs of pubkey and reason. Ranging over the static map visits its keys in some order,
  the argument \<open>keys\<close>.\<close>

definition ListAllowedPubkeys :: "fault \<Rightarrow> string list \<Rightarrow> control_db \<Rightarrow> string + (string \<times> string) list" where
  "ListAllowedPubkeys flt keys db =
     (case ListAllowed flt db of
        Inl e \<Rightarrow> Inl e
      | Inr rows \<Rightarrow> Inr (map (\<lambda>r. (al_pubkey r, al_note r)) rows @ map (\<lambda>pk. (pk, ''config'')) keys))"

subsection \<open>Runs\<close>

text \<open>Complete calls one after the other, each with the fault of its database call.\<close>

datatype mgmt_call = CallAllow fault int string string | CallRevoke fault string | CallRefresh fault

fun manage :: "mgmt_call \<Rightarrow> access \<times> control_db \<Rightarrow> access \<times> control_db" where
  "manage (CallAllow flt now pk note) p = snd (AllowPubkey flt now pk note p)"
| "manage (CallRevoke flt pk) p = snd (RevokePubkey flt pk p)"
| "manage (CallRefresh flt) p = (Refresh flt (snd p) (fst p), snd p)"

text \<open>Overlapping calls: the database part of a call has been done and its update of the cache is
  pending. \<open>st_ever\<close> collects every pubkey the table has ever held.\<close>

datatype pending = PAllow string | PRevoke string | PRebuild "string set"

fun finish :: "pending \<Rightarrow> access \<Rightarrow> access" where
  "finish (PAllow pk) a = cacheAllow pk a"
| "finish (PRevoke pk) a = cacheRevoke pk a"
| "finish (PRebuild dyn) a = rebuild dyn a"

definition tableSet :: "control_db \<Rightarrow> string set" where
  "tableSet db = al_pubkey ` set (c_allowed db)"

record astate =
  st_access :: access
  st_db :: control_db
  st_pending :: "pending list"
  st_ever :: "string set"

definition setDB :: "control_db \<Rightarrow> astate \<Rightarrow> astate" where
  "setDB db s = s\<lparr>st_db := db, st_ever := st_ever s \<union> tableSet db\<rparr>"

inductive accStep :: "astate \<Rightarrow> astate \<Rightarrow> bool" where
  a_allow_db: "AllowPubkeyDB flt now pk note (st_db s) = (None, db) \<Longrightarrow>
     accStep s ((setDB db s)\<lparr>st_pending := st_pending s @ [PAllow pk]\<rparr>)"
| a_revoke_db: "RevokePubkeyDB flt pk (st_db s) = (None, db) \<Longrightarrow>
     accStep s ((setDB db s)\<lparr>st_pending := st_pending s @ [PRevoke pk]\<rparr>)"
| a_load: "LoadAllowedSet flt (st_db s) = Inr dyn \<Longrightarrow>
     accStep s (s\<lparr>st_pending := st_pending s @ [PRebuild dyn]\<rparr>)"
| a_external: "accStep s (setDB ((st_db s)\<lparr>c_allowed := rows\<rparr>) s)"
| a_finish: "st_pending s = ps @ p # qs \<Longrightarrow>
     accStep s (s\<lparr>st_access := finish p (st_access s), st_pending := ps @ qs\<rparr>)"

inductive_cases accStepE: "accStep s s'"

definition startAccess :: "access \<Rightarrow> control_db \<Rightarrow> astate" where
  "startAccess a db = \<lparr>st_access = a, st_db = db, st_pending = [], st_ever = tableSet db\<rparr>"

text \<open>The cache is the union of the configured keys and the table.\<close>

definition synced :: "access \<times> control_db \<Rightarrow> bool" where
  "synced = (\<lambda>(a, db). a_allowed a = a_static a \<union> tableSet db)"

section \<open>The allow-list as an interface\<close>

datatype 'g decision = Grant 'g | Revoke string

text \<open>The last decision about a key, if there is one. \<open>keyOf\<close> is the key a grant is for.\<close>

fun lastDecision :: "('g \<Rightarrow> string) \<Rightarrow> string \<Rightarrow> 'g decision list \<Rightarrow> bool option" where
  "lastDecision keyOf q [] = None"
| "lastDecision keyOf q (Grant g # ds) =
     (case lastDecision keyOf q ds of Some b \<Rightarrow> Some b | None \<Rightarrow> if q = keyOf g then Some True else None)"
| "lastDecision keyOf q (Revoke pk # ds) =
     (case lastDecision keyOf q ds of Some b \<Rightarrow> Some b | None \<Rightarrow> if q = pk then Some False else None)"

text \<open>What a client of an allow-list may rely on: keys that are fixed stay allowed, a grant adds its
  key, and a revocation removes its key unless it is fixed.\<close>

locale allow_list =
  fixes inv :: "'s \<Rightarrow> bool"
    and allowed :: "string \<Rightarrow> 's \<Rightarrow> bool"
    and fixed :: "string \<Rightarrow> 's \<Rightarrow> bool"
    and keyOf :: "'g \<Rightarrow> string"
    and grant :: "'g \<Rightarrow> 's \<Rightarrow> 's"
    and revoke :: "string \<Rightarrow> 's \<Rightarrow> 's"
  assumes inv_grant: "inv s \<Longrightarrow> inv (grant g s)"
    and inv_revoke: "inv s \<Longrightarrow> inv (revoke pk s)"
    and fixed_grant: "fixed q (grant g s) = fixed q s"
    and fixed_revoke: "fixed q (revoke pk s) = fixed q s"
    and fixed_allowed: "inv s \<Longrightarrow> fixed q s \<Longrightarrow> allowed q s"
    and allowed_grant: "inv s \<Longrightarrow> allowed q (grant g s) \<longleftrightarrow> q = keyOf g \<or> allowed q s"
    and allowed_revoke: "inv s \<Longrightarrow> allowed q (revoke pk s) \<longleftrightarrow> allowed q s \<and> (q \<noteq> pk \<or> fixed q s)"
begin

fun decide_all :: "'g decision list \<Rightarrow> 's \<Rightarrow> 's" where
  "decide_all [] s = s"
| "decide_all (Grant g # ds) s = decide_all ds (grant g s)"
| "decide_all (Revoke pk # ds) s = decide_all ds (revoke pk s)"

lemma inv_decide_all: "inv s \<Longrightarrow> inv (decide_all ds s)"
  by (induction ds s rule: decide_all.induct) (simp_all add: inv_grant inv_revoke)

lemma fixed_decide_all: "fixed q (decide_all ds s) = fixed q s"
  by (induction ds s rule: decide_all.induct) (simp_all add: fixed_grant fixed_revoke)

lemma last_decision_wins:
  "inv s \<Longrightarrow> allowed q (decide_all ds s) \<longleftrightarrow>
     fixed q s \<or> (case lastDecision keyOf q ds of Some b \<Rightarrow> b | None \<Rightarrow> allowed q s)"
proof (induction ds s rule: decide_all.induct)
  case (1 s)
  then show ?case using fixed_allowed by auto
next
  case (2 g ds s)
  then show ?case by (auto simp: inv_grant fixed_grant allowed_grant split: option.splits)
next
  case (3 pk ds s)
  then show ?case by (auto simp: inv_revoke fixed_revoke allowed_revoke fixed_allowed split: option.splits)
qed

end

text \<open>An allow-list whose invariant a refresh establishes from any state, without changing the fixed
  keys: \<open>backing\<close> says which keys the refresh finds.\<close>

locale refreshed_allow_list = allow_list +
  fixes refresh :: "'a \<Rightarrow> 'a"
    and backing :: "string \<Rightarrow> 'a \<Rightarrow> bool"
  assumes inv_refresh: "inv (refresh s)"
    and fixed_refresh: "fixed q (refresh s) = fixed q s"
    and allowed_refresh: "allowed q (refresh s) \<longleftrightarrow> fixed q s \<or> backing q s"
begin

lemma refresh_then_decide:
  "allowed q (decide_all ds (refresh s)) \<longleftrightarrow>
     fixed q s \<or> (case lastDecision keyOf q ds of Some b \<Rightarrow> b | None \<Rightarrow> backing q s)"
  using last_decision_wins[OF inv_refresh, of q ds s] by (auto simp: fixed_refresh allowed_refresh split: option.splits)

end

section \<open>Lemmas\<close>

lemma tableSet_allow: "AllowPubkeyDB flt now pk note db = (None, db') \<Longrightarrow> tableSet db' = insert pk (tableSet db)"
  by (auto simp: AllowPubkeyDB_def tableSet_def insertReplace_set split: option.splits)

lemma tableSet_revoke: "RevokePubkeyDB flt pk db = (None, db') \<Longrightarrow> tableSet db' = tableSet db - {pk}"
  by (auto simp: RevokePubkeyDB_def tableSet_def split: option.splits)

lemma load_allowed: "LoadAllowedSet flt db = Inr dyn \<Longrightarrow> dyn = tableSet db"
  by (simp add: LoadAllowedSet_def tableSet_def split: option.splits)

text \<open>A management call with a failing database call changes nothing; in a synchronised state every
  other call keeps the state synchronised.\<close>

lemma allow_ok:
  "AllowPubkey None now pk note (a, db) = (None, cacheAllow pk a, snd (AllowPubkeyDB None now pk note db))"
  by (simp add: AllowPubkey_def AllowPubkeyDB_def)

lemma revoke_ok:
  "RevokePubkey None pk (a, db) = (None, cacheRevoke pk a, snd (RevokePubkeyDB None pk db))"
  by (simp add: RevokePubkey_def RevokePubkeyDB_def)

lemma mgmt_failed:
  "AllowPubkey (Some e) now pk note p = (Some e, p)" "RevokePubkey (Some e) pk p = (Some e, p)"
  by (cases p; simp add: AllowPubkey_def AllowPubkeyDB_def RevokePubkey_def RevokePubkeyDB_def)+

definition liveAllowed :: "string \<Rightarrow> access \<times> control_db \<Rightarrow> bool" where "liveAllowed q p = Allowed q (fst p)"
definition liveFixed :: "string \<Rightarrow> access \<times> control_db \<Rightarrow> bool" where "liveFixed q p \<longleftrightarrow> q \<in> a_static (fst p)"

text \<open>A grant is made at a time, with a note.\<close>

record grant_req = g_pubkey :: string g_note :: string g_time :: int

definition liveGrant :: "grant_req \<Rightarrow> access \<times> control_db \<Rightarrow> access \<times> control_db" where
  "liveGrant g p = manage (CallAllow None (g_time g) (g_pubkey g) (g_note g)) p"
definition liveRevoke :: "string \<Rightarrow> access \<times> control_db \<Rightarrow> access \<times> control_db" where
  "liveRevoke pk p = manage (CallRevoke None pk) p"
definition liveRefresh :: "access \<times> control_db \<Rightarrow> access \<times> control_db" where
  "liveRefresh p = manage (CallRefresh None) p"
definition liveTable :: "string \<Rightarrow> access \<times> control_db \<Rightarrow> bool" where
  "liveTable q p \<longleftrightarrow> q \<in> tableSet (snd p)"

lemmas live_defs = liveAllowed_def liveFixed_def liveGrant_def liveRevoke_def liveRefresh_def liveTable_def
  Allowed_def synced_def

lemma tableSet_allow_ok: "tableSet (snd (AllowPubkeyDB None now pk note db)) = insert pk (tableSet db)"
  by (rule tableSet_allow[of None now pk "note"]) (simp add: AllowPubkeyDB_def)

lemma tableSet_revoke_ok: "tableSet (snd (RevokePubkeyDB None pk db)) = tableSet db - {pk}"
  by (rule tableSet_revoke[of None]) (simp add: RevokePubkeyDB_def)

lemma refresh_ok: "Refresh None db a = rebuild (tableSet db) a"
  by (simp add: Refresh_def LoadAllowedSet_def tableSet_def)

interpretation relay_access: refreshed_allow_list synced liveAllowed liveFixed g_pubkey liveGrant liveRevoke
  liveRefresh liveTable
proof (unfold_locales, goal_cases)
  case (1 s g)
  then show ?case by (cases s) (simp add: live_defs allow_ok tableSet_allow_ok cacheAllow_def)
next
  case (2 s pk)
  then show ?case by (cases s) (auto simp: live_defs revoke_ok tableSet_revoke_ok cacheRevoke_def)
next
  case (3 q g s)
  then show ?case by (cases s) (simp add: live_defs allow_ok cacheAllow_def)
next
  case (4 q pk s)
  then show ?case by (cases s) (simp add: live_defs revoke_ok cacheRevoke_def)
next
  case (5 s q)
  then show ?case by (cases s) (simp add: live_defs)
next
  case (6 s q g)
  then show ?case by (cases s) (simp add: live_defs allow_ok cacheAllow_def)
next
  case (7 s q pk)
  then show ?case by (cases s) (auto simp: live_defs revoke_ok cacheRevoke_def)
next
  case (8 s)
  then show ?case by (cases s) (simp add: live_defs refresh_ok rebuild_def)
next
  case (9 q s)
  then show ?case by (cases s) (simp add: live_defs refresh_ok rebuild_def)
next
  case (10 q s)
  then show ?case by (cases s) (simp add: live_defs refresh_ok rebuild_def)
qed

text \<open>Any sequence of calls is a sequence of decisions: the failed calls and, in a synchronised
  state, the refreshes drop out.\<close>

fun decisions :: "mgmt_call list \<Rightarrow> grant_req decision list" where
  "decisions [] = []"
| "decisions (CallAllow None now pk note # cs) =
     Grant \<lparr>g_pubkey = pk, g_note = note, g_time = now\<rparr> # decisions cs"
| "decisions (CallRevoke None pk # cs) = Revoke pk # decisions cs"
| "decisions (c # cs) = decisions cs"

lemma refresh_synced: "synced p \<Longrightarrow> manage (CallRefresh flt) p = p"
  by (cases p; cases flt) (auto simp: synced_def Refresh_def LoadAllowedSet_def tableSet_def rebuild_def)

lemma manage_decides: "synced p \<Longrightarrow> fold manage cs p = relay_access.decide_all (decisions cs) p"
proof (induction cs arbitrary: p rule: decisions.induct)
  case (2 now pk nt cs)
  have "manage (CallAllow None now pk nt) p = liveGrant \<lparr>g_pubkey = pk, g_note = nt, g_time = now\<rparr> p"
    by (simp add: liveGrant_def)
  then show ?case using 2 relay_access.inv_grant[OF 2(2)] by (simp del: manage.simps)
next
  case (3 pk cs)
  have "manage (CallRevoke None pk) p = liveRevoke pk p" by (simp add: liveRevoke_def)
  then show ?case using 3 relay_access.inv_revoke[OF 3(2)] by (simp del: manage.simps)
qed (simp_all add: mgmt_failed refresh_synced del: manage.simps(3))

section \<open>Overlapping calls\<close>

definition pendingKeys :: "pending \<Rightarrow> string set" where
  "pendingKeys p = (case p of PAllow pk \<Rightarrow> {pk} | PRevoke pk \<Rightarrow> {} | PRebuild dyn \<Rightarrow> dyn)"

text \<open>Only granted keys are cached or about to be, and configured keys are always cached.\<close>

definition agood :: "string set \<Rightarrow> astate \<Rightarrow> bool" where
  "agood st s \<longleftrightarrow> a_static (st_access s) = st \<and> st \<subseteq> a_allowed (st_access s) \<and>
     a_allowed (st_access s) \<subseteq> st \<union> st_ever s \<and>
     (\<forall>p \<in> set (st_pending s). pendingKeys p \<subseteq> st_ever s) \<and> tableSet (st_db s) \<subseteq> st_ever s"

lemma finish_keys:
  "a_static (finish p a) = a_static a"
  "a_static a \<subseteq> a_allowed a \<Longrightarrow> a_static a \<subseteq> a_allowed (finish p a)"
  "a_allowed (finish p a) \<subseteq> a_static a \<union> a_allowed a \<union> pendingKeys p"
  by (cases p; auto simp: cacheAllow_def cacheRevoke_def rebuild_def pendingKeys_def)+

lemma agood_step:
  assumes "accStep s s'" "agood st s"
  shows "agood st s'"
  using assms
proof (cases rule: accStep.cases)
  case (a_allow_db flt now pk nt db)
  then show ?thesis using assms(2) tableSet_allow[OF a_allow_db(2)]
    by (auto simp: agood_def setDB_def pendingKeys_def)
next
  case (a_revoke_db flt pk db)
  then show ?thesis using assms(2) tableSet_revoke[OF a_revoke_db(2)]
    by (auto simp: agood_def setDB_def pendingKeys_def)
next
  case (a_load flt dyn)
  then show ?thesis using assms(2) load_allowed[OF a_load(2)]
    by (auto simp: agood_def pendingKeys_def)
next
  case (a_external rows)
  then show ?thesis using assms(2) by (auto simp: agood_def setDB_def)
next
  case (a_finish ps p qs)
  have good: "a_static (st_access s) = st" "st \<subseteq> a_allowed (st_access s)"
    "a_allowed (st_access s) \<subseteq> st \<union> st_ever s" "pendingKeys p \<subseteq> st_ever s"
    using assms(2) a_finish(2) by (simp_all add: agood_def)
  have "a_allowed (finish p (st_access s)) \<subseteq> st \<union> st_ever s"
    using finish_keys(3)[of p "st_access s"] good by auto
  then show ?thesis using assms(2) a_finish finish_keys(1)[of p] finish_keys(2)[of "st_access s" p] good by (auto simp: agood_def)
qed

lemma agood_run: "accStep\<^sup>*\<^sup>* s s' \<Longrightarrow> agood st s \<Longrightarrow> agood st s'"
  by (induction rule: rtranclp_induct) (auto intro: agood_step)

lemma agood_start:
  assumes "NewAccess pu flt en allow admin url db = Inr a"
  shows "agood (toSet allow) (startAccess a db)" "synced (a, db)" "a_admin a = toSet admin" "a_static a = toSet allow"
  using assms load_allowed[of flt db]
  by (auto simp: NewAccess_def startAccess_def agood_def synced_def rebuild_def Let_def split: sum.splits)

section \<open>Properties\<close>

lemma checkFresh_OK:
  "checkFresh lib now evt = AuthOK pk \<longleftrightarrow>
     pk = ev_pubkey evt \<and> \<bar>ev_created_at evt - now\<bar> \<le> httpAuthWindow \<and> lib_checkSignature lib evt"
  by (auto simp: checkFresh_def httpAuthWindow_def)

text \<open>What an authenticating event has to say about the request.\<close>

definition bindsRequest :: "auth_lib \<Rightarrow> access \<Rightarrow> http_request \<Rightarrow> event \<Rightarrow> bool" where
  "bindsRequest lib a r evt \<longleftrightarrow>
     (case lib_findTag lib ''u'' (ev_tags evt) of
        None \<Rightarrow> False
      | Some u \<Rightarrow> length u \<ge> 2 \<and>
          (case lib_parseURL lib (u ! 1) of
             None \<Rightarrow> False
           | Some (path, h) \<Rightarrow> path = rq_path r \<and> (h = [] \<or> a_serviceHost a = [] \<or> equalFold h (a_serviceHost a)))) \<and>
     (case lib_findTag lib ''method'' (ev_tags evt) of
        None \<Rightarrow> True
      | Some m \<Rightarrow> length m \<ge> 2 \<and> equalFold (m ! 1) (rq_method r))"

lemma checkAuthEvent_OK:
  "checkAuthEvent lib now a r evt = AuthOK pk \<longleftrightarrow>
     ev_kind evt = KindHTTPAuth \<and> bindsRequest lib a r evt \<and> checkFresh lib now evt = AuthOK pk"
  by (auto simp: checkAuthEvent_def bindsRequest_def split: option.splits)

text \<open>C10. HTTP authentication admits exactly the right requests: with access control on, a request
  reaches the handler iff its Authorization header carries a decodable event of kind 27235 that
  names the request's path (and this relay's host, and the method, where both sides state them),
  is at most 60 seconds off the clock, is validly signed, and whose author is on the allow-list.\<close>

theorem http_auth_exact:
  assumes "a_enabled a"
  shows "HTTPAuth lib now a r = Next \<longleftrightarrow>
    (\<exists>b64 raw evt. rq_authorization r = ''Nostr '' @ b64 \<and> base64Decode (trimSpace b64) = Some raw \<and>
       lib_unmarshal lib raw = Some evt \<and> ev_kind evt = 27235 \<and> bindsRequest lib a r evt \<and>
       \<bar>ev_created_at evt - now\<bar> \<le> 60 \<and> lib_checkSignature lib evt \<and> Allowed (ev_pubkey evt) a)"
proof -
  have cut: "cutPrefix p s = Some t \<longleftrightarrow> s = p @ t" for p s t
    by (auto simp: cutPrefix_def) (metis append_take_drop_id)
  have "HTTPAuth lib now a r = Next \<longleftrightarrow> (\<exists>pk. httpAuthPubkey lib now a r = AuthOK pk \<and> Allowed pk a)"
    using assms by (auto simp: HTTPAuth_def split: auth_result.splits)
  also have "\<dots> \<longleftrightarrow> (\<exists>b64 raw evt pk. rq_authorization r = ''Nostr '' @ b64 \<and>
      base64Decode (trimSpace b64) = Some raw \<and> lib_unmarshal lib raw = Some evt \<and>
      checkAuthEvent lib now a r evt = AuthOK pk \<and> Allowed pk a)"
    unfolding cut[symmetric] by (auto simp: httpAuthPubkey_def split: option.splits)
  finally show ?thesis unfolding checkAuthEvent_OK checkFresh_OK
    by (auto simp: KindHTTPAuth_def httpAuthWindow_def)
qed

definition demo_access :: access where
  "demo_access = \<lparr>a_enabled = True, a_admin = {}, a_static = {''pk''}, a_serviceHost = ''relay.example'',
     a_allowed = {''pk''}\<rparr>"

definition demo_auth :: event where
  "demo_auth = \<lparr>ev_id = ''a7'', ev_pubkey = ''pk'', ev_created_at = 1000, ev_kind = 27235,
     ev_tags = Some [Some [''u'', ''https://Relay.Example/v1/events'']], ev_content = [], ev_sig = ''s''\<rparr>"

definition demo_lib :: auth_lib where
  "demo_lib = \<lparr>lib_unmarshal = (\<lambda>raw. if raw = ''e'' then Some demo_auth else None),
     lib_findTag = (\<lambda>k tags. find (\<lambda>t. length t \<ge> 2 \<and> hd t = k) (map elems (elems tags))),
     lib_parseURL = (\<lambda>u. Some (''/v1/events'', ''Relay.Example'')),
     lib_checkSignature = (\<lambda>e. ev_sig e = ''s'')\<rparr>"

definition demo_request :: http_request where
  "demo_request = \<lparr>rq_method = ''GET'', rq_path = ''/v1/events'', rq_authorization = ''Nostr ZQ==''\<rparr>"

lemma demo_binds: "bindsRequest demo_lib demo_access demo_request demo_auth" by code_simp

theorem http_auth_exact_witness:
  "HTTPAuth demo_lib 1030 demo_access demo_request = Next \<and> HTTPAuth demo_lib 1061 demo_access demo_request \<noteq> Next"
proof
  have dec: "base64Decode (trimSpace ''ZQ=='') = Some ''e''" by code_simp
  have fields: "rq_authorization demo_request = ''Nostr '' @ ''ZQ==''" "lib_unmarshal demo_lib ''e'' = Some demo_auth"
    "ev_kind demo_auth = 27235" "\<bar>ev_created_at demo_auth - 1030\<bar> \<le> 60" "lib_checkSignature demo_lib demo_auth"
    "Allowed (ev_pubkey demo_auth) demo_access" by code_simp+
  show "HTTPAuth demo_lib 1030 demo_access demo_request = Next"
    unfolding http_auth_exact[of demo_access demo_lib 1030 demo_request, simplified demo_access_def access.simps, OF TrueI,
        folded demo_access_def]
    using dec fields demo_binds by blast
  show "HTTPAuth demo_lib 1061 demo_access demo_request \<noteq> Next" by code_simp
qed

text \<open>C15. The last management decision about a key counts: starting from a successfully
  constructed access control, through any sequence of grants, revocations and refreshes with any
  database failures, a key is allowed iff it is configured or the last successful decision about
  it was a grant (without one: iff the table held it at the start), and the cache stays the union
  of the configured keys and the table.\<close>

theorem last_management_call_wins:
  assumes "NewAccess pu flt en allow admin url db = Inr a" "fold manage calls (a, db) = (a', db')"
  shows "(Allowed q a' \<longleftrightarrow> q \<in> toSet allow \<or>
      (case lastDecision g_pubkey q (decisions calls) of Some b \<Rightarrow> b | None \<Rightarrow> q \<in> tableSet db)) \<and>
    a_allowed a' = toSet allow \<union> tableSet db'"
proof (rule conjI)
  note start = agood_start[OF assms(1)]
  have run: "relay_access.decide_all (decisions calls) (a, db) = (a', db')"
    using manage_decides[OF start(2)] assms(2) by simp
  show "Allowed q a' \<longleftrightarrow> q \<in> toSet allow \<or>
      (case lastDecision g_pubkey q (decisions calls) of Some b \<Rightarrow> b | None \<Rightarrow> q \<in> tableSet db)"
    using relay_access.last_decision_wins[OF start(2), of q "decisions calls"] start(2,4) run
    by (auto simp: live_defs split: option.splits)
  have "a_static a' = a_static a"
    using relay_access.fixed_decide_all[of _ "decisions calls" "(a, db)"] run by (auto simp: liveFixed_def)
  show "a_allowed a' = toSet allow \<union> tableSet db'"
    using relay_access.inv_decide_all[OF start(2), of "decisions calls"] run start(4) \<open>a_static a' = a_static a\<close>
    by (simp add: synced_def)
qed

definition demo_calls :: "mgmt_call list" where
  "demo_calls = [CallAllow None 5 ''alice'' ''paid'', CallAllow None 6 ''bob'' [], CallRefresh None,
     CallRevoke None ''alice'', CallRevoke (Some ''disk'') ''bob'', CallRevoke None ''op'']"

theorem last_management_call_wins_witness:
  "\<exists>a. NewAccess (\<lambda>u. None) None True [''op''] [] [] emptyDB = Inr a \<and>
     map (\<lambda>q. Allowed q (fst (fold manage demo_calls (a, emptyDB)))) [''alice'', ''bob'', ''op''] = [False, True, True]"
proof -
  obtain a where a: "NewAccess (\<lambda>u. None) None True [''op''] [] [] emptyDB = Inr a"
    by (simp add: NewAccess_def LoadAllowedSet_def)
  obtain a' db' where run: "fold manage demo_calls (a, emptyDB) = (a', db')" by fastforce
  have "Allowed q a' \<longleftrightarrow> q = ''op'' \<or> q = ''bob''" for q
    unfolding conjunct1[OF last_management_call_wins[OF a run]]
    by (auto simp: demo_calls_def toSet_def tableSet_def emptyDB_def)
  then show ?thesis using a run by simp
qed

text \<open>Only granted keys get in, however calls overlap: interleaving the database and cache
  parts of any number of management calls and refreshes with external writes to the table, every
  cached key is configured or has been in the table at some time, configured keys are never
  missing, and no run gives the empty pubkey administrator rights.\<close>

theorem only_granted_keys:
  assumes "NewAccess pu flt en allow admin url db = Inr a" "accStep\<^sup>*\<^sup>* (startAccess a db) s"
  shows "toSet allow \<subseteq> a_allowed (st_access s)"
    and "a_allowed (st_access s) \<subseteq> toSet allow \<union> st_ever s"
    and "IsAdmin pk (st_access s) \<longleftrightarrow> pk \<in> set admin \<and> pk \<noteq> []"
proof -
  note start = agood_start[OF assms(1)]
  have good: "agood (toSet allow) s" by (rule agood_run[OF assms(2) start(1)])
  then show "toSet allow \<subseteq> a_allowed (st_access s)" "a_allowed (st_access s) \<subseteq> toSet allow \<union> st_ever s"
    by (simp_all add: agood_def)
  have admin: "a_admin (finish p b) = a_admin b" for p b
    by (cases p) (simp_all add: cacheAllow_def cacheRevoke_def rebuild_def)
  have "a_admin (st_access s) = toSet admin" using assms(2)
  proof (induction rule: rtranclp_induct)
    case base
    then show ?case using start(3) by (simp add: startAccess_def)
  next
    case (step y z)
    from step(2,3) show ?case by cases (auto simp: setDB_def admin)
  qed
  then show "IsAdmin pk (st_access s) \<longleftrightarrow> pk \<in> set admin \<and> pk \<noteq> []"
    by (simp add: IsAdmin_def toSet_def)
qed

text \<open>A refresh that loaded the table before a revocation and rebuilds the cache after it.\<close>

definition race_db :: control_db where
  "race_db = emptyDB\<lparr>c_allowed := [\<lparr>al_pubkey = ''mallory'', al_note = [], al_created_at = 0\<rparr>]\<rparr>"

definition race_access :: access where
  "race_access = \<lparr>a_enabled = True, a_admin = {}, a_static = {}, a_serviceHost = [], a_allowed = {''mallory''}\<rparr>"

definition race_end :: astate where
  "race_end = \<lparr>st_access = race_access, st_db = emptyDB, st_pending = [], st_ever = {''mallory''}\<rparr>"

lemma race_start: "NewAccess (\<lambda>u. None) None True [] [] [] race_db = Inr race_access"
  by (simp add: NewAccess_def LoadAllowedSet_def rebuild_def toSet_def race_db_def race_access_def)

lemma race_run: "accStep\<^sup>*\<^sup>* (startAccess race_access race_db) race_end"
proof -
  let ?s0 = "startAccess race_access race_db"
  let ?s1 = "?s0\<lparr>st_pending := [PRebuild {''mallory''}]\<rparr>"
  let ?s2 = "?s1\<lparr>st_db := emptyDB, st_pending := [PRebuild {''mallory''}, PRevoke ''mallory'']\<rparr>"
  let ?s3 = "?s2\<lparr>st_access := race_access\<lparr>a_allowed := {}\<rparr>, st_pending := [PRebuild {''mallory''}]\<rparr>"
  have "accStep ?s0 ?s1"
    using a_load[of None ?s0 "{''mallory''}"] by (simp add: startAccess_def LoadAllowedSet_def race_db_def)
  moreover have "accStep ?s1 ?s2"
    using a_revoke_db[of None "''mallory''" ?s1 emptyDB]
    by (simp add: startAccess_def RevokePubkeyDB_def race_db_def setDB_def tableSet_def emptyDB_def)
  moreover have "accStep ?s2 ?s3"
    using a_finish[of ?s2 "[PRebuild {''mallory''}]" "PRevoke ''mallory''" "[]"]
    by (simp add: startAccess_def cacheRevoke_def race_access_def)
  moreover have "accStep ?s3 race_end"
    using a_finish[of ?s3 "[]" "PRebuild {''mallory''}" "[]"]
    by (simp add: startAccess_def rebuild_def race_access_def race_end_def tableSet_def race_db_def)
  ultimately show ?thesis by (meson converse_rtranclp_into_rtranclp rtranclp.rtrancl_refl)
qed

theorem only_granted_keys_witness:
  "\<exists>s. accStep\<^sup>*\<^sup>* (startAccess race_access race_db) s \<and> a_allowed (st_access s) \<subseteq> toSet [] \<union> st_ever s \<and>
     \<not> IsAdmin [] (st_access s)"
  using only_granted_keys(2,3)[OF race_start race_run] race_run by auto

text \<open>A refresh can reinstate a revoked key, until the next refresh: there is a run without
  external writes in which a key has been revoked, no call is in progress, and the cache still
  allows it; but whatever happened before, a refresh that reads the table makes the cache the
  union of the configured keys and the table again.\<close>

theorem revoke_refresh_race:
  "(\<exists>a s. NewAccess (\<lambda>u. None) None True [] [] [] race_db = Inr a \<and> accStep\<^sup>*\<^sup>* (startAccess a race_db) s \<and>
      st_pending s = [] \<and> ''mallory'' \<notin> tableSet (st_db s) \<and> gate True ''mallory'' (st_access s) = None) \<and>
   (\<forall>db b. a_allowed (Refresh None db b) = a_static b \<union> tableSet db)"
proof
  have "st_pending race_end = [] \<and> ''mallory'' \<notin> tableSet (st_db race_end) \<and>
      gate True ''mallory'' (st_access race_end) = None"
    by (simp add: race_end_def tableSet_def emptyDB_def gate_def Allowed_def race_access_def)
  then show "\<exists>a s. NewAccess (\<lambda>u. None) None True [] [] [] race_db = Inr a \<and>
      accStep\<^sup>*\<^sup>* (startAccess a race_db) s \<and> st_pending s = [] \<and> ''mallory'' \<notin> tableSet (st_db s) \<and>
      gate True ''mallory'' (st_access s) = None"
    using race_start race_run by blast
  show "\<forall>db b. a_allowed (Refresh None db b) = a_static b \<union> tableSet db"
    by (simp add: refresh_ok rebuild_def)
qed

end
