(* ===== verification/Relay_Hooks.thy ===== *)
theory Relay_Hooks
  imports Access Rate_Limit Scheduler Store
begin

text \<open>
  The wiring of the relay (\<open>internal/relay/relay.go\<close>): \<open>New\<close> puts the store, the scheduler and
  the policies into the hook lists of a khatru relay. A hook is a function of the request
  context, its argument and the state the hooks share.

  \<^item> khatru is not part of the sources. The relay \<open>khatru.NewRelay()\<close> returns is the argument
    \<open>rl\<close> of \<open>New\<close>. How khatru runs a list of reject hooks is the parameter \<open>run\<close> with the
    documented law of the locale \<open>hook_runner\<close>: in order, the first rejection wins.
  \<^item> \<open>relay_env\<close> holds what the calls depend on besides the state: the store's surroundings,
    the configured override, the JSON encoder and the fault of the scheduler's insert.
  \<^item> A pointer of \<open>Deps\<close> that may be nil is an option; the scheduler is its buffer.
\<close>

record hook_ctx =
  cx_conn :: bool
  cx_internal :: bool
  cx_authed :: string
  cx_ip :: string
  cx_now :: instant

record relay_state =
  rs_store :: store
  rs_db :: control_db
  rs_limiter :: limiter
  rs_access :: access

record relay_env =
  env_world :: world
  env_order :: "string list"
  env_override :: override
  env_marshal :: "event \<Rightarrow> string + string"
  env_fault :: fault
  env_rowCount :: "string \<Rightarrow> cond list \<Rightarrow> string + nat"

record deps =
  dp_sched :: "duration option"
  dp_limiter :: bool
  dp_breadth :: RejectFilterBreadth
  dp_access :: "access option"
  dp_serviceURL :: string
  dp_defaultSinceHours :: int

datatype handler_error = StoreFailed store_error | ParkFailed string

type_synonym 'x reject_hook = "hook_ctx \<Rightarrow> 'x \<Rightarrow> relay_state \<Rightarrow> string option \<times> relay_state"
type_synonym write_hook = "hook_ctx \<Rightarrow> event \<Rightarrow> relay_state \<Rightarrow> handler_error option \<times> relay_state"

record relay =
  r_ServiceURL :: string
  r_SupportedNIPs :: "int list"
  r_RejectEvent :: "event reject_hook list"
  r_StoreEvent :: "write_hook list"
  r_ReplaceEvent :: "write_hook list"
  r_DeleteEvent :: "write_hook list"
  r_PreventBroadcast :: "(hook_ctx \<Rightarrow> event \<Rightarrow> bool) list"
  r_OverwriteFilter :: "(hook_ctx \<Rightarrow> nostr_filter \<Rightarrow> nostr_filter) list"
  r_RejectFilter :: "nostr_filter reject_hook list"
  r_RejectCountFilter :: "nostr_filter reject_hook list"
  r_QueryEvents :: "(hook_ctx \<Rightarrow> nostr_filter \<Rightarrow> relay_state \<Rightarrow> (read_error + event list) \<times> relay_state) list"
  r_CountEvents :: "(hook_ctx \<Rightarrow> nostr_filter \<Rightarrow> read_error + nat) list"
  r_RejectAPICall :: "(hook_ctx \<Rightarrow> relay_state \<Rightarrow> string option) list"
  r_AllowPubKey :: "(hook_ctx \<Rightarrow> string \<Rightarrow> string \<Rightarrow> relay_state \<Rightarrow> fault \<times> relay_state) option"
  r_BanPubKey :: "(hook_ctx \<Rightarrow> string \<Rightarrow> string \<Rightarrow> relay_state \<Rightarrow> fault \<times> relay_state) option"
  r_ListAllowedPubKeys :: "(string list \<Rightarrow> relay_state \<Rightarrow> string + (string \<times> string) list) option"

section \<open>Definitions\<close>

subsection \<open>The hooks\<close>

definition authEventHook :: "event reject_hook" where
  "authEventHook c evt s = (accessRejectEvent (cx_conn c) (cx_authed c) (rs_access s) evt, s)"

definition authFilterHook :: "nostr_filter reject_hook" where
  "authFilterHook c f s = (accessRejectFilter (cx_conn c) (cx_authed c) (rs_access s) f, s)"

definition scopeHook :: "event reject_hook" where
  "scopeHook c evt s = (RejectOutOfScope evt, s)"

definition limitEventHook :: "event reject_hook" where
  "limitEventHook c evt s =
     (case limiterRejectEvent (cx_now c) (cx_ip c) (rs_limiter s) of (r, l) \<Rightarrow> (r, s\<lparr>rs_limiter := l\<rparr>))"

definition limitFilterHook :: "nostr_filter reject_hook" where
  "limitFilterHook c f s =
     (case limiterRejectFilter (cx_now c) (cx_ip c) (rs_limiter s) of (r, l) \<Rightarrow> (r, s\<lparr>rs_limiter := l\<rparr>))"

definition breadthHook :: "RejectFilterBreadth \<Rightarrow> nostr_filter reject_hook" where
  "breadthHook b c f s = (breadthReject b f, s)"

definition saveHook :: "relay_env \<Rightarrow> write_hook" where
  "saveHook env c evt s =
     (case SaveEvent (env_override env) evt (rs_store s) of
        (e, st) \<Rightarrow> (map_option StoreFailed e, s\<lparr>rs_store := st\<rparr>))"

definition deferOrSave :: "relay_env \<Rightarrow> duration \<Rightarrow> write_hook" where
  "deferOrSave env buffer c evt s =
     (if ShouldDefer (cx_now c) buffer evt
      then (case Defer (env_marshal env) (env_fault env) evt (rs_db s) of
              (e, db) \<Rightarrow> (map_option ParkFailed e, s\<lparr>rs_db := db\<rparr>))
      else saveHook env c evt s)"

definition replaceHook :: "relay_env \<Rightarrow> write_hook" where
  "replaceHook env c evt s =
     (case ReplaceEvent (env_world env) (env_order env) (env_override env) evt (rs_store s) of
        (e, st) \<Rightarrow> (map_option StoreFailed e, s\<lparr>rs_store := st\<rparr>))"

definition deleteHook :: write_hook where
  "deleteHook c evt s =
     (case DeleteEvent evt (rs_store s) of (e, st) \<Rightarrow> (map_option StoreFailed e, s\<lparr>rs_store := st\<rparr>))"

definition queryHook :: "relay_env \<Rightarrow> hook_ctx \<Rightarrow> nostr_filter \<Rightarrow> relay_state \<Rightarrow> (read_error + event list) \<times> relay_state" where
  "queryHook env c f s =
     (case QueryEvents (env_world env) (env_order env) (cx_internal c) (cx_now c) (env_override env) f (rs_store s) of
        (r, st) \<Rightarrow> (r, s\<lparr>rs_store := st\<rparr>))"

definition countHook :: "relay_env \<Rightarrow> hook_ctx \<Rightarrow> nostr_filter \<Rightarrow> read_error + nat" where
  "countHook env c f = CountEvents (wd_admit (env_world env)) (wd_cancelled (env_world env)) (env_rowCount env) (env_override env) f"

definition defaultSince :: "int \<Rightarrow> hook_ctx \<Rightarrow> nostr_filter \<Rightarrow> nostr_filter" where
  "defaultSince hours c f =
     (if f_ids f \<noteq> [] \<or> f_authors f \<noteq> [] \<or> f_tags f \<noteq> [] \<or> f_until f \<noteq> None then f
      else if f_since f \<noteq> None then f
      else f\<lparr>f_since := Some (cx_now c div second - hours * 3600)\<rparr>)"

definition adminHook :: "hook_ctx \<Rightarrow> relay_state \<Rightarrow> string option" where
  "adminHook c s = AdminGate (cx_authed c) (rs_access s)"

definition allowCall :: "relay_env \<Rightarrow> hook_ctx \<Rightarrow> string \<Rightarrow> string \<Rightarrow> relay_state \<Rightarrow> fault \<times> relay_state" where
  "allowCall env c pk reason s =
     (case AllowPubkey (env_fault env) (cx_now c div second) pk reason (rs_access s, rs_db s) of
        (e, a, db) \<Rightarrow> (e, s\<lparr>rs_access := a, rs_db := db\<rparr>))"

definition banCall :: "relay_env \<Rightarrow> hook_ctx \<Rightarrow> string \<Rightarrow> string \<Rightarrow> relay_state \<Rightarrow> fault \<times> relay_state" where
  "banCall env c pk reason s =
     (case RevokePubkey (env_fault env) pk (rs_access s, rs_db s) of
        (e, a, db) \<Rightarrow> (e, s\<lparr>rs_access := a, rs_db := db\<rparr>))"

definition listCall :: "relay_env \<Rightarrow> string list \<Rightarrow> relay_state \<Rightarrow> string + (string \<times> string) list" where
  "listCall env keys s = ListAllowedPubkeys (env_fault env) keys (rs_db s)"

subsection \<open>New\<close>

definition prepend :: "'h list \<Rightarrow> 'h \<Rightarrow> 'h list" where
  "prepend hooks fn = fn # hooks"

definition authEnabled :: "deps \<Rightarrow> bool" where
  "authEnabled d = (case dp_access d of None \<Rightarrow> False | Some a \<Rightarrow> Enabled a)"

definition wireInfo :: "deps \<Rightarrow> relay \<Rightarrow> relay" where
  "wireInfo d rl =
     (let rl1 = rl\<lparr>r_SupportedNIPs := [1, 9, 11, 12, 15, 45]\<rparr>;
          rl2 = (if dp_serviceURL d \<noteq> [] then rl1\<lparr>r_ServiceURL := dp_serviceURL d\<rparr> else rl1) in
      if authEnabled d then rl2\<lparr>r_SupportedNIPs := r_SupportedNIPs rl2 @ [42, 86]\<rparr> else rl2)"

definition wireIngress :: "deps \<Rightarrow> relay \<Rightarrow> relay" where
  "wireIngress d rl =
     (let hs0 = r_RejectEvent rl;
          hs1 = (if authEnabled d then prepend hs0 authEventHook else hs0);
          hs2 = hs1 @ [scopeHook];
          hs3 = (if dp_limiter d then hs2 @ [limitEventHook] else hs2) in
      rl\<lparr>r_RejectEvent := hs3\<rparr>)"

definition wireStorage :: "relay_env \<Rightarrow> deps \<Rightarrow> relay \<Rightarrow> relay" where
  "wireStorage env d rl =
     (let save = (case dp_sched d of None \<Rightarrow> saveHook env | Some buffer \<Rightarrow> deferOrSave env buffer);
          prevent = (case dp_sched d of
                       None \<Rightarrow> r_PreventBroadcast rl
                     | Some buffer \<Rightarrow> r_PreventBroadcast rl @ [\<lambda>c evt. ShouldDefer (cx_now c) buffer evt]) in
      rl\<lparr>r_PreventBroadcast := prevent,
         r_StoreEvent := r_StoreEvent rl @ [save],
         r_ReplaceEvent := r_ReplaceEvent rl @ [replaceHook env],
         r_DeleteEvent := r_DeleteEvent rl @ [deleteHook],
         r_QueryEvents := r_QueryEvents rl @ [queryHook env],
         r_CountEvents := r_CountEvents rl @ [countHook env]\<rparr>)"

definition wireEgress :: "deps \<Rightarrow> relay \<Rightarrow> relay" where
  "wireEgress d rl =
     (let ow = (if dp_defaultSinceHours d > 0
                then r_OverwriteFilter rl @ [defaultSince (dp_defaultSinceHours d)] else r_OverwriteFilter rl);
          auth = (\<lambda>hs. if authEnabled d then prepend hs authFilterHook else hs);
          lim = (\<lambda>hs. if dp_limiter d then hs @ [limitFilterHook] else hs);
          br = (\<lambda>hs. hs @ [breadthHook (dp_breadth d)]) in
      rl\<lparr>r_OverwriteFilter := ow,
         r_RejectFilter := br (lim (auth (r_RejectFilter rl))),
         r_RejectCountFilter := br (lim (auth (r_RejectCountFilter rl)))\<rparr>)"

definition wireManagement :: "relay_env \<Rightarrow> deps \<Rightarrow> relay \<Rightarrow> relay" where
  "wireManagement env d rl =
     (if dp_access d = None then rl
      else rl\<lparr>r_RejectAPICall := r_RejectAPICall rl @ [adminHook],
              r_AllowPubKey := Some (allowCall env),
              r_BanPubKey := Some (banCall env),
              r_ListAllowedPubKeys := Some (listCall env)\<rparr>)"

definition New :: "relay_env \<Rightarrow> deps \<Rightarrow> relay \<Rightarrow> relay" where
  "New env d rl = wireManagement env d (wireEgress d (wireStorage env d (wireIngress d (wireInfo d rl))))"

subsection \<open>Running reject hooks\<close>

fun firstReject :: "('c \<Rightarrow> 'x \<Rightarrow> 's \<Rightarrow> string option \<times> 's) list \<Rightarrow> 'c \<Rightarrow> 'x \<Rightarrow> 's \<Rightarrow> string option \<times> 's" where
  "firstReject [] c x s = (None, s)"
| "firstReject (h # hs) c x s =
     (case h c x s of (Some r, s') \<Rightarrow> (Some r, s') | (None, s') \<Rightarrow> firstReject hs c x s')"

text \<open>What khatru documents of a list of reject hooks.\<close>

locale hook_runner =
  fixes run :: "('c \<Rightarrow> 'x \<Rightarrow> 's \<Rightarrow> string option \<times> 's) list \<Rightarrow> 'c \<Rightarrow> 'x \<Rightarrow> 's \<Rightarrow> string option \<times> 's"
  assumes run_Nil: "run [] c x s = (None, s)"
    and run_Cons: "run (h # hs) c x s =
      (case h c x s of (Some r, s') \<Rightarrow> (Some r, s') | (None, s') \<Rightarrow> run hs c x s')"
begin

lemma run_one: "run [h] c x s = h c x s"
  by (simp add: run_Cons run_Nil split: option.splits prod.splits)

lemmas run_simps = run_one run_Cons run_Nil

end

interpretation in_order: hook_runner firstReject
  by unfold_locales simp_all

section \<open>Lemmas\<close>

lemmas wire_defs = New_def wireInfo_def wireIngress_def wireStorage_def wireEgress_def wireManagement_def Let_def

lemma New_RejectEvent:
  "r_RejectEvent (New env d rl) =
     (if authEnabled d then [authEventHook] else []) @ r_RejectEvent rl @ [scopeHook] @
     (if dp_limiter d then [limitEventHook] else [])"
  by (simp add: wire_defs prepend_def)

lemma New_RejectFilter:
  "r_RejectFilter (New env d rl) =
     (if authEnabled d then [authFilterHook] else []) @ r_RejectFilter rl @
     (if dp_limiter d then [limitFilterHook] else []) @ [breadthHook (dp_breadth d)]"
  "r_RejectCountFilter (New env d rl) =
     (if authEnabled d then [authFilterHook] else []) @ r_RejectCountFilter rl @
     (if dp_limiter d then [limitFilterHook] else []) @ [breadthHook (dp_breadth d)]"
  by (simp_all add: wire_defs prepend_def)

lemma New_storage:
  "r_StoreEvent (New env d rl) =
     r_StoreEvent rl @ [case dp_sched d of None \<Rightarrow> saveHook env | Some buffer \<Rightarrow> deferOrSave env buffer]"
  "r_ReplaceEvent (New env d rl) = r_ReplaceEvent rl @ [replaceHook env]"
  "r_PreventBroadcast (New env d rl) = r_PreventBroadcast rl @
     (case dp_sched d of None \<Rightarrow> [] | Some buffer \<Rightarrow> [\<lambda>c evt. ShouldDefer (cx_now c) buffer evt])"
  "r_OverwriteFilter (New env d rl) = r_OverwriteFilter rl @
     (if dp_defaultSinceHours d > 0 then [defaultSince (dp_defaultSinceHours d)] else [])"
  by (simp_all add: wire_defs split: option.splits)

text \<open>The admission decision of the event hooks, written out.\<close>

definition eventVerdict :: "deps \<Rightarrow> hook_ctx \<Rightarrow> event \<Rightarrow> relay_state \<Rightarrow> string option \<times> relay_state" where
  "eventVerdict d c evt s =
     (let g = (if authEnabled d then gate (cx_conn c) (cx_authed c) (rs_access s) else None) in
      if g \<noteq> None then (g, s)
      else if TierForKind (ev_kind evt) = TierDrop then (Some ''kind out of scope'', s)
      else if dp_limiter d then limitEventHook c evt s
      else (None, s))"

lemma event_hooks_verdict:
  assumes "hook_runner run" "r_RejectEvent rl = []"
  shows "run (r_RejectEvent (New env d rl)) c evt s = eventVerdict d c evt s"
  by (simp add: hook_runner.run_simps[OF assms(1)] New_RejectEvent assms(2) eventVerdict_def Let_def authEventHook_def scopeHook_def
        accessRejectEvent_def RejectOutOfScope_def split: option.splits prod.splits)

text \<open>The decision of the read hooks, written out.\<close>

definition filterVerdict :: "deps \<Rightarrow> hook_ctx \<Rightarrow> nostr_filter \<Rightarrow> relay_state \<Rightarrow> string option \<times> relay_state" where
  "filterVerdict d c f s =
     (let g = (if authEnabled d then gate (cx_conn c) (cx_authed c) (rs_access s) else None) in
      if g \<noteq> None then (g, s)
      else case (if dp_limiter d then limitFilterHook c f s else (None, s)) of
        (Some r, s1) \<Rightarrow> (Some r, s1)
      | (None, s1) \<Rightarrow> (breadthReject (dp_breadth d) f, s1))"

lemma filter_hooks_verdict:
  assumes "hook_runner run" "r_RejectFilter rl = []"
  shows "run (r_RejectFilter (New env d rl)) c f s = filterVerdict d c f s"
  by (simp add: hook_runner.run_simps[OF assms(1)] New_RejectFilter assms(2) filterVerdict_def Let_def
      authFilterHook_def breadthHook_def accessRejectFilter_def split: option.splits prod.splits)

lemma gate_None: "gate hasConn authed a = None \<longleftrightarrow> \<not> a_enabled a \<or> \<not> hasConn \<or> (authed \<noteq> [] \<and> Allowed authed a)"
  by (auto simp: gate_def)

lemma limitHook_None:
  "fst (limitEventHook c evt s) = None \<longleftrightarrow> fst (Allow (cx_now c) (cx_ip c) (rs_limiter s))"
  "fst (limitFilterHook c f s) = None \<longleftrightarrow> fst (Allow (cx_now c) (cx_ip c) (rs_limiter s))"
  by (auto simp: limitEventHook_def limitFilterHook_def limiterRejectEvent_def limiterRejectFilter_def
      split: prod.splits)

section \<open>Properties\<close>

text \<open>Who may use a connection: access control is off, the call comes from the relay itself, or the
  client has authenticated as an allowed key.\<close>

definition mayUse :: "deps \<Rightarrow> hook_ctx \<Rightarrow> relay_state \<Rightarrow> bool" where
  "mayUse d c s \<longleftrightarrow> \<not> authEnabled d \<or> \<not> a_enabled (rs_access s) \<or> \<not> cx_conn c \<or>
     (cx_authed c \<noteq> [] \<and> Allowed (cx_authed c) (rs_access s))"

lemma mayUse_gate:
  "mayUse d c s \<longleftrightarrow> (if authEnabled d then gate (cx_conn c) (cx_authed c) (rs_access s) else None) = None"
  by (simp add: mayUse_def gate_None)

text \<open>C14. The relay's gates admit exactly the right requests: an event passes the hooks iff the
  client may use the relay, its kind is in scope and its address is within the rate limit; a
  filter passes iff the client may use the relay, its address is within the limit and the filter
  within the breadth caps. A client that has yet to authenticate is asked to, before anything
  else is checked or counted against its address.\<close>

theorem relay_gates_exact:
  assumes "hook_runner run" "hook_runner runF" "r_RejectEvent rl = []" "r_RejectFilter rl = []"
  shows "(fst (run (r_RejectEvent (New env d rl)) c evt s) = None \<longleftrightarrow>
      mayUse d c s \<and> ev_kind evt \<in> set InScopeKinds \<and>
      (\<not> dp_limiter d \<or> fst (Allow (cx_now c) (cx_ip c) (rs_limiter s)))) \<and>
    (fst (runF (r_RejectFilter (New env d rl)) c f s) = None \<longleftrightarrow>
      mayUse d c s \<and> (\<not> dp_limiter d \<or> fst (Allow (cx_now c) (cx_ip c) (rs_limiter s))) \<and>
      breadthReject (dp_breadth d) f = None) \<and>
    (authEnabled d \<and> a_enabled (rs_access s) \<and> cx_conn c \<and> cx_authed c = [] \<longrightarrow>
      run (r_RejectEvent (New env d rl)) c evt s = (Some ''auth-required: this relay requires authentication'', s) \<and>
      runF (r_RejectFilter (New env d rl)) c f s = (Some ''auth-required: this relay requires authentication'', s))"
proof -
  note verdicts = event_hooks_verdict[OF assms(1,3)] filter_hooks_verdict[OF assms(2,4)]
  have scope: "TierForKind (ev_kind evt) = TierDrop \<longleftrightarrow> ev_kind evt \<notin> set InScopeKinds"
    using classify_in_scope[of "ev_kind evt"] by (auto simp: TierForKind_def)
  have event: "fst (run (r_RejectEvent (New env d rl)) c evt s) = None \<longleftrightarrow>
      mayUse d c s \<and> ev_kind evt \<in> set InScopeKinds \<and>
      (\<not> dp_limiter d \<or> fst (Allow (cx_now c) (cx_ip c) (rs_limiter s)))"
    unfolding verdicts mayUse_gate eventVerdict_def Let_def using limitHook_None(1)[of c evt s] scope by auto
  have filter: "fst (runF (r_RejectFilter (New env d rl)) c f s) = None \<longleftrightarrow>
      mayUse d c s \<and> (\<not> dp_limiter d \<or> fst (Allow (cx_now c) (cx_ip c) (rs_limiter s))) \<and>
      breadthReject (dp_breadth d) f = None"
    using limitHook_None(2)[of c f s]
    unfolding verdicts mayUse_gate filterVerdict_def Let_def by (cases "limitFilterHook c f s") (auto split: option.splits)
  have auth: "authEnabled d \<and> a_enabled (rs_access s) \<and> cx_conn c \<and> cx_authed c = [] \<longrightarrow>
      run (r_RejectEvent (New env d rl)) c evt s = (Some ''auth-required: this relay requires authentication'', s) \<and>
      runF (r_RejectFilter (New env d rl)) c f s = (Some ''auth-required: this relay requires authentication'', s)"
    unfolding verdicts by (simp add: eventVerdict_def filterVerdict_def gate_def)
  show ?thesis by (rule conjI[OF event conjI[OF filter auth]])
qed

definition fresh_relay :: relay where
  "fresh_relay = \<lparr>r_ServiceURL = [], r_SupportedNIPs = [], r_RejectEvent = [], r_StoreEvent = [], r_ReplaceEvent = [],
     r_DeleteEvent = [], r_PreventBroadcast = [], r_OverwriteFilter = [], r_RejectFilter = [],
     r_RejectCountFilter = [], r_QueryEvents = [], r_CountEvents = [], r_RejectAPICall = [], r_AllowPubKey = None,
     r_BanPubKey = None, r_ListAllowedPubKeys = None\<rparr>"

definition demo_env :: relay_env where
  "demo_env = \<lparr>env_world = demo_world, env_order = activeTiers, env_override = Map.empty,
     env_marshal = demo_marshal, env_fault = None, env_rowCount = (\<lambda>t cs. Inr 0)\<rparr>"

definition demo_deps :: deps where
  "demo_deps = \<lparr>dp_sched = Some minute, dp_limiter = True,
     dp_breadth = \<lparr>rb_MaxIDs = 1000, rb_MaxAuthors = 1000, rb_MaxKinds = 20, rb_MaxTags = 256\<rparr>,
     dp_access = Some demo_access, dp_serviceURL = ''wss://relay.example'', dp_defaultSinceHours = 48\<rparr>"

definition demo_state :: relay_state where
  "demo_state = \<lparr>rs_store = Init 10 (\<lambda>_. []) [], rs_db = emptyDB, rs_limiter = NewLimiter 600, rs_access = demo_access\<rparr>"

definition demo_ctx :: hook_ctx where
  "demo_ctx = \<lparr>cx_conn = True, cx_internal = False, cx_authed = ''pk'', cx_ip = ''192.0.2.7'', cx_now = 1700000000 * second\<rparr>"

theorem relay_gates_exact_witness:
  "fst (firstReject (r_RejectEvent (New demo_env demo_deps fresh_relay)) demo_ctx demo_note demo_state) = None \<and>
   fst (firstReject (r_RejectFilter (New demo_env demo_deps fresh_relay)) demo_ctx match_all demo_state) = None \<and>
   fst (firstReject (r_RejectEvent (New demo_env demo_deps fresh_relay)) (demo_ctx\<lparr>cx_authed := ''eve''\<rparr>) demo_note demo_state)
     \<noteq> None"
proof -
  have fresh: "r_RejectEvent fresh_relay = []" "r_RejectFilter fresh_relay = []" by (simp_all add: fresh_relay_def)
  note gates = relay_gates_exact[OF in_order.hook_runner_axioms in_order.hook_runner_axioms fresh]
  note exact = conjunct1[OF gates] conjunct1[OF conjunct2[OF gates]]
  have "mayUse demo_deps demo_ctx demo_state" "\<not> mayUse demo_deps (demo_ctx\<lparr>cx_authed := ''eve''\<rparr>) demo_state"
    by (simp_all add: mayUse_def demo_deps_def demo_ctx_def demo_state_def demo_access_def authEnabled_def
        Enabled_def Allowed_def)
  moreover have "fst (Allow (cx_now demo_ctx) (cx_ip demo_ctx) (rs_limiter demo_state))"
    by (simp add: demo_ctx_def demo_state_def NewLimiter_def Allow_def Let_def)
  moreover have "ev_kind demo_note \<in> set InScopeKinds" by code_simp
  moreover have "breadthReject (dp_breadth demo_deps) match_all = None" by code_simp
  ultimately show ?thesis unfolding exact by simp
qed

text \<open>A call from inside the relay has no connection and no address.\<close>

definition internal :: "hook_ctx \<Rightarrow> bool" where
  "internal c \<longleftrightarrow> \<not> cx_conn c \<and> cx_ip c = []"



text \<open>Replaceable events are not deferred: the wired replace hook never parks an event, so a
  future-dated replaceable event is stored at once, while its broadcast is suppressed as if it
  were parked.\<close>

theorem replaceable_not_deferred:
  assumes "dp_sched d = Some buffer" "r_ReplaceEvent rl = []" "r_PreventBroadcast rl = []"
    and "ShouldDefer (cx_now c) buffer evt"
  shows "\<exists>h p. r_ReplaceEvent (New env d rl) = [h] \<and> r_PreventBroadcast (New env d rl) = [p] \<and>
    rs_db (snd (h c evt s)) = rs_db s \<and> p c evt \<and>
    rs_store (snd (h c evt s)) =
      snd (ReplaceEvent (env_world env) (env_order env) (env_override env) evt (rs_store s))"
  using assms by (simp add: New_storage replaceHook_def split: prod.splits)

definition future_profile :: event where
  "future_profile = demo_new\<lparr>ev_created_at := 1900000000\<rparr>"

theorem replaceable_not_deferred_witness:
  "\<exists>h p. r_ReplaceEvent (New demo_env demo_deps fresh_relay) = [h] \<and>
     r_PreventBroadcast (New demo_env demo_deps fresh_relay) = [p] \<and> p demo_ctx future_profile \<and>
     rs_db (snd (h demo_ctx future_profile demo_state)) = emptyDB \<and>
     future_profile \<in> stored (rs_store (snd (h demo_ctx future_profile demo_state)))"
proof -
  have pre: "dp_sched demo_deps = Some minute" "r_ReplaceEvent fresh_relay = []" "r_PreventBroadcast fresh_relay = []"
    by (simp_all add: demo_deps_def fresh_relay_def)
  have "ShouldDefer (cx_now demo_ctx) minute future_profile" by code_simp
  moreover have "future_profile \<in> stored (snd (ReplaceEvent demo_world activeTiers Map.empty future_profile
      (Init 10 (\<lambda>_. []) [])))"
  proof -
    have "(case s_tiers (snd (ReplaceEvent demo_world activeTiers Map.empty future_profile (Init 10 (\<lambda>_. []) []))) ''permanent'' of
        Some b \<Rightarrow> b_table b = [future_profile] | None \<Rightarrow> False)" by code_simp
    then show ?thesis by (auto simp: stored_def split: option.splits intro!: bexI[OF _ ranI])
  qed
  moreover have "rs_db demo_state = emptyDB" "rs_store demo_state = Init 10 (\<lambda>_. []) []" "env_world demo_env = demo_world"
    "env_order demo_env = activeTiers" "env_override demo_env = Map.empty" by (simp_all add: demo_state_def demo_env_def)
  ultimately show ?thesis using replaceable_not_deferred[OF pre, of demo_ctx future_profile demo_env demo_state] by auto
qed

text \<open>The global feed is served from the feed mirror: with a default window of at most 164 hours
  the wired overwrite hook gives a filter without ids, authors, tags and bounds a \<open>since\<close> that
  the store, up to an hour later, answers from the feed mirror if the kinds are stored ones; every
  other filter is left alone.\<close>

theorem global_feed_uses_mirror:
  assumes "0 < dp_defaultSinceHours d" "dp_defaultSinceHours d \<le> 164" "r_OverwriteFilter rl = []"
  shows "\<exists>h. r_OverwriteFilter (New env d rl) = [h] \<and>
    (\<forall>c f. if f_ids f = [] \<and> f_authors f = [] \<and> f_tags f = [] \<and> f_since f = None \<and> f_until f = None
           then h c f = f\<lparr>f_since := Some (cx_now c div second - dp_defaultSinceHours d * 3600)\<rparr> \<and>
             (\<forall>now ov. cx_now c \<le> now \<and> now \<le> cx_now c + hour \<and>
                list_all (\<lambda>k. classifyWithOverride k ov \<noteq> TierDrop) (f_kinds f) \<longrightarrow> feedEligible now (h c f) ov)
           else h c f = f)"
proof (intro exI conjI allI)
  show "r_OverwriteFilter (New env d rl) = [defaultSince (dp_defaultSinceHours d)]"
    using assms(1,3) by (simp add: New_storage)
  fix c :: hook_ctx and f :: nostr_filter
  have late: "cx_now c - (second - 1) \<le> cx_now c div second * second" for c :: hook_ctx
    using pos_mod_bound[of second "cx_now c"] div_mult_mod_eq[of "cx_now c" second] by linarith
  have window: "\<not> (cx_now c div second - dp_defaultSinceHours d * 3600) * second < now - feedRetention + 2 * hour"
    if "now \<le> cx_now c + hour" for now
  proof -
    have "(cx_now c div second - dp_defaultSinceHours d * 3600) * second =
        cx_now c div second * second - dp_defaultSinceHours d * hour" by (simp add: algebra_simps)
    moreover have "dp_defaultSinceHours d * hour \<le> 164 * hour" using assms(2) by (simp add: mult_right_mono)
    ultimately show ?thesis using that late[of c] by (simp add: feedRetention_def)
  qed
  show "if f_ids f = [] \<and> f_authors f = [] \<and> f_tags f = [] \<and> f_since f = None \<and> f_until f = None
        then defaultSince (dp_defaultSinceHours d) c f =
            f\<lparr>f_since := Some (cx_now c div second - dp_defaultSinceHours d * 3600)\<rparr> \<and>
          (\<forall>now ov. cx_now c \<le> now \<and> now \<le> cx_now c + hour \<and>
             list_all (\<lambda>k. classifyWithOverride k ov \<noteq> TierDrop) (f_kinds f) \<longrightarrow>
             feedEligible now (defaultSince (dp_defaultSinceHours d) c f) ov)
        else defaultSince (dp_defaultSinceHours d) c f = f"
    using window by (auto simp: defaultSince_def feedEligible_def)
qed

theorem global_feed_uses_mirror_witness:
  "\<exists>h. r_OverwriteFilter (New demo_env demo_deps fresh_relay) = [h] \<and>
     feedEligible (cx_now demo_ctx + second) (h demo_ctx (match_all\<lparr>f_kinds := [1]\<rparr>)) Map.empty"
proof -
  have pre: "0 < dp_defaultSinceHours demo_deps" "dp_defaultSinceHours demo_deps \<le> 164" "r_OverwriteFilter fresh_relay = []"
    by (simp_all add: demo_deps_def fresh_relay_def)
  let ?f = "match_all\<lparr>f_kinds := [1]\<rparr> :: nostr_filter"
  have "f_ids ?f = [] \<and> f_authors ?f = [] \<and> f_tags ?f = [] \<and> f_since ?f = None \<and> f_until ?f = None"
    "list_all (\<lambda>k. classifyWithOverride k Map.empty \<noteq> TierDrop) (f_kinds ?f)" by code_simp+
  note shape = this
  obtain h where h: "r_OverwriteFilter (New demo_env demo_deps fresh_relay) = [h]"
    and all: "if f_ids ?f = [] \<and> f_authors ?f = [] \<and> f_tags ?f = [] \<and> f_since ?f = None \<and> f_until ?f = None
      then h demo_ctx ?f = ?f\<lparr>f_since := Some (cx_now demo_ctx div second - dp_defaultSinceHours demo_deps * 3600)\<rparr> \<and>
        (\<forall>now ov. cx_now demo_ctx \<le> now \<and> now \<le> cx_now demo_ctx + hour \<and>
           list_all (\<lambda>k. classifyWithOverride k ov \<noteq> TierDrop) (f_kinds ?f) \<longrightarrow> feedEligible now (h demo_ctx ?f) ov)
      else h demo_ctx ?f = ?f"
    using global_feed_uses_mirror[OF pre, of demo_env] by blast
  have "feedEligible (cx_now demo_ctx + second) (h demo_ctx ?f) Map.empty"
    using all[unfolded if_P[OF shape(1)], THEN conjunct2, THEN spec[of _ "cx_now demo_ctx + second"],
        THEN spec[of _ Map.empty]] shape(2) by simp
  then show ?thesis using h by blast
qed

end
