(* ===== verification/Firehose.thy ===== *)
theory Firehose
  imports Ingest
begin

text \<open>
  The firehose crawler (\<open>internal/crawler/crawler.go\<close>): one goroutine per source relay that
  connects with back-off, subscribes to the kinds in scope and ingests what arrives.

  The loop of \<open>runSource\<close> is a state machine. An input is what the goroutine sees next, with
  the time it sees it: how \<open>Connect\<close> and \<open>Subscribe\<close> ended, or which case of the \<open>select\<close> was
  taken. \<open>srcStep\<close> is \<open>None\<close> where the input cannot occur. The upstream relay is the sequence of
  inputs; what the other goroutines do to the store and the deduplicator between two inputs is
  the parameter \<open>others\<close>. The heartbeat only logs.
\<close>

datatype src_phase = Connecting | Live | Returned

record source =
  src_phase :: src_phase
  src_backoff :: duration
  src_backfillComplete :: bool
  src_lastDisconnect :: "instant option"
  src_since :: "int option"
  src_ingested :: nat
  src_skipped :: nat
  src_idleAt :: instant
  src_slept :: duration

datatype src_input =
    ConnectFails string
  | SubscribeFails string
  | SubscribeOK
  | CtxDone
  | Heartbeat
  | IdleFires
  | EOSE
  | ClosedReason string
  | EventsClosed
  | Received event

record crawl_env =
  ce_override :: override
  ce_checkID :: "event \<Rightarrow> bool"
  ce_checkSignature :: "event \<Rightarrow> bool"
  ce_others :: "instant \<Rightarrow> dedup \<times> store \<Rightarrow> dedup \<times> store"

section \<open>Definitions\<close>

definition reconnectOverlap :: duration where "reconnectOverlap = 2 * hour"
definition firehoseIdle :: duration where "firehoseIdle = 15 * minute"

definition sinceForReconnect :: "bool \<Rightarrow> instant option \<Rightarrow> int option" where
  "sinceForReconnect backfillComplete lastDisconnect =
     (if \<not> backfillComplete then None
      else case lastDisconnect of
        None \<Rightarrow> None
      | Some t \<Rightarrow>
          let sec = (t - reconnectOverlap) div second in
          if sec \<le> 0 then None else Some sec)"

definition nextBackoff :: "duration \<Rightarrow> duration" where
  "nextBackoff d = (if d * 2 > 60 * second then 60 * second else d * 2)"

text \<open>The filter of a subscription: the kinds in scope, with the since of the last reconnect.\<close>

definition subFilter :: "int option \<Rightarrow> nostr_filter" where
  "subFilter since = \<lparr>f_ids = [], f_kinds = InScopeKinds, f_authors = [], f_tags = [], f_since = since,
     f_until = None, f_limit = 0\<rparr>"

text \<open>The state before the loop; \<open>start\<close> is when the idle timer is created.\<close>

definition newSource :: "instant \<Rightarrow> source" where
  "newSource start =
     \<lparr>src_phase = Connecting, src_backoff = second, src_backfillComplete = False, src_lastDisconnect = None,
      src_since = None, src_ingested = 0, src_skipped = 0, src_idleAt = start + firehoseIdle, src_slept = 0\<rparr>"

definition resetIdle :: "instant \<Rightarrow> source \<Rightarrow> source" where
  "resetIdle now c = c\<lparr>src_idleAt := now + firehoseIdle\<rparr>"

definition disconnect :: "instant \<Rightarrow> duration \<Rightarrow> source \<Rightarrow> source" where
  "disconnect now sleep c = c\<lparr>src_phase := Connecting, src_lastDisconnect := Some now, src_slept := sleep\<rparr>"

text \<open>One pass of the connect part: the filter is computed, then the relay is dialled.\<close>

fun connectStep :: "instant \<Rightarrow> src_input \<Rightarrow> source \<Rightarrow> source option" where
  "connectStep now CtxDone c = Some (c\<lparr>src_phase := Returned\<rparr>)"
| "connectStep now (ConnectFails e) c =
     Some (c\<lparr>src_since := sinceForReconnect (src_backfillComplete c) (src_lastDisconnect c),
             src_slept := src_backoff c, src_backoff := nextBackoff (src_backoff c)\<rparr>)"
| "connectStep now (SubscribeFails e) c =
     Some (c\<lparr>src_since := sinceForReconnect (src_backfillComplete c) (src_lastDisconnect c),
             src_backoff := second, src_slept := 2 * second\<rparr>)"
| "connectStep now SubscribeOK c =
     Some (resetIdle now (c\<lparr>src_phase := Live,
             src_since := sinceForReconnect (src_backfillComplete c) (src_lastDisconnect c),
             src_backoff := second, src_ingested := 0, src_skipped := 0, src_slept := 0\<rparr>))"
| "connectStep now _ c = None"

fun liveStep :: "crawl_env \<Rightarrow> instant \<Rightarrow> src_input \<Rightarrow> source \<times> dedup \<times> store \<Rightarrow> (source \<times> dedup \<times> store) option" where
  "liveStep env now CtxDone (c, p) = Some (c\<lparr>src_phase := Returned, src_lastDisconnect := Some now\<rparr>, p)"
| "liveStep env now Heartbeat (c, p) = Some (c, p)"
| "liveStep env now IdleFires (c, p) = (if src_idleAt c \<le> now then Some (disconnect now 0 c, p) else None)"
| "liveStep env now EOSE (c, p) = Some (c\<lparr>src_backfillComplete := True\<rparr>, p)"
| "liveStep env now (ClosedReason r) (c, p) = Some (disconnect now (2 * second) c, p)"
| "liveStep env now EventsClosed (c, p) = Some (disconnect now 0 c, p)"
| "liveStep env now (Received ev) (c, p) =
     (case ingest now (ce_override env) (ce_checkID env) (ce_checkSignature env) ev p of (new, p1) \<Rightarrow>
        let c1 = resetIdle now c in
        Some (if new then c1\<lparr>src_ingested := Suc (src_ingested c1)\<rparr> else c1\<lparr>src_skipped := Suc (src_skipped c1)\<rparr>, p1))"
| "liveStep env now _ st = None"

definition srcStep :: "crawl_env \<Rightarrow> instant \<times> src_input \<Rightarrow> source \<times> dedup \<times> store \<Rightarrow> (source \<times> dedup \<times> store) option" where
  "srcStep env = (\<lambda>(now, inp) (c, p).
     let p1 = ce_others env now p in
     case src_phase c of
       Connecting \<Rightarrow> map_option (\<lambda>c1. (c1, p1)) (connectStep now inp c)
     | Live \<Rightarrow> liveStep env now inp (c, p1)
     | Returned \<Rightarrow> None)"

fun runSource :: "crawl_env \<Rightarrow> (instant \<times> src_input) list \<Rightarrow> source \<times> dedup \<times> store \<Rightarrow> (source \<times> dedup \<times> store) option" where
  "runSource env [] st = Some st"
| "runSource env (i # inputs) st =
     (case srcStep env i st of None \<Rightarrow> None | Some st1 \<Rightarrow> runSource env inputs st1)"

section \<open>Lemmas\<close>

lemma runSource_append:
  "runSource env (xs @ ys) st = (case runSource env xs st of None \<Rightarrow> None | Some st1 \<Rightarrow> runSource env ys st1)"
  by (induction env xs st rule: runSource.induct) (auto split: option.splits)

lemmas source_step = srcStep_def Let_def disconnect_def resetIdle_def

text \<open>How each field moves: the source part of a step, without the store.\<close>

lemma srcStep_backfill:
  assumes "srcStep env (now, inp) (c, p) = Some (c', p')"
  shows "src_backfillComplete c' \<longleftrightarrow> src_backfillComplete c \<or> inp = EOSE"
  using assms
  by (cases inp; cases "src_phase c")
    (auto simp: source_step split: if_splits prod.splits)

lemma srcStep_disconnect:
  assumes "srcStep env (now, inp) (c, p) = Some (c', p')"
  shows "src_lastDisconnect c' = src_lastDisconnect c \<and> (src_phase c = Live \<longrightarrow> src_phase c' = Live) \<or>
    src_phase c = Live \<and> src_phase c' \<noteq> Live \<and> src_lastDisconnect c' = Some now"
  using assms
  by (cases inp; cases "src_phase c")
    (auto simp: source_step split: if_splits prod.splits)

lemma srcStep_since:
  assumes "srcStep env (now, inp) (c, p) = Some (c', p')" "src_since c' \<noteq> src_since c"
  shows "src_phase c = Connecting \<and> src_since c' = sinceForReconnect (src_backfillComplete c) (src_lastDisconnect c)"
  using assms
  by (cases inp; cases "src_phase c")
    (auto simp: source_step split: if_splits prod.splits)

lemma srcStep_backoff:
  assumes "srcStep env (now, inp) (c, p) = Some (c', p')"
  shows "src_backoff c' = src_backoff c \<and> (src_slept c' = src_slept c \<or> src_slept c' \<in> {0, 2 * second}) \<or>
    src_backoff c' = second \<and> src_slept c' \<in> {0, 2 * second} \<or>
    src_backoff c' = nextBackoff (src_backoff c) \<and> src_slept c' = src_backoff c"
  using assms
  by (cases inp; cases "src_phase c")
    (auto simp: source_step split: if_splits prod.splits)

text \<open>What holds at time \<open>T\<close> in every run: the last disconnect is in the past, and history is
  complete only after an EOSE.\<close>

definition srcGood :: "instant \<Rightarrow> bool \<Rightarrow> source \<Rightarrow> bool" where
  "srcGood T eosed c \<longleftrightarrow> (\<forall>t. src_lastDisconnect c = Some t \<longrightarrow> t \<le> T) \<and> src_backfillComplete c = eosed \<and>
     second \<le> src_backoff c \<and> src_backoff c \<le> 60 * second \<and> 0 \<le> src_slept c \<and> src_slept c \<le> 60 * second \<and>
     (src_phase c = Live \<longrightarrow> src_backoff c = second)"

lemma srcStep_live:
  assumes "srcStep env (now, inp) (c, p) = Some (c', p')"
  shows "src_phase c' = Live \<Longrightarrow> src_phase c = Live \<and> src_backoff c' = src_backoff c \<or> src_backoff c' = second"
    and "src_phase c = Live \<Longrightarrow> src_backoff c' = src_backoff c"
  using assms
  by (cases inp; cases "src_phase c";
      auto simp: srcStep_def Let_def disconnect_def resetIdle_def split: if_splits prod.splits)+

lemma nextBackoff_bounds: "second \<le> d \<Longrightarrow> second \<le> nextBackoff d \<and> nextBackoff d \<le> 60 * second"
  by (simp add: nextBackoff_def)

lemma srcGood_step:
  assumes "srcStep env (now, inp) (c, p) = Some (c', p')" "srcGood T eosed c" "T \<le> now"
  shows "srcGood now (eosed \<or> inp = EOSE) c'"
proof -
  have old: "\<And>t. src_lastDisconnect c = Some t \<Longrightarrow> t \<le> T" "src_backfillComplete c = eosed"
    "second \<le> src_backoff c" "src_backoff c \<le> 60 * second" "0 \<le> src_slept c" "src_slept c \<le> 60 * second"
    "src_phase c = Live \<Longrightarrow> src_backoff c = second"
    using assms(2) unfolding srcGood_def by simp_all
  have "t \<le> now" if "src_lastDisconnect c' = Some t" for t
    using srcStep_disconnect[OF assms(1)] old(1)[of t] assms(3) that by auto
  moreover have "src_backfillComplete c' \<longleftrightarrow> eosed \<or> inp = EOSE" using srcStep_backfill[OF assms(1)] old(2) by simp
  moreover from srcStep_backoff[OF assms(1)]
  have "second \<le> src_backoff c' \<and> src_backoff c' \<le> 60 * second \<and> 0 \<le> src_slept c' \<and> src_slept c' \<le> 60 * second"
    using old(3-6) nextBackoff_bounds[OF old(3)] by (elim disjE conjE) (simp_all, (elim disjE; simp)+)
  moreover have "src_phase c' = Live \<Longrightarrow> src_backoff c' = second" using srcStep_live[OF assms(1)] old(7) by auto
  ultimately show ?thesis unfolding srcGood_def by simp
qed

lemma srcGood_run:
  assumes "runSource env inputs (c, p) = Some (c', p')" "srcGood T eosed c" "sorted (T # map fst inputs)"
  shows "srcGood (last (T # map fst inputs)) (eosed \<or> EOSE \<in> snd ` set inputs) c'"
  using assms
proof (induction inputs arbitrary: c p T eosed)
  case (Cons i inputs)
  obtain now inp where i: "i = (now, inp)" by fastforce
  obtain c1 p1 where step: "srcStep env (now, inp) (c, p) = Some (c1, p1)" "runSource env inputs (c1, p1) = Some (c', p')"
    using Cons.prems(1) unfolding i by (auto split: option.splits)
  have "srcGood now (eosed \<or> inp = EOSE) c1" using srcGood_step[OF step(1) Cons.prems(2)] Cons.prems(3) i by simp
  from Cons.IH[OF step(2) this] Cons.prems(3) show ?case by (auto simp: i disj_assoc eq_commute[of EOSE])
qed simp

lemma newSource_good: "srcGood T False (newSource start)"
  by (simp add: srcGood_def newSource_def)

lemma since_below: "sinceForReconnect b (Some t) = Some x \<Longrightarrow> x * second \<le> t - reconnectOverlap"
  using pos_mod_sign[of second "t - reconnectOverlap"] div_mult_mod_eq[of "t - reconnectOverlap" second]
  by (auto simp: sinceForReconnect_def Let_def split: if_splits)

text \<open>While it is not subscribed, a source keeps what decides its next since.\<close>

lemma retries_keep:
  assumes "runSource env inputs (c, p) = Some (c', p')" "SubscribeOK \<notin> snd ` set inputs" "src_phase c = Connecting"
    "src_phase c' = Connecting"
  shows "src_lastDisconnect c' = src_lastDisconnect c \<and> src_backfillComplete c' = src_backfillComplete c"
  using assms
proof (induction inputs arbitrary: c p)
  case (Cons i inputs)
  obtain now inp where i: "i = (now, inp)" by fastforce
  obtain c1 p1 where step: "srcStep env (now, inp) (c, p) = Some (c1, p1)" "runSource env inputs (c1, p1) = Some (c', p')"
    using Cons.prems(1) unfolding i by (auto split: option.splits)
  have "inp \<noteq> SubscribeOK" using Cons.prems(2) i by auto
  then have c1: "src_phase c1 = Connecting \<or> src_phase c1 = Returned" "src_lastDisconnect c1 = src_lastDisconnect c"
      "src_backfillComplete c1 = src_backfillComplete c"
    using step(1) Cons.prems(3) by (cases inp; auto simp: srcStep_def Let_def)+
  have "src_phase c1 \<noteq> Returned"
  proof
    assume r: "src_phase c1 = Returned"
    then have "inputs = [] \<or> runSource env inputs (c1, p1) = None" by (cases inputs) (auto simp: srcStep_def Let_def)
    then show False using step(2) r Cons.prems(4) by auto
  qed
  then show ?case using Cons.IH[OF step(2) _ _ Cons.prems(4)] Cons.prems(2) c1 i by auto
qed simp

section \<open>Properties\<close>

text \<open>C17. A reconnecting source leaves no gap: take any run in which the source is not subscribed at
  time \<open>t\<close>, and let it subscribe again after any number of failed attempts. An event in scope that
  appears upstream at \<open>t\<close>, dated at most two hours back, is matched by the filter of the new
  subscription; and as long as no EOSE has been received the subscription asks for the whole
  history.\<close>

theorem reconnect_leaves_no_gap:
  assumes "runSource env inputs (newSource start, p0) = Some (c, p)" "src_phase c = Connecting"
    and "sorted (map fst inputs)" "\<forall>i \<in> set inputs. fst i \<le> t"
    and "runSource env retries (c, p) = Some (c1, p1)" "SubscribeOK \<notin> snd ` set retries"
    and "srcStep env (now, SubscribeOK) (c1, p1) = Some (c2, p2)"
  shows "(EOSE \<notin> snd ` set inputs \<longrightarrow> src_since c2 = None) \<and>
    (ev_kind ev \<in> set InScopeKinds \<and> t - 2 * hour \<le> ev_created_at ev * second \<longrightarrow>
      nip01_matches (subFilter (src_since c2)) ev)"
proof (intro conjI impI)
  let ?T = "case inputs of [] \<Rightarrow> t | i # _ \<Rightarrow> fst i"
  have le: "last (?T # map fst inputs) \<le> t" using assms(4) by (cases inputs rule: rev_cases) auto
  have "srcGood (last (?T # map fst inputs)) (EOSE \<in> snd ` set inputs) c"
    using srcGood_run[OF assms(1) newSource_good, of ?T] assms(3) by (cases inputs) auto
  then have good: "\<And>d. src_lastDisconnect c = Some d \<Longrightarrow> d \<le> t" "src_backfillComplete c = (EOSE \<in> snd ` set inputs)"
    unfolding srcGood_def using le by fastforce+
  have live: "src_phase c1 = Connecting" "src_since c2 = sinceForReconnect (src_backfillComplete c1) (src_lastDisconnect c1)"
    using assms(7) by (cases "src_phase c1"; auto simp: srcStep_def Let_def resetIdle_def)+
  have since: "src_since c2 = sinceForReconnect (src_backfillComplete c) (src_lastDisconnect c)"
    using retries_keep[OF assms(5,6,2) live(1)] live(2) by simp
  show "src_since c2 = None" if "EOSE \<notin> snd ` set inputs"
    using that since good(2) by (simp add: sinceForReconnect_def)
  assume "ev_kind ev \<in> set InScopeKinds \<and> t - 2 * hour \<le> ev_created_at ev * second"
  then have ev: "ev_kind ev \<in> set InScopeKinds" "t - 2 * hour \<le> ev_created_at ev * second" by simp_all
  have "x \<le> ev_created_at ev" if x: "src_since c2 = Some x" for x
  proof -
    obtain d where d: "src_lastDisconnect c = Some d"
      using x since by (cases "src_lastDisconnect c") (auto simp: sinceForReconnect_def split: if_splits)
    have "x * second \<le> d - reconnectOverlap" using since_below[of _ d x] x since d by simp
    also have "\<dots> \<le> ev_created_at ev * second" using good(1)[OF d] ev(2) by (simp add: reconnectOverlap_def)
    finally show ?thesis by simp
  qed
  then show "nip01_matches (subFilter (src_since c2)) ev"
    using ev(1) by (simp add: nip01_matches_def subFilter_def split: option.splits)
qed

definition demo_crawl :: crawl_env where
  "demo_crawl = \<lparr>ce_override = Map.empty, ce_checkID = (\<lambda>_. True), ce_checkSignature = (\<lambda>_. True),
     ce_others = (\<lambda>_ p. p)\<rparr>"

definition demo_inputs :: "(instant \<times> src_input) list" where
  "demo_inputs = [(1700000000 * second, SubscribeOK), (1700000001 * second, Received demo_note),
     (1700000002 * second, EOSE), (1700009000 * second, ClosedReason ''bye'')]"

definition demo_pair :: "dedup \<times> store" where
  "demo_pair = (NewDedup 4, Init 10 (\<lambda>_. []) [])"

theorem reconnect_leaves_no_gap_witness:
  "\<exists>c p c2 p2. runSource demo_crawl demo_inputs (newSource 0, demo_pair) = Some (c, p) \<and>
     srcStep demo_crawl (1700009050 * second, SubscribeOK) (c, p) = Some (c2, p2) \<and> src_since c2 \<noteq> None \<and>
     nip01_matches (subFilter (src_since c2)) (demo_note\<lparr>ev_created_at := 1700002000\<rparr>)"
proof -
  let ?r = "runSource demo_crawl demo_inputs (newSource 0, demo_pair)"
  have ok: "(case ?r of Some (c, p) \<Rightarrow> src_phase c = Connecting \<and>
      (case srcStep demo_crawl (1700009050 * second, SubscribeOK) (c, p) of
         Some (c2, p2) \<Rightarrow> src_since c2 \<noteq> None | None \<Rightarrow> False) | None \<Rightarrow> False)" by code_simp
  then obtain c p c2 p2 where r: "?r = Some (c, p)" and ph: "src_phase c = Connecting"
    and c2: "srcStep demo_crawl (1700009050 * second, SubscribeOK) (c, p) = Some (c2, p2)" "src_since c2 \<noteq> None"
    by (auto split: option.splits prod.splits)
  have "sorted (map fst demo_inputs)" "\<forall>i \<in> set demo_inputs. fst i \<le> 1700009000 * second" by (simp_all add: demo_inputs_def)
  from reconnect_leaves_no_gap[OF r ph this, of "[]" c p "1700009050 * second" c2 p2 "demo_note\<lparr>ev_created_at := 1700002000\<rparr>"]
    c2(1) have "nip01_matches (subFilter (src_since c2)) (demo_note\<lparr>ev_created_at := 1700002000\<rparr>)"
    by (simp add: demo_note_def InScopeKinds_def)
  then show ?thesis using r c2 by blast
qed

lemma failures_double:
  assumes "runSource env (map (\<lambda>t. (t, ConnectFails e)) ts) (c, p) = Some (c', p')" "src_phase c = Connecting" "ts \<noteq> []"
    "src_backoff c = min (2 ^ k) 60 * second"
  shows "src_slept c' = min (2 ^ (k + (length ts - 1))) 60 * second"
  using assms
proof (induction ts arbitrary: c p k)
  case (Cons t ts)
  obtain c1 p1 where step: "srcStep env (t, ConnectFails e) (c, p) = Some (c1, p1)"
    "runSource env (map (\<lambda>t. (t, ConnectFails e)) ts) (c1, p1) = Some (c', p')"
    using Cons.prems(1) by (auto split: option.splits)
  have c1: "src_phase c1 = Connecting" "src_slept c1 = min (2 ^ k) 60 * second" "src_backoff c1 = nextBackoff (src_backoff c)"
    using step(1) Cons.prems(2,4) by (auto simp: srcStep_def Let_def)
  have "src_backoff c1 = min (2 ^ Suc k) 60 * second" using c1(3) Cons.prems(4) by (auto simp: nextBackoff_def min_def)
  then show ?case using Cons.IH[OF step(2) c1(1), of "Suc k"] step(2) c1(2) by (cases ts) auto
qed simp

text \<open>Reconnecting backs off exponentially: the \<open>k\<close>-th failed connect in a row is followed by a
  sleep of \<open>2 ^ k\<close> seconds, at most a minute, and a successful connect starts over at one second.\<close>

theorem reconnect_backs_off:
  assumes "runSource env inputs (newSource start, p0) = Some (c, p)" "src_phase c = Live" "sorted (map fst inputs)"
    and "srcStep env i (c, p) = Some (c1, p1)" "src_phase c1 = Connecting"
    and "runSource env (map (\<lambda>t. (t, ConnectFails e)) ts) (c1, p1) = Some (c2, p2)" "ts \<noteq> []"
  shows "src_slept c2 = min (2 ^ (length ts - 1)) 60 * second"
proof -
  let ?T = "case inputs of [] \<Rightarrow> 0 | i # _ \<Rightarrow> fst i"
  have "srcGood (last (?T # map fst inputs)) (EOSE \<in> snd ` set inputs) c"
    using srcGood_run[OF assms(1) newSource_good, of ?T] assms(3) by (cases inputs) auto
  then have "src_backoff c = second" using assms(2) by (simp add: srcGood_def)
  then have "src_backoff c1 = min (2 ^ 0) 60 * second" using srcStep_live(2)[of env "fst i" "snd i" c p c1 p1] assms(2,4) by simp
  from failures_double[OF assms(6,5,7) this] show ?thesis by simp
qed

theorem reconnect_backs_off_witness:
  "\<exists>c p c1 p1 c2 p2. runSource demo_crawl [(0, SubscribeOK)] (newSource 0, demo_pair) = Some (c, p) \<and>
     srcStep demo_crawl (5, EventsClosed) (c, p) = Some (c1, p1) \<and>
     runSource demo_crawl (map (\<lambda>t. (t, ConnectFails ''refused'')) [6, 7, 8]) (c1, p1) = Some (c2, p2) \<and>
     src_slept c2 = 4 * second"
proof -
  have "(case runSource demo_crawl [(0, SubscribeOK)] (newSource 0, demo_pair) of
      Some (c, p) \<Rightarrow> src_phase c = Live \<and>
        (case srcStep demo_crawl (5, EventsClosed) (c, p) of
           Some (c1, p1) \<Rightarrow> src_phase c1 = Connecting \<and>
             (case runSource demo_crawl (map (\<lambda>t. (t, ConnectFails ''refused'')) [6, 7, 8]) (c1, p1) of
                Some (c2, p2) \<Rightarrow> True | None \<Rightarrow> False)
         | None \<Rightarrow> False)
    | None \<Rightarrow> False)" by code_simp
  then obtain c p c1 p1 c2 p2 where
    c: "runSource demo_crawl [(0, SubscribeOK)] (newSource 0, demo_pair) = Some (c, p)" "src_phase c = Live"
    and c1: "srcStep demo_crawl (5, EventsClosed) (c, p) = Some (c1, p1)" "src_phase c1 = Connecting"
    and c2: "runSource demo_crawl (map (\<lambda>t. (t, ConnectFails ''refused'')) [6, 7, 8]) (c1, p1) = Some (c2, p2)"
    by (elim some_pairE conjE)
  from reconnect_backs_off[OF c _ c1 c2] have "src_slept c2 = 4 * second" by simp
  then show ?thesis using c(1) c1(1) c2 by blast
qed

end
