(* ===== verification/Priority.thy ===== *)
theory Priority
  imports Firehose
begin

text \<open>
  The priority crawler (\<open>internal/crawler/priority.go\<close>): every tick fetches the events of a set
  of pubkeys, incrementally or as a full sweep, from a list of relays with failover, and records
  the progress in \<open>crawl_state\<close>.

  \<open>upstream\<close> says how the calls outside the sources end in one tick: \<open>Connect\<close> per relay,
  \<open>Subscribe\<close> per relay and pubkey, and what arrives on a subscription. A stream is what arrives
  before the fetch deadline; where it ends, the deadline has passed. Faults of the control
  database and the cancellation of the context at each place it is asked are given the same way.
\<close>

datatype sub_msg = SubEvent instant event | SubEOSE | SubClosed string | SubEventsClosed | SubTimeout

datatype tick_point = BeforePubkey string | BeforeRelay string | BeforeJob string string

record pubkeyJob =
  job_pubkey :: string
  job_since :: "int option"
  job_fullSweep :: bool

record upstream =
  up_connect :: "string \<Rightarrow> fault"
  up_subscribe :: "string \<Rightarrow> string \<Rightarrow> fault"
  up_stream :: "string \<Rightarrow> nostr_filter \<Rightarrow> sub_msg list"
  up_lookup :: "string \<Rightarrow> fault \<times> fault"
  up_mark :: "string \<Rightarrow> string \<Rightarrow> fault \<times> fault"
  up_markTime :: "string \<Rightarrow> string \<Rightarrow> int"
  up_cancelled :: "tick_point \<Rightarrow> bool"
  up_now :: instant

type_synonym crawl_state = "(dedup \<times> store) \<times> control_db"

section \<open>Definitions\<close>

definition fetchOverlap :: duration where "fetchOverlap = 2 * hour"
definition fetchTimeout :: duration where "fetchTimeout = 5 * minute"
definition fullSweepAge :: duration where "fullSweepAge = 24 * hour"

text \<open>\<open>NewPriority\<close>: the interval the crawler runs with.\<close>

definition priorityInterval :: "duration \<Rightarrow> duration" where
  "priorityInterval interval = (if interval \<le> 0 then 10 * minute else interval)"

definition decideSince :: "fault \<times> fault \<Rightarrow> instant \<Rightarrow> string \<Rightarrow> control_db \<Rightarrow> int option \<times> bool" where
  "decideSince = (\<lambda>(ferr, serr) now pubkey db.
     let (last, err) = (case LastFetched ferr pubkey db of Inl e \<Rightarrow> (0, True) | Inr v \<Rightarrow> (v, False));
         (swept, sweptErr) = (case LastSwept serr pubkey db of Inl e \<Rightarrow> (0, True) | Inr v \<Rightarrow> (v, False));
         fullSweep = (err \<or> sweptErr \<or> last = 0 \<or> now - swept * second \<ge> fullSweepAge);
         ts = last - fetchOverlap div second in
     (if \<not> fullSweep \<and> ts > 0 then Some ts else None, fullSweep))"

definition fetchFilter :: "string \<Rightarrow> int option \<Rightarrow> nostr_filter" where
  "fetchFilter pubkey since = \<lparr>f_ids = [], f_kinds = InScopeKinds, f_authors = [pubkey], f_tags = [],
     f_since = since, f_until = None, f_limit = 0\<rparr>"

text \<open>The loop of \<open>fetchOn\<close>.\<close>

fun fetchLoop :: "crawl_env \<Rightarrow> sub_msg list \<Rightarrow> dedup \<times> store \<Rightarrow> bool \<times> dedup \<times> store" where
  "fetchLoop env [] p = (False, p)"
| "fetchLoop env (SubTimeout # msgs) p = (False, p)"
| "fetchLoop env (SubEOSE # msgs) p = (True, p)"
| "fetchLoop env (SubClosed r # msgs) p = (False, p)"
| "fetchLoop env (SubEventsClosed # msgs) p = (False, p)"
| "fetchLoop env (SubEvent now ev # msgs) p =
     fetchLoop env msgs
       (snd (ingest now (ce_override env) (ce_checkID env) (ce_checkSignature env) ev (ce_others env now p)))"

definition fetchOn :: "crawl_env \<Rightarrow> upstream \<Rightarrow> string \<Rightarrow> pubkeyJob \<Rightarrow> dedup \<times> store \<Rightarrow> bool \<times> dedup \<times> store" where
  "fetchOn env up url job p =
     (case up_subscribe up url (job_pubkey job) of
        Some e \<Rightarrow> (False, p)
      | None \<Rightarrow> fetchLoop env (up_stream up url (fetchFilter (job_pubkey job) (job_since job))) p)"

text \<open>Recording a completed job; the errors of the two marks are ignored.\<close>

definition markJob :: "upstream \<Rightarrow> string \<Rightarrow> pubkeyJob \<Rightarrow> control_db \<Rightarrow> control_db" where
  "markJob up url job db =
     (let (ferr, serr) = up_mark up url (job_pubkey job);
          now = up_markTime up url (job_pubkey job);
          db1 = snd (MarkFetched ferr now (job_pubkey job) db) in
      if job_fullSweep job then snd (MarkSwept serr now (job_pubkey job) db1) else db1)"

fun fetchJobs :: "crawl_env \<Rightarrow> upstream \<Rightarrow> string \<Rightarrow> pubkeyJob list \<Rightarrow> crawl_state \<Rightarrow> pubkeyJob list \<times> crawl_state" where
  "fetchJobs env up url [] st = ([], st)"
| "fetchJobs env up url (job # jobs) (p, db) =
     (if up_cancelled up (BeforeJob url (job_pubkey job)) then (job # jobs, (p, db))
      else case fetchOn env up url job p of
        (True, p1) \<Rightarrow> fetchJobs env up url jobs (p1, markJob up url job db)
      | (False, p1) \<Rightarrow>
          (case fetchJobs env up url jobs (p1, db) of (rest, st) \<Rightarrow> (job # rest, st)))"

definition fetchRelay :: "crawl_env \<Rightarrow> upstream \<Rightarrow> string \<Rightarrow> pubkeyJob list \<Rightarrow> crawl_state \<Rightarrow> pubkeyJob list \<times> crawl_state" where
  "fetchRelay env up url remaining st =
     (case up_connect up url of
        Some e \<Rightarrow> (remaining, st)
      | None \<Rightarrow> fetchJobs env up url remaining st)"

text \<open>The first loop of \<open>tick\<close>: \<open>None\<close> when it returns because the context is done.\<close>

fun decideJobs :: "upstream \<Rightarrow> control_db \<Rightarrow> string list \<Rightarrow> pubkeyJob list option" where
  "decideJobs up db [] = Some []"
| "decideJobs up db (pk # pks) =
     (if up_cancelled up (BeforePubkey pk) then None
      else case decideSince (up_lookup up pk) (up_now up) pk db of (since, full) \<Rightarrow>
        map_option (Cons \<lparr>job_pubkey = pk, job_since = since, job_fullSweep = full\<rparr>) (decideJobs up db pks))"

fun visitRelays :: "crawl_env \<Rightarrow> upstream \<Rightarrow> string list \<Rightarrow> pubkeyJob list \<Rightarrow> crawl_state \<Rightarrow> pubkeyJob list \<times> crawl_state" where
  "visitRelays env up [] remaining st = (remaining, st)"
| "visitRelays env up (url # urls) remaining st =
     (if up_cancelled up (BeforeRelay url) \<or> remaining = [] then (remaining, st)
      else case fetchRelay env up url remaining st of (rest, st1) \<Rightarrow> visitRelays env up urls rest st1)"

text \<open>One tick, with the jobs no relay served (which it logs).\<close>

definition tick :: "crawl_env \<Rightarrow> upstream \<Rightarrow> string list \<Rightarrow> string list \<Rightarrow> crawl_state \<Rightarrow> pubkeyJob list \<times> crawl_state" where
  "tick env up pubkeys relays st =
     (case decideJobs up (snd st) pubkeys of
        None \<Rightarrow> ([], st)
      | Some jobs \<Rightarrow> visitRelays env up relays jobs st)"

text \<open>\<open>Run\<close>: a tick at once and one per interval, unless a list is empty.\<close>

fun runPriority :: "crawl_env \<Rightarrow> upstream list \<Rightarrow> string list \<Rightarrow> string list \<Rightarrow> crawl_state \<Rightarrow> crawl_state" where
  "runPriority env [] pubkeys relays st = st"
| "runPriority env (up # ups) pubkeys relays st =
     (if pubkeys = [] \<or> relays = [] then st
      else runPriority env ups pubkeys relays (snd (tick env up pubkeys relays st)))"

section \<open>Lemmas\<close>

text \<open>A stream that reaches EOSE: only events before it.\<close>

fun reachesEOSE :: "sub_msg list \<Rightarrow> bool" where
  "reachesEOSE (SubEOSE # msgs) = True"
| "reachesEOSE (SubEvent now ev # msgs) = reachesEOSE msgs"
| "reachesEOSE _ = False"

lemma reachesEOSE_iff:
  "reachesEOSE msgs \<longleftrightarrow> (\<exists>evs rest. msgs = map (\<lambda>(t, e). SubEvent t e) evs @ SubEOSE # rest)"
proof
  show "reachesEOSE msgs \<Longrightarrow> \<exists>evs rest. msgs = map (\<lambda>(t, e). SubEvent t e) evs @ SubEOSE # rest"
  proof (induction msgs rule: reachesEOSE.induct)
    case (1 msgs)
    show ?case by (rule exI[of _ "[]"]) simp
  next
    case (2 now ev msgs)
    then obtain evs rest where "msgs = map (\<lambda>(t, e). SubEvent t e) evs @ SubEOSE # rest" by auto
    then show ?case by (intro exI[of _ "(now, ev) # evs"]) simp
  qed simp_all
  have "reachesEOSE (map (\<lambda>(t, e). SubEvent t e) evs @ SubEOSE # rest)" for evs rest
    by (induction evs) auto
  then show "\<exists>evs rest. msgs = map (\<lambda>(t, e). SubEvent t e) evs @ SubEOSE # rest \<Longrightarrow> reachesEOSE msgs" by blast
qed

lemma fetchLoop_complete: "fst (fetchLoop env msgs p) = reachesEOSE msgs"
  by (induction env msgs p rule: fetchLoop.induct) simp_all

text \<open>A relay serves a job: it accepts the connection and the subscription and sends EOSE in time.\<close>

definition serves :: "upstream \<Rightarrow> string \<Rightarrow> pubkeyJob \<Rightarrow> bool" where
  "serves up url job \<longleftrightarrow> up_connect up url = None \<and> up_subscribe up url (job_pubkey job) = None \<and>
     reachesEOSE (up_stream up url (fetchFilter (job_pubkey job) (job_since job)))"

lemma fetchOn_complete:
  "up_connect up url = None \<Longrightarrow> fst (fetchOn env up url job p) = serves up url job"
  by (simp add: fetchOn_def serves_def fetchLoop_complete split: option.splits)

text \<open>The crawl state of a pubkey changes only by marking a served job of it.\<close>

lemma markJob_other: "q \<noteq> job_pubkey job \<Longrightarrow> crawlLookup q (markJob up url job db) = crawlLookup q db"
  by (cases "up_mark up url (job_pubkey job)")
    (auto simp: markJob_def Let_def MarkFetched_def MarkSwept_def crawlLookup_def find_upsert split: option.splits)

lemma markJob_sweep:
  "\<not> job_fullSweep job \<Longrightarrow> LastSwept None q (markJob up url job db) = LastSwept None q db"
  by (cases "up_mark up url (job_pubkey job)")
    (auto simp: markJob_def Let_def MarkFetched_def LastSwept_def crawlLookup_def find_upsert split: option.splits)

lemma fetchJobs_served:
  assumes "fetchJobs env up url jobs (p, db) = (rest, (p', db'))" "up_connect up url = None"
  shows "set rest \<subseteq> set jobs"
    and "crawlLookup q db' \<noteq> crawlLookup q db \<Longrightarrow> \<exists>job \<in> set jobs. job_pubkey job = q \<and> serves up url job"
    and "LastSwept None q db' \<noteq> LastSwept None q db \<Longrightarrow>
      \<exists>job \<in> set jobs. job_pubkey job = q \<and> job_fullSweep job \<and> serves up url job"
proof -
  have "set rest \<subseteq> set jobs \<and>
    (crawlLookup q db' \<noteq> crawlLookup q db \<longrightarrow> (\<exists>job \<in> set jobs. job_pubkey job = q \<and> serves up url job)) \<and>
    (LastSwept None q db' \<noteq> LastSwept None q db \<longrightarrow>
      (\<exists>job \<in> set jobs. job_pubkey job = q \<and> job_fullSweep job \<and> serves up url job))"
    using assms
  proof (induction jobs arbitrary: p db rest)
    case (Cons job jobs)
    show ?case
    proof (cases "up_cancelled up (BeforeJob url (job_pubkey job))")
      case True
      then show ?thesis using Cons.prems(1) by simp
    next
      case live: False
      obtain ok p1 where f: "fetchOn env up url job p = (ok, p1)" by (rule prod.exhaust)
      have serves: "serves up url job = ok" using fetchOn_complete[OF Cons.prems(2), of env job p] f by simp
      show ?thesis
      proof (cases ok)
        case True
        have rec: "fetchJobs env up url jobs (p1, markJob up url job db) = (rest, p', db')"
          using Cons.prems(1) live f True by simp
        have sw: "LastSwept None q (markJob up url job db) = LastSwept None q db" if "\<not> (job_pubkey job = q \<and> job_fullSweep job)"
          using that markJob_sweep[of job q up url db] markJob_other[of q job up url db] by (auto simp: LastSwept_def)
        show ?thesis using Cons.IH[OF rec Cons.prems(2)] markJob_other[of q job up url db] sw True serves by auto
      next
        case False
        obtain rest1 where rec: "fetchJobs env up url jobs (p1, db) = (rest1, p', db')" and "rest = job # rest1"
          using Cons.prems(1) live f False by (auto split: prod.splits)
        then show ?thesis using Cons.IH[OF rec Cons.prems(2)] by auto
      qed
    qed
  qed simp
  then show "set rest \<subseteq> set jobs"
    "crawlLookup q db' \<noteq> crawlLookup q db \<Longrightarrow> \<exists>job \<in> set jobs. job_pubkey job = q \<and> serves up url job"
    "LastSwept None q db' \<noteq> LastSwept None q db \<Longrightarrow>
      \<exists>job \<in> set jobs. job_pubkey job = q \<and> job_fullSweep job \<and> serves up url job" by blast+
qed

lemma visitRelays_served:
  assumes "visitRelays env up urls jobs (p, db) = (rest, (p', db'))"
  shows "crawlLookup q db' \<noteq> crawlLookup q db \<Longrightarrow>
      \<exists>url \<in> set urls. \<exists>job \<in> set jobs. job_pubkey job = q \<and> serves up url job"
    and "LastSwept None q db' \<noteq> LastSwept None q db \<Longrightarrow>
      \<exists>url \<in> set urls. \<exists>job \<in> set jobs. job_pubkey job = q \<and> job_fullSweep job \<and> serves up url job"
proof -
  have "(crawlLookup q db' \<noteq> crawlLookup q db \<longrightarrow>
      (\<exists>url \<in> set urls. \<exists>job \<in> set jobs. job_pubkey job = q \<and> serves up url job)) \<and>
    (LastSwept None q db' \<noteq> LastSwept None q db \<longrightarrow>
      (\<exists>url \<in> set urls. \<exists>job \<in> set jobs. job_pubkey job = q \<and> job_fullSweep job \<and> serves up url job))"
    using assms
  proof (induction urls arbitrary: jobs p db)
    case (Cons url urls)
    show ?case
    proof (cases "up_cancelled up (BeforeRelay url) \<or> jobs = []")
      case True
      then show ?thesis using Cons.prems by simp
    next
      case go: False
      obtain rest1 p1 db1 where f: "fetchRelay env up url jobs (p, db) = (rest1, (p1, db1))" by (metis surj_pair)
      have rec: "visitRelays env up urls rest1 (p1, db1) = (rest, (p', db'))" using Cons.prems go f by simp
      show ?thesis
      proof (cases "up_connect up url")
        case (Some e)
        then have "rest1 = jobs" "db1 = db" using f by (simp_all add: fetchRelay_def)
        then show ?thesis using Cons.IH[OF rec] by auto
      next
        case None
        then have "fetchJobs env up url jobs (p, db) = (rest1, (p1, db1))" using f by (simp add: fetchRelay_def)
        note served = fetchJobs_served[OF this None]
        have later: "\<exists>u \<in> set (url # urls). \<exists>job \<in> set jobs. P job \<and> serves up u job"
          if "\<exists>u \<in> set urls. \<exists>job \<in> set rest1. P job \<and> serves up u job" for P using that served(1) by auto
        have now: "\<exists>u \<in> set (url # urls). \<exists>job \<in> set jobs. P job \<and> serves up u job"
          if "\<exists>job \<in> set jobs. P job \<and> serves up url job" for P using that by auto
        have 1: "crawlLookup q db1 \<noteq> crawlLookup q db \<or> crawlLookup q db' \<noteq> crawlLookup q db1"
          if "crawlLookup q db' \<noteq> crawlLookup q db" using that by metis
        have 2: "LastSwept None q db1 \<noteq> LastSwept None q db \<or> LastSwept None q db' \<noteq> LastSwept None q db1"
          if "LastSwept None q db' \<noteq> LastSwept None q db" using that by metis
        show ?thesis
          using 1 2 Cons.IH[OF rec] served(2,3)[of q] later[of "\<lambda>job. job_pubkey job = q"] now[of "\<lambda>job. job_pubkey job = q"]
            later[of "\<lambda>job. job_pubkey job = q \<and> job_fullSweep job"] now[of "\<lambda>job. job_pubkey job = q \<and> job_fullSweep job"]
          unfolding conj_assoc by argo
      qed
    qed
  qed simp
  then show "crawlLookup q db' \<noteq> crawlLookup q db \<Longrightarrow>
      \<exists>url \<in> set urls. \<exists>job \<in> set jobs. job_pubkey job = q \<and> serves up url job"
    "LastSwept None q db' \<noteq> LastSwept None q db \<Longrightarrow>
      \<exists>url \<in> set urls. \<exists>job \<in> set jobs. job_pubkey job = q \<and> job_fullSweep job \<and> serves up url job" by blast+
qed

definition jobFor :: "upstream \<Rightarrow> control_db \<Rightarrow> string \<Rightarrow> pubkeyJob" where
  "jobFor up db pk = (case decideSince (up_lookup up pk) (up_now up) pk db of
     (since, full) \<Rightarrow> \<lparr>job_pubkey = pk, job_since = since, job_fullSweep = full\<rparr>)"

lemma decideJobs_map:
  "decideJobs up db pks =
     (if \<exists>pk \<in> set pks. up_cancelled up (BeforePubkey pk) then None else Some (map (jobFor up db) pks))"
  by (induction pks) (auto simp: jobFor_def split: prod.splits)

lemma jobFor_pubkey [simp]: "job_pubkey (jobFor up db pk) = pk"
  by (simp add: jobFor_def split: prod.splits)

lemma full_sweep_asks_all: "job_fullSweep (jobFor up db pk) \<Longrightarrow> job_since (jobFor up db pk) = None"
  by (auto simp: jobFor_def decideSince_def Let_def split: prod.splits sum.splits)

subsection \<open>Ticks without cancellation and database faults\<close>

definition undisturbed :: "upstream \<Rightarrow> bool" where
  "undisturbed up \<longleftrightarrow> (\<forall>x. \<not> up_cancelled up x) \<and> (\<forall>url pk. up_mark up url pk = (None, None))"

lemma markJob_fetched:
  assumes "undisturbed up"
  shows "LastFetched None (job_pubkey job) (markJob up url job db) = Inr (up_markTime up url (job_pubkey job))"
  using assms by (simp add: undisturbed_def markJob_def Let_def crawl_marks)

lemma fetchJobs_exact:
  assumes "undisturbed up" "up_connect up url = None" "fetchJobs env up url jobs (p, db) = (rest, (p', db'))"
  shows "rest = filter (\<lambda>job. \<not> serves up url job) jobs"
    and "LastFetched None q db' = (if \<exists>job \<in> set jobs. job_pubkey job = q \<and> serves up url job
        then Inr (up_markTime up url q) else LastFetched None q db)"
proof -
  have "rest = filter (\<lambda>job. \<not> serves up url job) jobs \<and>
    LastFetched None q db' = (if \<exists>job \<in> set jobs. job_pubkey job = q \<and> serves up url job
        then Inr (up_markTime up url q) else LastFetched None q db)"
    using assms(3)
  proof (induction jobs arbitrary: p db rest)
    case (Cons job jobs)
    obtain ok p1 where f: "fetchOn env up url job p = (ok, p1)" by (rule prod.exhaust)
    have serves: "serves up url job = ok" using fetchOn_complete[OF assms(2), of env job p] f by simp
    have live: "\<not> up_cancelled up (BeforeJob url (job_pubkey job))" using assms(1) by (simp add: undisturbed_def)
    show ?case
    proof (cases ok)
      case True
      have rec: "fetchJobs env up url jobs (p1, markJob up url job db) = (rest, p', db')"
        using Cons.prems live f True by simp
      have "LastFetched None q (markJob up url job db) =
          (if q = job_pubkey job then Inr (up_markTime up url q) else LastFetched None q db)"
        using markJob_fetched[OF assms(1), of job url db] markJob_other[of q job up url db] by (auto simp: LastFetched_def)
      then show ?thesis using Cons.IH[OF rec] serves True by auto
    next
      case False
      obtain rest1 where rec: "fetchJobs env up url jobs (p1, db) = (rest1, p', db')" and "rest = job # rest1"
        using Cons.prems live f False by (auto split: prod.splits)
      then show ?thesis using Cons.IH[OF rec] serves False by auto
    qed
  qed simp
  then show "rest = filter (\<lambda>job. \<not> serves up url job) jobs"
    "LastFetched None q db' = (if \<exists>job \<in> set jobs. job_pubkey job = q \<and> serves up url job
        then Inr (up_markTime up url q) else LastFetched None q db)" by blast+
qed

text \<open>The time a pubkey was marked by one of the relays, in this tick.\<close>

definition markedBy :: "upstream \<Rightarrow> string set \<Rightarrow> string \<Rightarrow> control_db \<Rightarrow> bool" where
  "markedBy up urls q db \<longleftrightarrow> (\<exists>url \<in> urls. LastFetched None q db = Inr (up_markTime up url q))"

lemma visitRelays_exact:
  assumes "undisturbed up" "visitRelays env up urls jobs (p, db) = (rest, (p', db'))"
  shows "rest = filter (\<lambda>job. \<not> (\<exists>url \<in> set urls. serves up url job)) jobs \<and>
    ((\<exists>job \<in> set jobs. job_pubkey job = q \<and> (\<exists>url \<in> set urls. serves up url job)) \<or> markedBy up U q db \<longrightarrow>
      markedBy up (set urls \<union> U) q db')"
  using assms(2)
proof (induction urls arbitrary: jobs p db U)
  case (Cons url urls)
  show ?case
  proof (cases "jobs = []")
    case True
    then show ?thesis using Cons.prems by (auto simp: markedBy_def)
  next
    case go: False
    obtain rest1 p1 db1 where f: "fetchRelay env up url jobs (p, db) = (rest1, (p1, db1))" by (metis surj_pair)
    have rec: "visitRelays env up urls rest1 (p1, db1) = (rest, (p', db'))"
      using Cons.prems go f assms(1) by (simp add: undisturbed_def)
    have step: "rest1 = filter (\<lambda>job. \<not> serves up url job) jobs" "LastFetched None q db1 =
        (if \<exists>job \<in> set jobs. job_pubkey job = q \<and> serves up url job then Inr (up_markTime up url q) else LastFetched None q db)"
    proof -
      show "rest1 = filter (\<lambda>job. \<not> serves up url job) jobs" 
        using f fetchJobs_exact(1)[OF assms(1)] by (auto simp: fetchRelay_def serves_def split: option.splits)
      show "LastFetched None q db1 =
        (if \<exists>job \<in> set jobs. job_pubkey job = q \<and> serves up url job then Inr (up_markTime up url q) else LastFetched None q db)"
        using f fetchJobs_exact(2)[OF assms(1), where q = q] by (auto simp: fetchRelay_def serves_def split: option.splits)
    qed
    have now: "markedBy up (insert url U) q db1"
      if "(\<exists>job \<in> set jobs. job_pubkey job = q \<and> serves up url job) \<or> markedBy up U q db"
      using that step(2) by (auto simp: markedBy_def)
    have "rest = filter (\<lambda>job. \<not> (\<exists>u \<in> set urls. serves up u job)) rest1"
      "(\<exists>job \<in> set rest1. job_pubkey job = q \<and> (\<exists>u \<in> set urls. serves up u job)) \<or> markedBy up (insert url U) q db1 \<longrightarrow>
        markedBy up (set (url # urls) \<union> U) q db'"
      using Cons.IH[OF rec, of "insert url U"] by (simp_all add: Un_insert_right)
    then show ?thesis using step(1) now by (auto simp: conj_commute)
  qed
qed auto

section \<open>Properties\<close>

text \<open>C16. Progress is recorded only for complete fetches: if a tick changes the crawl state of a
  pubkey, the pubkey is a configured one and some relay accepted the connection and a subscription
  with the filter decided for it, and delivered only events up to its EOSE within the deadline; if
  the time of the last full sweep changes, that subscription asked for the whole history.\<close>

theorem progress_only_after_eose:
  assumes "tick env up pubkeys relays (p, db) = (rest, (p', db'))"
  shows "(crawlLookup q db' \<noteq> crawlLookup q db \<longrightarrow>
      q \<in> set pubkeys \<and> (\<exists>url \<in> set relays. up_connect up url = None \<and> up_subscribe up url q = None \<and>
        (\<exists>evs rest. up_stream up url (fetchFilter q (fst (decideSince (up_lookup up q) (up_now up) q db))) =
           map (\<lambda>(t, e). SubEvent t e) evs @ SubEOSE # rest))) \<and>
    (LastSwept None q db' \<noteq> LastSwept None q db \<longrightarrow>
      (\<exists>url \<in> set relays. up_connect up url = None \<and> up_subscribe up url q = None \<and>
        (\<exists>evs rest. up_stream up url (fetchFilter q None) = map (\<lambda>(t, e). SubEvent t e) evs @ SubEOSE # rest)))"
proof (rule conjI; rule impI)
  have since: "job_since (jobFor up db pk) = fst (decideSince (up_lookup up pk) (up_now up) pk db)" for pk
    by (simp add: jobFor_def split: prod.splits)
  have jobs: "decideJobs up db pubkeys = None \<and> db' = db \<or>
      visitRelays env up relays (map (jobFor up db) pubkeys) (p, db) = (rest, (p', db'))"
    using assms by (auto simp: tick_def decideJobs_map split: if_splits)
  show "q \<in> set pubkeys \<and> (\<exists>url \<in> set relays. up_connect up url = None \<and> up_subscribe up url q = None \<and>
        (\<exists>evs rest. up_stream up url (fetchFilter q (fst (decideSince (up_lookup up q) (up_now up) q db))) =
           map (\<lambda>(t, e). SubEvent t e) evs @ SubEOSE # rest))" if "crawlLookup q db' \<noteq> crawlLookup q db"
    using jobs visitRelays_served(1)[of env up relays "map (jobFor up db) pubkeys" p db rest p' db' q] that
    by (auto simp: serves_def since reachesEOSE_iff)
  show "(\<exists>url \<in> set relays. up_connect up url = None \<and> up_subscribe up url q = None \<and>
        (\<exists>evs rest. up_stream up url (fetchFilter q None) = map (\<lambda>(t, e). SubEvent t e) evs @ SubEOSE # rest))"
    if "LastSwept None q db' \<noteq> LastSwept None q db"
    using jobs visitRelays_served(2)[of env up relays "map (jobFor up db) pubkeys" p db rest p' db' q] that
      full_sweep_asks_all[of up db q] by (auto simp: serves_def reachesEOSE_iff)
qed


text \<open>C35. Failover serves what can be served: in a tick that is neither cancelled nor hit by
  database faults, the pubkeys left over are exactly those no relay of the list serves, and every
  pubkey that some relay serves has its last fetch recorded at the time a relay completed it.\<close>

theorem failover_serves_all:
  assumes "undisturbed up" "tick env up pubkeys relays (p, db) = (rest, (p', db'))"
  shows "map job_pubkey rest = filter (\<lambda>q. \<not> (\<exists>url \<in> set relays. serves up url (jobFor up db q))) pubkeys \<and>
    (q \<in> set pubkeys \<and> url \<in> set relays \<and> serves up url (jobFor up db q) \<longrightarrow>
      (\<exists>u \<in> set relays. LastFetched None q db' = Inr (up_markTime up u q)))"
proof (intro conjI impI)
  have visit: "visitRelays env up relays (map (jobFor up db) pubkeys) (p, db) = (rest, (p', db'))"
    using assms by (simp add: tick_def decideJobs_map undisturbed_def)
  have comp: "job_pubkey \<circ> jobFor up db = id" by (simp add: fun_eq_iff)
  show "map job_pubkey rest = filter (\<lambda>q. \<not> (\<exists>url \<in> set relays. serves up url (jobFor up db q))) pubkeys"
    using visitRelays_exact[OF assms(1) visit] by (simp add: filter_map comp_def[symmetric] comp) (simp add: comp_def)
  assume "q \<in> set pubkeys \<and> url \<in> set relays \<and> serves up url (jobFor up db q)"
  then have "\<exists>job \<in> set (map (jobFor up db) pubkeys). job_pubkey job = q \<and> (\<exists>url \<in> set relays. serves up url job)" by auto
  then show "\<exists>u \<in> set relays. LastFetched None q db' = Inr (up_markTime up u q)"
    using visitRelays_exact[OF assms(1) visit, of q "{}"] by (simp add: markedBy_def)
qed


definition demo_up :: upstream where
  "demo_up = \<lparr>up_connect = (\<lambda>url. if url = ''wss://a'' then Some ''refused'' else None),
     up_subscribe = (\<lambda>url pk. None),
     up_stream = (\<lambda>url f. if f_authors f = [''pk''] then [SubEvent 7 demo_note, SubEOSE] else [SubEvent 8 demo_note]),
     up_lookup = (\<lambda>pk. (None, None)), up_mark = (\<lambda>url pk. (None, None)), up_markTime = (\<lambda>url pk. 1700000000),
     up_cancelled = (\<lambda>x. False), up_now = 1700000000 * second\<rparr>"

abbreviation demo_tick :: "pubkeyJob list \<times> crawl_state" where
  "demo_tick \<equiv> tick demo_crawl demo_up [''pk'', ''qk''] [''wss://a'', ''wss://b''] (demo_pair, emptyDB)"

lemma demo_tick_marks: "LastFetched None ''pk'' (snd (snd demo_tick)) = Inr 1700000000" by code_simp

theorem progress_only_after_eose_witness:
  "\<exists>url \<in> set [''wss://a'', ''wss://b'']. up_connect demo_up url = None \<and> up_subscribe demo_up url ''pk'' = None \<and>
     (\<exists>evs rest. up_stream demo_up url (fetchFilter ''pk'' None) = map (\<lambda>(t, e). SubEvent t e) evs @ SubEOSE # rest)"
proof -
  have t: "demo_tick = (fst demo_tick, (fst (snd demo_tick), snd (snd demo_tick)))" by simp
  have "LastSwept None ''pk'' (snd (snd demo_tick)) = Inr 1700000000" by code_simp
  moreover have "LastSwept None ''pk'' emptyDB = Inr 0" by code_simp
  ultimately have "LastSwept None ''pk'' (snd (snd demo_tick)) \<noteq> LastSwept None ''pk'' emptyDB" by simp
  with progress_only_after_eose[OF t, of "''pk''"] show ?thesis by blast
qed

theorem failover_serves_all_witness:
  "map job_pubkey (fst demo_tick) = [''qk''] \<and>
   (\<exists>u \<in> set [''wss://a'', ''wss://b'']. LastFetched None ''pk'' (snd (snd demo_tick)) = Inr (up_markTime demo_up u ''pk''))"
proof -
  have t: "demo_tick = (fst demo_tick, (fst (snd demo_tick), snd (snd demo_tick)))" by simp
  have calm: "undisturbed demo_up" by (simp add: undisturbed_def demo_up_def)
  have "filter (\<lambda>q. \<not> (\<exists>url \<in> set [''wss://a'', ''wss://b'']. serves demo_up url (jobFor demo_up emptyDB q))) [''pk'', ''qk''] =
      [''qk'']" "serves demo_up ''wss://b'' (jobFor demo_up emptyDB ''pk'')" by code_simp+
  then show ?thesis using failover_serves_all[OF calm t, of "''pk''" "''wss://b''"]
    by simp
qed

text \<open>Successive fetches overlap: if the last fetch of a pubkey was recorded by the deadline of a
  subscription opened at \<open>t0\<close>, then an event of that pubkey in scope that appears upstream at any
  \<open>t\<close> after \<open>t0\<close>, dated at most 115 minutes back, matches the filter of the next fetch, whenever
  that is and whether or not the state can be read; and a fetch a day or more after the last full
  sweep asks for the whole history.\<close>

theorem fetch_windows_overlap:
  assumes "LastFetched None pk db = Inr m" "m * second \<le> t0 + fetchTimeout" "t0 \<le> t"
  shows "ev_pubkey ev = pk \<Longrightarrow> ev_kind ev \<in> set InScopeKinds \<Longrightarrow> t - 115 * minute \<le> ev_created_at ev * second \<Longrightarrow>
      nip01_matches (fetchFilter pk (fst (decideSince flts now pk db))) ev"
    and "LastSwept None pk db = Inr w \<Longrightarrow> w * second + 24 * hour \<le> now \<Longrightarrow> decideSince flts now pk db = (None, True)"
proof -
  obtain f1 f2 where flts: "flts = (f1, f2)" by fastforce
  have since: "x = m - 7200" if "fst (decideSince flts now pk db) = Some x" for x
    using that assms(1) unfolding flts
    by (auto simp: decideSince_def Let_def LastFetched_def LastSwept_def fetchOverlap_def split: option.splits if_splits)
  show "nip01_matches (fetchFilter pk (fst (decideSince flts now pk db))) ev"
    if "ev_pubkey ev = pk" "ev_kind ev \<in> set InScopeKinds" "t - 115 * minute \<le> ev_created_at ev * second"
  proof -
    have "x \<le> ev_created_at ev" if "fst (decideSince flts now pk db) = Some x" for x
      using since[OF that] assms(2,3) \<open>t - 115 * minute \<le> ev_created_at ev * second\<close> by (simp add: fetchTimeout_def)
    then show ?thesis using that(1,2) by (simp add: nip01_matches_def fetchFilter_def split: option.splits)
  qed
  show "LastSwept None pk db = Inr w \<Longrightarrow> w * second + 24 * hour \<le> now \<Longrightarrow> decideSince flts now pk db = (None, True)"
    unfolding flts
    by (auto simp: decideSince_def Let_def LastFetched_def LastSwept_def fullSweepAge_def split: option.splits)
qed

theorem fetch_windows_overlap_witness:
  "nip01_matches (fetchFilter ''pk'' (fst (decideSince (None, None) (1700000600 * second) ''pk'' (snd (snd demo_tick)))))
     (demo_note\<lparr>ev_created_at := 1699994000\<rparr>)"
proof -
  have "1700000000 * second \<le> (1699999900 * second) + fetchTimeout" by (simp add: fetchTimeout_def)
  from fetch_windows_overlap(1)[OF demo_tick_marks this order_refl, of "demo_note\<lparr>ev_created_at := 1699994000\<rparr>"]
  show ?thesis by (simp add: demo_note_def InScopeKinds_def)
qed

text \<open>Progress does not mean everything was kept: there is a tick in which the batcher refuses a
  valid event of a pubkey because its queue is full, the pubkey is recorded as fetched and swept,
  and the next incremental fetch does not ask for that event.\<close>

definition old_note :: event where
  "old_note = demo_hex\<lparr>ev_created_at := 1600000000\<rparr>"

definition old_up :: upstream where
  "old_up = demo_up\<lparr>up_stream := (\<lambda>url f. [SubEvent 7 old_note, SubEOSE])\<rparr>"

definition busy_store :: store where
  "busy_store = (let s = Init 10 (\<lambda>_. []) [] in
     s\<lparr>s_tiers := map_option (\<lambda>b. b\<lparr>b_in := replicate (b_cap b) demo_note, b_accepted := replicate (b_cap b) demo_note\<rparr>) \<circ> s_tiers s\<rparr>)"

theorem refused_event_is_skipped_over:
  "\<exists>rest d s db. tick demo_crawl old_up [''pk''] [''wss://b''] ((NewDedup 4, busy_store), emptyDB) = (rest, ((d, s), db)) \<and>
     old_note \<in> {e. nip01_matches (fetchFilter ''pk'' None) e \<and> ce_checkID demo_crawl e \<and> ce_checkSignature demo_crawl e} \<and>
     fst (SaveEvent Map.empty old_note busy_store) = Some (BatchErr ErrBatchFull) \<and> \<not> Seen (ev_id old_note) d \<and>
     LastFetched None ''pk'' db = Inr 1700000000 \<and> LastSwept None ''pk'' db = Inr 1700000000 \<and>
     \<not> nip01_matches (fetchFilter ''pk'' (fst (decideSince (None, None) (1700000600 * second) ''pk'' db))) old_note"
proof -
  let ?d = "snd (CheckAndMark 7 (ev_id old_note) (NewDedup 4))"
  let ?job = "jobFor old_up emptyDB ''pk''" and ?db = "markJob old_up ''wss://b'' (jobFor old_up emptyDB ''pk'') emptyDB"
  have tier: "tierForEvent old_note Map.empty \<in> set activeTiers \<and> tierForEvent old_note Map.empty \<noteq> TierDrop" by code_simp
  then have full: "fst (SaveEvent Map.empty old_note busy_store) = Some (BatchErr ErrBatchFull)"
    by (simp add: SaveEvent_def busy_store_def Init_def newBatcher_def enqueue_def Let_def)
  have unseen: "\<not> Seen (ev_id old_note) (NewDedup 4)" by (simp add: Seen_def NewDedup_def split: option.splits)
  have pre: "TierForKind (ev_kind old_note) \<noteq> TierDrop"
    "up_stream old_up ''wss://b'' (fetchFilter ''pk'' (job_since ?job)) = [SubEvent 7 old_note, SubEOSE]"
    "up_subscribe old_up ''wss://b'' ''pk'' = None" "up_connect old_up ''wss://b'' = None" by code_simp+
  obtain s1 where s1: "SaveEvent Map.empty old_note busy_store = (Some (BatchErr ErrBatchFull), s1)"
    using full by (metis prod.collapse)
  have "fetchOn demo_crawl old_up ''wss://b'' ?job (NewDedup 4, busy_store) = (True, (Unmark (ev_id old_note) ?d, s1))"
    using unseen pre s1 by (simp add: fetchOn_def ingest_def ingestStep_eq Let_def verifyEvent_def demo_crawl_def)
  then have "tick demo_crawl old_up [''pk''] [''wss://b''] ((NewDedup 4, busy_store), emptyDB) =
      ([], ((Unmark (ev_id old_note) ?d, s1), ?db))"
    using pre by (simp add: tick_def decideJobs_map fetchRelay_def) (simp add: old_up_def demo_up_def)
  moreover have "nip01_matches (fetchFilter ''pk'' None) old_note \<and> ce_checkID demo_crawl old_note \<and>
      ce_checkSignature demo_crawl old_note" by code_simp
  moreover have "\<not> Seen (ev_id old_note) (Unmark (ev_id old_note) ?d)" using cache.forget_unseen by blast
  moreover have "LastFetched None ''pk'' ?db = Inr 1700000000" "LastSwept None ''pk'' ?db = Inr 1700000000"
    "\<not> nip01_matches (fetchFilter ''pk'' (fst (decideSince (None, None) (1700000600 * second) ''pk'' ?db))) old_note"
    by code_simp+
  ultimately show ?thesis using full by blast
qed

end
