(* ===== verification/Stats.thy ===== *)
theory Stats
  imports Store_Read
begin

text \<open>
  The statistics service (\<open>internal/stats/stats.go\<close>): the follower snapshot built in staging and
  swapped in, the rolling monthly, daily and daily-active rollups, and the queries on them.

  \<^item> A statement that fails may have taken effect before its acknowledgement was lost; an insert
    that fails may have landed in part.
  \<^item> The queries over the event tables are written out as list functions, one clause at a time.
    \<open>FINAL\<close> keeps the last inserted row of every sorting key. The server's calendar
    (\<open>calendar\<close>), its \<open>uniq\<close> estimate and the amount it extracts from the raw tags are parameters.
\<close>

datatype exec_outcome = ExecOK | ExecFails string bool
datatype insert_outcome = InsertOK | InsertFails string nat

record service =
  sv_engineChecked :: bool
  sv_engineErr :: "string option"

record monthly_row =
  mr_note :: string
  mr_month :: int
  mr_metric :: string
  mr_count :: nat
  mr_sats :: nat

record daily_row =
  dr_day :: int
  dr_metric :: string
  dr_value :: nat

record active_row =
  ar_day :: int
  ar_authors :: "string set"

record stats_db =
  sd_followers :: "(string \<times> nat) list"
  sd_staging :: "(string \<times> nat) list"
  sd_monthly :: "monthly_row list"
  sd_daily :: "daily_row list"
  sd_active :: "active_row list"

text \<open>Calendar functions of the server: the day and the month of a timestamp, the first second of a
  day and of a month, today, and the first month of the monthly window.\<close>

record calendar =
  cal_dayOf :: "int \<Rightarrow> int"
  cal_monthOf :: "int \<Rightarrow> int"
  cal_dayStart :: "int \<Rightarrow> int"
  cal_monthStart :: "int \<Rightarrow> int"
  cal_today :: int
  cal_prevMonth :: int

section \<open>Definitions\<close>

definition newService :: service where
  "newService = \<lparr>sv_engineChecked = False, sv_engineErr = None\<rparr>"

fun runExec :: "exec_outcome \<Rightarrow> ('d \<Rightarrow> 'd) \<Rightarrow> 'd \<Rightarrow> string option \<times> 'd" where
  "runExec ExecOK f d = (None, f d)"
| "runExec (ExecFails e landed) f d = (Some e, if landed then f d else d)"

fun runInsert :: "insert_outcome \<Rightarrow> 'r list \<Rightarrow> 'r list \<Rightarrow> string option \<times> 'r list" where
  "runInsert InsertOK rows table = (None, table @ rows)"
| "runInsert (InsertFails e n) rows table = (Some e, table @ take n rows)"

subsection \<open>What the event tables hold\<close>

definition sortingKey :: "row \<Rightarrow> 32 word \<times> string \<times> 32 word \<times> string" where
  "sortingKey r = (r_kind r, r_pubkey r, r_created_at r, r_id r)"

definition finalRows :: "row list \<Rightarrow> row list" where
  "finalRows rows = first_by sortingKey (rev rows)"

definition eventsAll :: "tables \<Rightarrow> row list" where
  "eventsAll tables = concat (map (\<lambda>t. tables (''events_'' @ t)) [''permanent'', ''archive'', ''social''])"

definition createdAt :: "row \<Rightarrow> int" where "createdAt r = uint (r_created_at r)"
definition kindOf :: "row \<Rightarrow> int" where "kindOf r = uint (r_kind r)"

text \<open>\<open>GROUP BY\<close>: one row per key in order of first appearance, built from the members' values.\<close>

definition groupBy :: "('x \<Rightarrow> 'k) \<Rightarrow> ('k \<Rightarrow> 'x list \<Rightarrow> 'r) \<Rightarrow> 'x list \<Rightarrow> 'r list" where
  "groupBy key mk xs = map (\<lambda>k. mk k (filter (\<lambda>x. key x = k) xs)) (remdups (map key xs))"

definition countDistinct :: "'a list \<Rightarrow> nat" where
  "countDistinct xs = length (remdups xs)"

subsection \<open>Followers\<close>

definition contactLists :: "(string \<Rightarrow> bool) \<Rightarrow> tables \<Rightarrow> row list" where
  "contactLists dead tables =
     first_by r_pubkey (sort_key rowKey
       (filter (\<lambda>r. kindOf r = 3 \<and> \<not> dead (r_id r)) (finalRows (tables ''events_permanent''))))"

definition followerRows :: "(string \<Rightarrow> bool) \<Rightarrow> tables \<Rightarrow> (string \<times> nat) list" where
  "followerRows dead tables =
     groupBy snd (\<lambda>p members. (p, countDistinct (map fst members)))
       (concat (map (\<lambda>r. map (\<lambda>p. (r_pubkey r, p)) (tag_p r)) (contactLists dead tables)))"

record follower_faults =
  ff_engine :: "string + string"
  ff_truncate :: exec_outcome
  ff_insert :: insert_outcome
  ff_exchange :: exec_outcome

definition checkEngine :: "string + string \<Rightarrow> service \<Rightarrow> string option \<times> service" where
  "checkEngine engine sv =
     (if sv_engineChecked sv then (sv_engineErr sv, sv)
      else case engine of
        Inl e \<Rightarrow> (Some (''check database engine: '' @ e), sv)
      | Inr name \<Rightarrow>
          let sv1 = \<lparr>sv_engineChecked = True,
                sv_engineErr = (if name \<noteq> ''Atomic''
                  then Some (''follower refresh requires Atomic database engine for EXCHANGE TABLES, got '' @ [CHR 0x22] @ name @ [CHR 0x22])
                  else sv_engineErr sv)\<rparr> in
          (sv_engineErr sv1, sv1))"

definition RefreshFollowers :: "follower_faults \<Rightarrow> (string \<Rightarrow> bool) \<Rightarrow> tables \<Rightarrow> service \<times> stats_db \<Rightarrow>
    string option \<times> service \<times> stats_db" where
  "RefreshFollowers flt dead tables = (\<lambda>(sv, sd).
     case checkEngine (ff_engine flt) sv of
       (Some e, sv1) \<Rightarrow> (Some e, sv1, sd)
     | (None, sv1) \<Rightarrow>
         case runExec (ff_truncate flt) (\<lambda>d. d\<lparr>sd_staging := []\<rparr>) sd of
           (Some e, sd1) \<Rightarrow> (Some (''truncate: '' @ e), sv1, sd1)
         | (None, sd1) \<Rightarrow>
             case runInsert (ff_insert flt) (followerRows dead tables) (sd_staging sd1) of
               (Some e, rows) \<Rightarrow> (Some (''build follower staging: '' @ e), sv1, sd1\<lparr>sd_staging := rows\<rparr>)
             | (None, rows) \<Rightarrow>
                 case runExec (ff_exchange flt) (\<lambda>d. d\<lparr>sd_followers := sd_staging d, sd_staging := sd_followers d\<rparr>)
                        (sd1\<lparr>sd_staging := rows\<rparr>) of
                   (Some e, sd2) \<Rightarrow> (Some (''exchange follower snapshot: '' @ e), sv1, sd2)
                 | (None, sd2) \<Rightarrow> (None, sv1, sd2))"

text \<open>A missing row is a count of 0.\<close>

definition Followers :: "string option \<Rightarrow> string \<Rightarrow> stats_db \<Rightarrow> string + nat" where
  "Followers flt pubkey sd =
     (case flt of
        Some e \<Rightarrow> Inl e
      | None \<Rightarrow> Inr (case map_of (sd_followers sd) pubkey of None \<Rightarrow> 0 | Some n \<Rightarrow> n))"

subsection \<open>Rolling rollups\<close>

text \<open>The shape of the three rollups: delete the window, then insert it anew.\<close>

definition rollup :: "exec_outcome \<Rightarrow> insert_outcome \<Rightarrow> ('r \<Rightarrow> bool) \<Rightarrow> 'r list \<Rightarrow> 'r list \<Rightarrow> string option \<times> 'r list" where
  "rollup del ins inWindow rows table =
     (case runExec del (filter (\<lambda>r. \<not> inWindow r)) table of
        (Some e, table1) \<Rightarrow> (Some (''delete: '' @ e), table1)
      | (None, table1) \<Rightarrow> runInsert ins rows table1)"

definition monthlyMetric :: "int \<Rightarrow> string" where
  "monthlyMetric k =
     (if k = 7 then ''reaction'' else if k \<in> {6, 16} then ''repost'' else if k = 1 then ''reply''
      else if k = 9735 then ''zap'' else [])"

text \<open>\<open>tag_e[1]\<close>: the empty string when there is none.\<close>

definition firstE :: "row \<Rightarrow> string" where
  "firstE r = (case tag_e r of [] \<Rightarrow> [] | x # _ \<Rightarrow> x)"

text \<open>The contributions: note, month, metric, event id, amount.\<close>

record contribution =
  co_note :: string
  co_month :: int
  co_metric :: string
  co_id :: string
  co_amount :: nat

definition responses :: "calendar \<Rightarrow> (string \<Rightarrow> bool) \<Rightarrow> row list \<Rightarrow> contribution list" where
  "responses cal dead rows =
     map (\<lambda>r. \<lparr>co_note = (if kindOf r = 1 then r_reply_to r else firstE r), co_month = cal_monthOf cal (createdAt r),
              co_metric = monthlyMetric (kindOf r), co_id = r_id r, co_amount = 0\<rparr>)
       (filter (\<lambda>r. kindOf r \<in> {1, 6, 7, 16} \<and> \<not> dead (r_id r) \<and>
           ((kindOf r = 1 \<and> r_reply_to r \<noteq> []) \<or> (kindOf r \<in> {6, 7, 16, 9735} \<and> length (tag_e r) \<ge> 1)) \<and>
           createdAt r \<ge> cal_monthStart cal (cal_prevMonth cal)) rows)"

definition zaps :: "(string \<Rightarrow> nat) \<Rightarrow> calendar \<Rightarrow> (string \<Rightarrow> bool) \<Rightarrow> row list \<Rightarrow> contribution list" where
  "zaps amountOf cal dead rows =
     map (\<lambda>r. \<lparr>co_note = firstE r, co_month = cal_monthOf cal (createdAt r), co_metric = ''zap'', co_id = r_id r,
              co_amount = amountOf (r_tags_raw r)\<rparr>)
       (first_by r_id
         (filter (\<lambda>r. kindOf r = 9735 \<and> length (tag_e r) \<ge> 1 \<and> \<not> dead (r_id r) \<and>
            createdAt r \<ge> cal_monthStart cal (cal_prevMonth cal)) rows))"

definition monthlyRows :: "(string \<Rightarrow> nat) \<Rightarrow> calendar \<Rightarrow> (string \<Rightarrow> bool) \<Rightarrow> tables \<Rightarrow> monthly_row list" where
  "monthlyRows amountOf cal dead tables =
     groupBy (\<lambda>c. (co_note c, co_month c, co_metric c))
       (\<lambda>(n, m, k) cs. \<lparr>mr_note = n, mr_month = m, mr_metric = k, mr_count = countDistinct (map co_id cs),
                        mr_sats = sum_list (map co_amount cs)\<rparr>)
       (filter (\<lambda>c. co_metric c \<noteq> [] \<and> co_note c \<noteq> [])
         (responses cal dead (eventsAll tables) @ zaps amountOf cal dead (eventsAll tables)))"

definition RefreshNoteMonthly :: "exec_outcome \<Rightarrow> insert_outcome \<Rightarrow> (string \<Rightarrow> nat) \<Rightarrow> calendar \<Rightarrow> (string \<Rightarrow> bool) \<Rightarrow>
    tables \<Rightarrow> stats_db \<Rightarrow> string option \<times> stats_db" where
  "RefreshNoteMonthly del ins amountOf cal dead tables sd =
     (case rollup del ins (\<lambda>r. mr_month r \<ge> cal_prevMonth cal) (monthlyRows amountOf cal dead tables) (sd_monthly sd) of
        (e, rows) \<Rightarrow> (e, sd\<lparr>sd_monthly := rows\<rparr>))"

definition dailyMetric :: "int \<Rightarrow> string" where
  "dailyMetric k =
     (if k = 1 then ''posts'' else if k = 7 then ''reactions'' else if k \<in> {6, 16} then ''reposts''
      else if k = 9735 then ''zaps'' else [])"

definition dailyRows :: "calendar \<Rightarrow> (string \<Rightarrow> bool) \<Rightarrow> tables \<Rightarrow> daily_row list" where
  "dailyRows cal dead tables =
     groupBy (\<lambda>(d, m, i). (d, m)) (\<lambda>(d, m) xs. \<lparr>dr_day = d, dr_metric = m, dr_value = countDistinct (map (\<lambda>(d, m, i). i) xs)\<rparr>)
       (filter (\<lambda>(d, m, i). m \<noteq> [])
         (map (\<lambda>r. (cal_dayOf cal (createdAt r), dailyMetric (kindOf r), r_id r))
           (filter (\<lambda>r. kindOf r \<in> {1, 6, 7, 16, 9735} \<and> createdAt r \<ge> cal_dayStart cal (cal_today cal - 3) \<and>
              \<not> dead (r_id r)) (eventsAll tables))))"

definition RefreshDaily :: "exec_outcome \<Rightarrow> insert_outcome \<Rightarrow> calendar \<Rightarrow> (string \<Rightarrow> bool) \<Rightarrow> tables \<Rightarrow> stats_db \<Rightarrow>
    string option \<times> stats_db" where
  "RefreshDaily del ins cal dead tables sd =
     (case rollup del ins (\<lambda>r. dr_day r \<ge> cal_today cal - 3) (dailyRows cal dead tables) (sd_daily sd) of
        (e, rows) \<Rightarrow> (e, sd\<lparr>sd_daily := rows\<rparr>))"

definition activeRows :: "calendar \<Rightarrow> (string \<Rightarrow> bool) \<Rightarrow> tables \<Rightarrow> active_row list" where
  "activeRows cal dead tables =
     groupBy (\<lambda>r. cal_dayOf cal (createdAt r)) (\<lambda>d rs. \<lparr>ar_day = d, ar_authors = r_pubkey ` set rs\<rparr>)
       (filter (\<lambda>r. createdAt r \<ge> cal_dayStart cal (cal_today cal - 3) \<and> \<not> dead (r_id r)) (eventsAll tables))"

definition RefreshDailyActive :: "exec_outcome \<Rightarrow> insert_outcome \<Rightarrow> calendar \<Rightarrow> (string \<Rightarrow> bool) \<Rightarrow> tables \<Rightarrow> stats_db \<Rightarrow>
    string option \<times> stats_db" where
  "RefreshDailyActive del ins cal dead tables sd =
     (case rollup del ins (\<lambda>r. ar_day r \<ge> cal_today cal - 3) (activeRows cal dead tables) (sd_active sd) of
        (e, rows) \<Rightarrow> (e, sd\<lparr>sd_active := rows\<rparr>))"

text \<open>\<open>refreshAll\<close>: the four jobs in turn, each failure only logged.\<close>

record refresh_faults =
  rf_followers :: follower_faults
  rf_monthly :: "exec_outcome \<times> insert_outcome"
  rf_daily :: "exec_outcome \<times> insert_outcome"
  rf_active :: "exec_outcome \<times> insert_outcome"

definition refreshAll :: "refresh_faults \<Rightarrow> (string \<Rightarrow> nat) \<Rightarrow> calendar \<Rightarrow> (string \<Rightarrow> bool) \<Rightarrow> tables \<Rightarrow>
    service \<times> stats_db \<Rightarrow> service \<times> stats_db" where
  "refreshAll flt amountOf cal dead tables st =
     (case RefreshFollowers (rf_followers flt) dead tables st of (_, sv, sd) \<Rightarrow>
        let sd1 = snd (RefreshNoteMonthly (fst (rf_monthly flt)) (snd (rf_monthly flt)) amountOf cal dead tables sd);
            sd2 = snd (RefreshDaily (fst (rf_daily flt)) (snd (rf_daily flt)) cal dead tables sd1);
            sd3 = snd (RefreshDailyActive (fst (rf_active flt)) (snd (rf_active flt)) cal dead tables sd2) in
        (sv, sd3))"

text \<open>\<open>Run\<close>: one refresh of everything, then a job per tick of one of the two tickers, until the context
  ends. Every job sees the server as it is at its tick: the tombstones, the tables and the calendar.\<close>

datatype stats_tick = FollowerTick follower_faults | HourlyTick refresh_faults

record server_state =
  ss_dead :: "string \<Rightarrow> bool"
  ss_tables :: tables
  ss_calendar :: calendar

definition statsTick :: "(string \<Rightarrow> nat) \<Rightarrow> server_state \<times> stats_tick \<Rightarrow> service \<times> stats_db \<Rightarrow> service \<times> stats_db" where
  "statsTick amountOf = (\<lambda>(ss, tk) st.
     case tk of
       FollowerTick flt \<Rightarrow> snd (RefreshFollowers flt (ss_dead ss) (ss_tables ss) st)
     | HourlyTick flt \<Rightarrow> refreshAll flt amountOf (ss_calendar ss) (ss_dead ss) (ss_tables ss) st)"

definition Run :: "(string \<Rightarrow> nat) \<Rightarrow> server_state \<times> refresh_faults \<Rightarrow> (server_state \<times> stats_tick) list \<Rightarrow>
    service \<times> stats_db \<Rightarrow> service \<times> stats_db" where
  "Run amountOf start ticks st =
     fold (statsTick amountOf) ticks (statsTick amountOf (fst start, HourlyTick (snd start)) st)"

subsection \<open>Queries\<close>

text \<open>The rows of a result set are read one by one. \<open>more\<close> is how many arrive before \<open>rows.Next\<close>
  returns false: the end of the result, or a failure of the stream, which the code does not ask
  for afterwards. A scan may fail at a row.\<close>

record query_faults =
  qf_query :: "string option"
  qf_more :: nat
  qf_scan :: "nat \<Rightarrow> string option"

definition readRows :: "query_faults \<Rightarrow> 'r list \<Rightarrow> string + 'r list" where
  "readRows q rows =
     (case qf_query q of
        Some e \<Rightarrow> Inl e
      | None \<Rightarrow>
          (let got = take (qf_more q) rows in
           case find (\<lambda>i. qf_scan q i \<noteq> None) [0..<length got] of
             Some i \<Rightarrow> Inl (the (qf_scan q i))
           | None \<Rightarrow> Inr got))"

definition Engagement :: "query_faults \<Rightarrow> string \<Rightarrow> stats_db \<Rightarrow> string + (string \<rightharpoonup> nat)" where
  "Engagement q noteID sd =
     (case readRows q (groupBy mr_metric
         (\<lambda>m rs. (m, sum_list (map mr_count rs), sum_list (map mr_sats rs)))
         (filter (\<lambda>r. mr_note r = noteID) (sd_monthly sd))) of
        Inl e \<Rightarrow> Inl e
      | Inr rows \<Rightarrow>
          Inr (fold (\<lambda>(m, c, ss) out. out(m \<mapsto> c, (m @ ''_sats'') \<mapsto> ss)) rows Map.empty))"

definition Daily :: "query_faults \<Rightarrow> calendar \<Rightarrow> int \<Rightarrow> stats_db \<Rightarrow> string + daily_row list" where
  "Daily q cal days sd =
     readRows q (sort_key (\<lambda>r. (- dr_day r, dr_metric r))
       (groupBy (\<lambda>r. (dr_day r, dr_metric r))
         (\<lambda>(d, m) rs. \<lparr>dr_day = d, dr_metric = m, dr_value = sum_list (map dr_value rs)\<rparr>)
         (filter (\<lambda>r. dr_day r \<ge> cal_today cal - toInt32 days) (sd_daily sd))))"

definition DAU :: "query_faults \<Rightarrow> (string set \<Rightarrow> nat) \<Rightarrow> calendar \<Rightarrow> int \<Rightarrow> stats_db \<Rightarrow> string + (int \<times> nat) list" where
  "DAU q uniq cal days sd =
     readRows q (sort_key (\<lambda>r. - fst r)
       (groupBy ar_day (\<lambda>d rs. (d, uniq (\<Union>r \<in> set rs. ar_authors r)))
         (filter (\<lambda>r. ar_day r \<ge> cal_today cal - toInt32 days) (sd_active sd))))"

section \<open>Rollups as an interface\<close>

text \<open>A rollup recomputes a window: what it inserts lies in the window it deleted. Then a refresh
  never touches a row outside the window, and a successful one leaves exactly the new rows in it,
  whatever earlier failures left there.\<close>

locale rolling_rollup =
  fixes inWindow :: "'r \<Rightarrow> bool"
    and fresh :: "'r list"
  assumes fresh_in_window: "r \<in> set fresh \<Longrightarrow> inWindow r"
begin

lemma outside_kept:
  "filter (\<lambda>r. \<not> inWindow r) (snd (rollup del ins inWindow fresh table)) = filter (\<lambda>r. \<not> inWindow r) table"
proof -
  have "filter (\<lambda>r. \<not> inWindow r) (take n fresh) = []" for n
    using fresh_in_window in_set_takeD by (fastforce simp: filter_empty_conv)
  moreover have "filter (\<lambda>r. \<not> inWindow r) fresh = []" using fresh_in_window by (auto simp: filter_empty_conv)
  ultimately show ?thesis by (cases del; cases ins) (simp_all add: rollup_def)
qed

lemma success_exact:
  assumes "rollup del ins inWindow fresh table = (None, table')"
  shows "filter inWindow table' = fresh"
proof -
  have "filter inWindow fresh = fresh" using fresh_in_window by (simp add: filter_id_conv)
  moreover have "filter inWindow (filter (\<lambda>r. \<not> inWindow r) table) = []" by (simp add: filter_empty_conv)
  ultimately show ?thesis using assms by (cases del; cases ins) (auto simp: rollup_def)
qed

end

section \<open>Calendars\<close>

text \<open>What the windows rely on: a timestamp is on or after the first second of a day (month) exactly
  when its day (month) is that one or later.\<close>

locale server_calendar =
  fixes cal :: calendar
  assumes day_start: "0 \<le> c \<Longrightarrow> cal_dayStart cal d \<le> c \<longleftrightarrow> d \<le> cal_dayOf cal c"
    and month_start: "0 \<le> c \<Longrightarrow> cal_monthStart cal m \<le> c \<longleftrightarrow> m \<le> cal_monthOf cal c"

text \<open>The Gregorian calendar in UTC: days and months are counted from January 1970. \<open>monthDay\<close> is the
  day a month starts on; years run from March, so that the leap day comes last.\<close>

definition civilDay :: "int \<Rightarrow> int \<Rightarrow> int" where
  "civilDay y mp = 365 * y + y div 4 - y div 100 + y div 400 + (153 * mp + 2) div 5 - 719468"

definition monthDay :: "int \<Rightarrow> int" where
  "monthDay m = civilDay ((m + 10) div 12 + 1969) ((m + 10) mod 12)"

definition monthStart :: "int \<Rightarrow> int" where "monthStart m = monthDay m * 86400"

lemma div_step: "0 < k \<Longrightarrow> 0 \<le> (y + 1) div k - y div k \<and> (y + 1) div k - y div k \<le> 1" for y k :: int
proof -
  assume k: "0 < k"
  have "y div k \<le> (y + 1) div k" using k by (simp add: zdiv_mono1)
  moreover have "(y + 1) div k \<le> (y + k) div k" using k by (simp add: zdiv_mono1)
  moreover have "(y + k) div k = y div k + 1" using k div_add_self2[of k y] by simp
  ultimately show ?thesis by linarith
qed

lemma leap_days:
  fixes a b c :: int
  assumes "0 \<le> a \<and> a \<le> 1" "0 \<le> b \<and> b \<le> 1" "0 \<le> c \<and> c \<le> 1"
  shows "27 \<le> 28 + a - b + c \<and> 28 + a - b + c \<le> 31"
  using assms by linarith

lemma monthDay_next: "27 \<le> monthDay (m + 1) - monthDay m \<and> monthDay (m + 1) - monthDay m \<le> 31"
proof -
  define y where "y = (m + 10) div 12 + 1969"
  define mp where "mp = (m + 10) mod 12"
  have mp: "0 \<le> mp" "mp < 12" by (simp_all add: mp_def)
  have m: "m + 10 = 12 * (y - 1969) + mp" by (simp add: y_def mp_def)
  have this_month: "monthDay m = civilDay y mp" by (simp add: monthDay_def y_def mp_def)
  show ?thesis
  proof (cases "mp = 11")
    case True
    have n: "m + 1 + 10 = 12 * (y - 1968)" using m True by simp
    have "(m + 1 + 10) div 12 + 1969 = y + 1" "(m + 1 + 10) mod 12 = 0" unfolding n by simp_all
    then have "monthDay (m + 1) = civilDay (y + 1) 0" by (simp only: monthDay_def)
    then have "monthDay (m + 1) - monthDay m =
        28 + ((y + 1) div 4 - y div 4) - ((y + 1) div 100 - y div 100) + ((y + 1) div 400 - y div 400)"
      unfolding this_month True by (simp add: civilDay_def)
    then show ?thesis using leap_days[of "(y + 1) div 4 - y div 4" "(y + 1) div 100 - y div 100" "(y + 1) div 400 - y div 400"]
        div_step[of 4 y] div_step[of 100 y] div_step[of 400 y] by (simp only: zero_less_numeral)
  next
    case False
    have n: "m + 1 + 10 = mp + 1 + 12 * (y - 1969)" using m by simp
    have "(m + 1 + 10) mod 12 = (mp + 1) mod 12" "(m + 1 + 10) div 12 = (mp + 1) div 12 + (y - 1969)"
      unfolding n by (rule mod_mult_self2) (simp only: div_mult_self2 zero_neq_numeral not_False_eq_True)
    then have "(m + 1 + 10) div 12 + 1969 = y" "(m + 1 + 10) mod 12 = mp + 1" using mp False by simp_all
    then have "monthDay (m + 1) = civilDay y (mp + 1)" by (simp only: monthDay_def)
    then have "monthDay (m + 1) - monthDay m = (153 * (mp + 1) + 2) div 5 - (153 * mp + 2) div 5"
      using this_month by (simp add: civilDay_def)
    moreover have "list_all (\<lambda>k :: int. 27 \<le> (153 * (k + 1) + 2) div 5 - (153 * k + 2) div 5 \<and>
        (153 * (k + 1) + 2) div 5 - (153 * k + 2) div 5 \<le> 31) [0..10]" by code_simp
    moreover have "mp \<in> set [0..10]" using mp False by simp
    ultimately show ?thesis unfolding list_all_iff by fastforce
  qed
qed

lemma monthStart_next: "monthStart m < monthStart (m + 1)" "monthStart (m + 1) \<le> monthStart m + 31 * 86400"
  using monthDay_next[of m] by (simp_all add: monthStart_def)

lemma monthStart_mono: "m < n \<Longrightarrow> monthStart m < monthStart n"
proof (induction n rule: int_gr_induct)
  case base
  show ?case by (rule monthStart_next)
next
  case (step i)
  then show ?case using monthStart_next(1)[of i] by simp
qed

text \<open>The month of a timestamp: the last one that has started.\<close>

function monthFrom :: "int \<Rightarrow> int \<Rightarrow> int" where
  "monthFrom m c = (if monthStart (m + 1) \<le> c then monthFrom (m + 1) c else m)"
  by pat_completeness auto
termination
proof (relation "measure (\<lambda>(m, c). nat (c - monthStart m))", goal_cases)
  case (2 m c)
  then show ?case using monthStart_next(1)[of m] by simp
qed simp

declare monthFrom.simps [simp del]

definition monthOf :: "int \<Rightarrow> int" where "monthOf c = monthFrom 0 c"

lemma monthFrom_bounds:
  "monthStart m \<le> c \<Longrightarrow> monthStart (monthFrom m c) \<le> c \<and> c < monthStart (monthFrom m c + 1)"
proof (induction m c rule: monthFrom.induct)
  case (1 m c)
  then show ?case by (cases "monthStart (m + 1) \<le> c") (simp_all add: monthFrom.simps[of m c])
qed

definition utc :: "int \<Rightarrow> calendar" where
  "utc now = \<lparr>cal_dayOf = (\<lambda>c. c div 86400), cal_monthOf = monthOf, cal_dayStart = (\<lambda>d. d * 86400),
     cal_monthStart = monthStart, cal_today = now div 86400, cal_prevMonth = monthOf now - 1\<rparr>"

interpretation utc_time: server_calendar "utc now" for now
proof
  fix c d :: int
  assume "0 \<le> c"
  have "d * 86400 \<le> c \<longleftrightarrow> d \<le> c div 86400" 
    using div_mult_mod_eq[of c 86400] pos_mod_sign[of 86400 c] pos_mod_bound[of 86400 c] by linarith
  then show "cal_dayStart (utc now) d \<le> c \<longleftrightarrow> d \<le> cal_dayOf (utc now) c" by (simp add: utc_def)
next
  fix c m :: int
  assume "0 \<le> c"
  moreover have "monthStart 0 = 0" by (simp add: monthStart_def monthDay_def civilDay_def)
  ultimately have b: "monthStart (monthOf c) \<le> c" "c < monthStart (monthOf c + 1)"
    using monthFrom_bounds[of 0 c] by (simp_all add: monthOf_def)
  have "monthStart m \<le> c" if "m \<le> monthOf c" using monthStart_mono[of m "monthOf c"] b(1) that by (cases "m = monthOf c") auto
  moreover have "\<not> monthStart m \<le> c" if "monthOf c < m"
    using monthStart_mono[of "monthOf c + 1" m] b(2) that by (cases "m = monthOf c + 1") auto
  ultimately show "cal_monthStart (utc now) m \<le> c \<longleftrightarrow> m \<le> cal_monthOf (utc now) c" unfolding utc_def by (simp, linarith)
qed

section \<open>Lemmas\<close>

lemma countDistinct_card: "countDistinct xs = card (set xs)"
  by (simp add: countDistinct_def length_remdups_card_conv)

lemma groupBy_set: "r \<in> set (groupBy key mk xs) \<longleftrightarrow> (\<exists>x \<in> set xs. r = mk (key x) (filter (\<lambda>y. key y = key x) xs))"
  by (auto simp: groupBy_def)

text \<open>A group that records its key is found by it, and only once.\<close>

lemma groupBy_filter:
  assumes "\<And>k ys. key' (mk k ys) = k"
  shows "filter (\<lambda>r. key' r = k) (groupBy key mk xs) =
    (if k \<in> key ` set xs then [mk k (filter (\<lambda>x. key x = k) xs)] else [])"
proof -
  have "filter (\<lambda>r. key' r = k) (groupBy key mk xs) =
      map (\<lambda>j. mk j (filter (\<lambda>x. key x = j) xs)) (filter (\<lambda>j. j = k) (remdups (map key xs)))"
    unfolding groupBy_def filter_map comp_def assms by simp
  moreover have "filter (\<lambda>j. j = k) (remdups zs) = (if k \<in> set zs then [k] else [])" for zs
    by (induction zs) auto
  ultimately show ?thesis by simp
qed

lemma groupBy_map_of:
  fixes key :: "'x \<Rightarrow> 'k" and v :: "'k \<Rightarrow> 'x list \<Rightarrow> 'v"
  shows "map_of (groupBy key (\<lambda>k ys. (k, v k ys)) xs) p =
    (if p \<in> key ` set xs then Some (v p (filter (\<lambda>x. key x = p) xs)) else None)"
proof -
  have "map_of (map (\<lambda>k. (k, f k)) ks) p = (if p \<in> set ks then Some (f p) else None)" for ks and f :: "'k \<Rightarrow> 'v"
    by (induction ks) auto
  then show ?thesis by (simp add: groupBy_def)
qed

lemma daily_in_window:
  assumes "server_calendar cal" "r \<in> set (dailyRows cal dead tables)"
  shows "dr_day r \<ge> cal_today cal - 3"
proof -
  obtain x where x: "createdAt x \<ge> cal_dayStart cal (cal_today cal - 3)" "dr_day r = cal_dayOf cal (createdAt x)"
    using assms(2) unfolding dailyRows_def groupBy_set by auto
  moreover have "0 \<le> createdAt x" by (simp add: createdAt_def)
  ultimately show ?thesis using server_calendar.day_start[OF assms(1)] by simp
qed

lemma active_in_window:
  assumes "server_calendar cal" "r \<in> set (activeRows cal dead tables)"
  shows "ar_day r \<ge> cal_today cal - 3"
proof -
  obtain x where x: "createdAt x \<ge> cal_dayStart cal (cal_today cal - 3)" "ar_day r = cal_dayOf cal (createdAt x)"
    using assms(2) unfolding activeRows_def groupBy_set by auto
  moreover have "0 \<le> createdAt x" by (simp add: createdAt_def)
  ultimately show ?thesis using server_calendar.day_start[OF assms(1)] by simp
qed

lemma monthly_in_window:
  assumes "server_calendar cal" "r \<in> set (monthlyRows amountOf cal dead tables)"
  shows "mr_month r \<ge> cal_prevMonth cal"
proof -
  have "\<exists>x. createdAt x \<ge> cal_monthStart cal (cal_prevMonth cal) \<and> co_month c = cal_monthOf cal (createdAt x)"
    if "c \<in> set (responses cal dead rows) \<union> set (zaps amountOf cal dead rows)" for c rows
    using that first_by_subset[of r_id] by (fastforce simp: responses_def zaps_def)
  then obtain x where "createdAt x \<ge> cal_monthStart cal (cal_prevMonth cal)" "mr_month r = cal_monthOf cal (createdAt x)"
    using assms(2) unfolding monthlyRows_def groupBy_set by fastforce
  moreover have "0 \<le> createdAt x" by (simp add: createdAt_def)
  ultimately show ?thesis using server_calendar.month_start[OF assms(1)] by simp
qed

sublocale server_calendar \<subseteq> daily: rolling_rollup "\<lambda>r. dr_day r \<ge> cal_today cal - 3" "dailyRows cal dead tables"
  for dead tables
  by unfold_locales (rule daily_in_window[OF server_calendar_axioms])

sublocale server_calendar \<subseteq> active: rolling_rollup "\<lambda>r. ar_day r \<ge> cal_today cal - 3" "activeRows cal dead tables"
  for dead tables
  by unfold_locales (rule active_in_window[OF server_calendar_axioms])

sublocale server_calendar \<subseteq> monthly: rolling_rollup "\<lambda>r. mr_month r \<ge> cal_prevMonth cal" "monthlyRows amountOf cal dead tables"
  for amountOf dead tables
  by unfold_locales (rule monthly_in_window[OF server_calendar_axioms])

text \<open>The contact list of an author: the newest live kind-3 row, the smallest id among equals.\<close>

definition contactList :: "(string \<Rightarrow> bool) \<Rightarrow> tables \<Rightarrow> string \<Rightarrow> row \<Rightarrow> bool" where
  "contactList dead tables a r \<longleftrightarrow>
     (let live = {x \<in> set (finalRows (tables ''events_permanent'')). kindOf x = 3 \<and> \<not> dead (r_id x) \<and> r_pubkey x = a} in
      r \<in> live \<and> (\<forall>x \<in> live. rowKey r \<le> rowKey x))"

lemma contactLists_set: "r \<in> set (contactLists dead tables) \<longleftrightarrow> contactList dead tables (r_pubkey r) r"
proof -
  define live where "live = filter (\<lambda>r. kindOf r = 3 \<and> \<not> dead (r_id r)) (finalRows (tables ''events_permanent''))"
  let ?xs = "sort_key rowKey live"
  have eq: "contactLists dead tables = first_by r_pubkey ?xs" by (simp add: contactLists_def live_def)
  have keys: "x = y" if "x \<in> set live" "y \<in> set live" "r_pubkey x = r_pubkey y" "rowKey x = rowKey y" for x y
  proof -
    have "distinct (map sortingKey (finalRows (tables ''events_permanent'')))" by (simp add: finalRows_def first_by_distinct)
    moreover have "r_kind x = r_kind y" "r_created_at x = r_created_at y"
      using that by (auto simp: live_def kindOf_def rowKey_def word_uint_eq_iff)
    ultimately show ?thesis using that by (auto simp: live_def distinct_map inj_on_def sortingKey_def rowKey_def)
  qed
  have sorted: "sorted_wrt (\<lambda>x y. rowKey x \<le> rowKey y) ?xs" by (metis sorted_map sorted_sort_key)
  have least: "\<exists>y \<in> set (first_by r_pubkey ?xs). r_pubkey y = r_pubkey x \<and> rowKey y \<le> rowKey x" if "x \<in> set live" for x
    using first_by_least[OF sorted, of x r_pubkey] that by simp
  have sub: "set (first_by r_pubkey ?xs) \<subseteq> set live" using first_by_subset[of r_pubkey ?xs] by simp
  have one: "x = y" if "x \<in> set (first_by r_pubkey ?xs)" "y \<in> set (first_by r_pubkey ?xs)" "r_pubkey x = r_pubkey y" for x y
    using first_by_distinct[of r_pubkey ?xs] that by (auto simp: distinct_map inj_on_def)
  have spec: "contactList dead tables a r \<longleftrightarrow> r \<in> set live \<and> r_pubkey r = a \<and>
      (\<forall>x \<in> set live. r_pubkey x = a \<longrightarrow> rowKey r \<le> rowKey x)" for a
    by (auto simp: contactList_def live_def Let_def)
  show ?thesis unfolding eq spec
  proof
    assume r: "r \<in> set (first_by r_pubkey ?xs)"
    have "rowKey r \<le> rowKey x" if "x \<in> set live" "r_pubkey x = r_pubkey r" for x
      using least[OF that(1)] one[OF r] that(2) by fastforce
    then show "r \<in> set live \<and> r_pubkey r = r_pubkey r \<and> (\<forall>x \<in> set live. r_pubkey x = r_pubkey r \<longrightarrow> rowKey r \<le> rowKey x)"
      using r sub by blast
  next
    assume r: "r \<in> set live \<and> r_pubkey r = r_pubkey r \<and> (\<forall>x \<in> set live. r_pubkey x = r_pubkey r \<longrightarrow> rowKey r \<le> rowKey x)"
    then obtain y where y: "y \<in> set (first_by r_pubkey ?xs)" "r_pubkey y = r_pubkey r" "rowKey y \<le> rowKey r"
      using least[of r] by blast
    have "rowKey y = rowKey r" using r y sub by (metis antisym subset_iff)
    then have "y = r" using keys[of y r] r y sub by blast
    then show "r \<in> set (first_by r_pubkey ?xs)" using y(1) by simp
  qed
qed

lemma followerRows_count:
  "map_of (followerRows dead tables) p =
     (let n = card {a. \<exists>r. contactList dead tables a r \<and> p \<in> set (tag_p r)} in if n = 0 then None else Some n)"
proof -
  let ?pairs = "concat (map (\<lambda>r. map (\<lambda>p. (r_pubkey r, p)) (tag_p r)) (contactLists dead tables))"
  let ?A = "{a. \<exists>r. contactList dead tables a r \<and> p \<in> set (tag_p r)}"
  have key: "contactList dead tables a r \<Longrightarrow> r_pubkey r = a" for a r by (simp add: contactList_def Let_def)
  have A: "?A = fst ` set (filter (\<lambda>x. snd x = p) ?pairs)"
  proof (intro set_eqI iffI)
    fix a
    assume "a \<in> ?A"
    then obtain r where "contactList dead tables a r" "p \<in> set (tag_p r)" by blast
    with key[of a r] have "(a, p) \<in> set ?pairs" using contactLists_set[of r dead tables] by auto
    then have "(a, p) \<in> set (filter (\<lambda>x. snd x = p) ?pairs)" by simp
    then show "a \<in> fst ` set (filter (\<lambda>x. snd x = p) ?pairs)" by force
  next
    fix a
    assume "a \<in> fst ` set (filter (\<lambda>x. snd x = p) ?pairs)"
    then obtain r where "r \<in> set (contactLists dead tables)" "p \<in> set (tag_p r)" "r_pubkey r = a" by auto
    then show "a \<in> ?A" using contactLists_set[of r dead tables] by auto
  qed
  have count: "countDistinct (map fst (filter (\<lambda>x. snd x = p) ?pairs)) = card ?A"
    unfolding A countDistinct_card by simp
  have mem: "p \<in> snd ` set ?pairs \<longleftrightarrow> card ?A \<noteq> 0"
  proof -
    have "p \<in> snd ` set ?pairs \<longleftrightarrow> ?A \<noteq> {}" unfolding A by force
    moreover have "finite ?A" unfolding A by simp
    ultimately show ?thesis by simp
  qed
  show ?thesis unfolding followerRows_def groupBy_map_of mem count Let_def by simp
qed

section \<open>Properties\<close>

lemma RefreshFollowers_snapshot:
  assumes "RefreshFollowers flt dead tables (sv, sd) = (err, sv', sd')"
  shows "sd_followers sd' = sd_followers sd \<or> sd_followers sd' = followerRows dead tables"
  using assms by (cases "ff_truncate flt"; cases "ff_insert flt"; cases "ff_exchange flt")
    (auto simp: RefreshFollowers_def split: prod.splits option.splits if_splits)

lemma rollups_keep_followers:
  "sd_followers (snd (RefreshNoteMonthly del ins amountOf cal dead tables sd)) = sd_followers sd"
  "sd_followers (snd (RefreshDaily del ins cal dead tables sd)) = sd_followers sd"
  "sd_followers (snd (RefreshDailyActive del ins cal dead tables sd)) = sd_followers sd"
  by (simp_all add: RefreshNoteMonthly_def RefreshDaily_def RefreshDailyActive_def split: prod.splits)

lemma statsTick_snapshot:
  "sd_followers (snd (statsTick amountOf (ss, tk) st)) \<in>
     {sd_followers (snd st), followerRows (ss_dead ss) (ss_tables ss)}"
proof (cases tk)
  case (FollowerTick flt)
  obtain err sv sd where r: "RefreshFollowers flt (ss_dead ss) (ss_tables ss) (fst st, snd st) = (err, sv, sd)" by (metis prod_cases3)
  then show ?thesis using RefreshFollowers_snapshot[OF r] FollowerTick by (auto simp: statsTick_def)
next
  case (HourlyTick flt)
  obtain err sv sd where r: "RefreshFollowers (rf_followers flt) (ss_dead ss) (ss_tables ss) (fst st, snd st) = (err, sv, sd)"
    by (metis prod_cases3)
  then show ?thesis using RefreshFollowers_snapshot[OF r] HourlyTick
    by (auto simp: statsTick_def refreshAll_def Let_def rollups_keep_followers)
qed

text \<open>Readers of the follower counts never see a partial snapshot: whatever fails in whichever job,
  after any run the table is the one before the run or the exact result at one of the ticks.\<close>

lemma ticks_snapshot:
  "sd_followers (snd (fold (statsTick amountOf) ticks st)) \<in>
     insert (sd_followers (snd st)) ((\<lambda>(ss, tk). followerRows (ss_dead ss) (ss_tables ss)) ` set ticks)"
proof (induction ticks arbitrary: st)
  case (Cons t ticks)
  obtain ss tk where t: "t = (ss, tk)" by (cases t)
  show ?case using Cons.IH[of "statsTick amountOf t st"] statsTick_snapshot[of amountOf ss tk st] t by auto
qed simp

theorem followers_always_a_snapshot:
  "sd_followers (snd (Run amountOf start ticks st)) \<in>
     insert (sd_followers (snd st)) ((\<lambda>ss. followerRows (ss_dead ss) (ss_tables ss)) ` (insert (fst start) (fst ` set ticks)))"
  using ticks_snapshot[of amountOf ticks "statsTick amountOf (fst start, HourlyTick (snd start)) st"]
    statsTick_snapshot[of amountOf "fst start" "HourlyTick (snd start)" st]
  by (auto simp: Run_def image_image case_prod_unfold)

text \<open>C36. Follower counts are a consistent snapshot: whatever fails during a refresh, readers see the
  old counts or the complete new ones; and after a refresh without an error the count of every
  pubkey is the number of authors whose newest live contact list, ties broken by id, names it.\<close>

theorem follower_snapshot_exact:
  assumes "RefreshFollowers flt dead tables (sv, sd) = (err, sv', sd')"
  shows "(sd_followers sd' = sd_followers sd \<or> sd_followers sd' = followerRows dead tables) \<and>
    (err = None \<longrightarrow> Followers None p sd' =
      Inr (card {a. \<exists>r. contactList dead tables a r \<and> p \<in> set (tag_p r)}))"
proof (intro conjI impI)
  show "sd_followers sd' = sd_followers sd \<or> sd_followers sd' = followerRows dead tables"
    by (rule RefreshFollowers_snapshot[OF assms])
  assume "err = None"
  then have "sd_followers sd' = followerRows dead tables"
    using assms by (cases "ff_truncate flt"; cases "ff_insert flt"; cases "ff_exchange flt")
      (auto simp: RefreshFollowers_def split: prod.splits option.splits if_splits)
  then show "Followers None p sd' = Inr (card {a. \<exists>r. contactList dead tables a r \<and> p \<in> set (tag_p r)})"
    by (simp add: Followers_def followerRows_count Let_def)
qed


definition contacts :: "string \<Rightarrow> string \<Rightarrow> int \<Rightarrow> string list \<Rightarrow> event" where
  "contacts i a t ps = \<lparr>ev_id = i, ev_pubkey = a, ev_created_at = t, ev_kind = 3,
     ev_tags = Some (map (\<lambda>p. Some [''p'', p]) ps), ev_content = [], ev_sig = []\<rparr>"

definition follow_tables :: tables where
  "follow_tables t = (if t = ''events_permanent''
     then map rowFromEvent [contacts ''i1'' ''ann'' 100 [''bob'', ''eve''], contacts ''i2'' ''ann'' 200 [''bob''],
       contacts ''i3'' ''cat'' 150 [''bob'', ''bob'']] else [])"

definition no_faults :: follower_faults where
  "no_faults = \<lparr>ff_engine = Inr ''Atomic'', ff_truncate = ExecOK, ff_insert = InsertOK, ff_exchange = ExecOK\<rparr>"

definition empty_stats :: stats_db where
  "empty_stats = \<lparr>sd_followers = [], sd_staging = [], sd_monthly = [], sd_daily = [], sd_active = []\<rparr>"

theorem follower_snapshot_exact_witness:
  "\<exists>sv sd. RefreshFollowers no_faults (\<lambda>_. False) follow_tables (newService, empty_stats) = (None, sv, sd) \<and>
     Followers None ''bob'' sd = Inr 2 \<and>
     card {a. \<exists>r. contactList (\<lambda>_. False) follow_tables a r \<and> ''bob'' \<in> set (tag_p r)} = 2"
proof -
  let ?r = "RefreshFollowers no_faults (\<lambda>_. False) follow_tables (newService, empty_stats)"
  have "fst ?r = None" "Followers None ''bob'' (snd (snd ?r)) = Inr 2" by code_simp+
  moreover obtain sv sd where r: "?r = (None, sv, sd)" using calculation(1) by (metis prod.collapse)
  ultimately show ?thesis using follower_snapshot_exact[OF r, of "''bob''"] by auto
qed

text \<open>The rollups in terms of the refresh calls.\<close>

context server_calendar
begin

lemma daily_outside:
  assumes "RefreshDaily del ins cal dead tables sd = (err, sd')"
  shows "filter (\<lambda>r. dr_day r < cal_today cal - 3) (sd_daily sd') = filter (\<lambda>r. dr_day r < cal_today cal - 3) (sd_daily sd)"
  using assms daily.outside_kept[of del ins dead tables "sd_daily sd"]
  by (auto simp: RefreshDaily_def not_le split: prod.splits)

lemma daily_inside:
  assumes "RefreshDaily del ins cal dead tables sd = (None, sd')"
  shows "filter (\<lambda>r. dr_day r \<ge> cal_today cal - 3) (sd_daily sd') = dailyRows cal dead tables"
  using assms daily.success_exact[of del ins dead tables "sd_daily sd"] by (auto simp: RefreshDaily_def split: prod.splits)

lemma monthly_outside:
  assumes "RefreshNoteMonthly del ins amountOf cal dead tables sd = (err, sd')"
  shows "filter (\<lambda>r. mr_month r < cal_prevMonth cal) (sd_monthly sd') = filter (\<lambda>r. mr_month r < cal_prevMonth cal) (sd_monthly sd)"
  using assms monthly.outside_kept[of del ins amountOf dead tables "sd_monthly sd"]
  by (auto simp: RefreshNoteMonthly_def not_le split: prod.splits)

lemma monthly_inside:
  assumes "RefreshNoteMonthly del ins amountOf cal dead tables sd = (None, sd')"
  shows "filter (\<lambda>r. mr_month r \<ge> cal_prevMonth cal) (sd_monthly sd') = monthlyRows amountOf cal dead tables"
  using assms monthly.success_exact[of del ins amountOf dead tables "sd_monthly sd"]
  by (auto simp: RefreshNoteMonthly_def split: prod.splits)

lemma dailyRows_total:
  assumes "cal_today cal - 3 \<le> d" "m \<noteq> []"
  shows "sum_list (map dr_value (filter (\<lambda>r. dr_day r = d \<and> dr_metric r = m) (dailyRows cal dead tables))) =
    card {i. \<exists>r \<in> set (eventsAll tables). r_id r = i \<and> \<not> dead i \<and> cal_dayOf cal (createdAt r) = d \<and>
             dailyMetric (kindOf r) = m}"
proof -
  define xs where "xs = filter (\<lambda>(d, m, i). m \<noteq> [])
         (map (\<lambda>r. (cal_dayOf cal (createdAt r), dailyMetric (kindOf r), r_id r))
           (filter (\<lambda>r. kindOf r \<in> {1, 6, 7, 16, 9735} \<and> createdAt r \<ge> cal_dayStart cal (cal_today cal - 3) \<and>
              \<not> dead (r_id r)) (eventsAll tables)))"
  let ?I = "{i. \<exists>r \<in> set (eventsAll tables). r_id r = i \<and> \<not> dead i \<and> cal_dayOf cal (createdAt r) = d \<and>
             dailyMetric (kindOf r) = m}"
  have "filter (\<lambda>r. dr_day r = d \<and> dr_metric r = m) (dailyRows cal dead tables) =
      (if (d, m) \<in> (\<lambda>(d, m, i). (d, m)) ` set xs
       then [\<lparr>dr_day = d, dr_metric = m, dr_value = countDistinct (map (\<lambda>(d, m, i). i) (filter (\<lambda>x. (\<lambda>(d, m, i). (d, m)) x = (d, m)) xs))\<rparr>]
       else [])"
    using groupBy_filter[where key' = "\<lambda>r. (dr_day r, dr_metric r)" and k = "(d, m)" and xs = xs and key = "\<lambda>(d, m, i). (d, m)"
      and mk = "\<lambda>(d, m) xs. \<lparr>dr_day = d, dr_metric = m, dr_value = countDistinct (map (\<lambda>(d, m, i). i) xs)\<rparr>"]
    unfolding dailyRows_def xs_def by (simp split: prod.splits)
  moreover have ids: "?I = (\<lambda>(d, m, i). i) ` {x \<in> set xs. (\<lambda>(d, m, i). (d, m)) x = (d, m)}"
  proof (intro set_eqI iffI)
    fix i
    assume "i \<in> ?I"
    then obtain r where r: "r \<in> set (eventsAll tables)" "r_id r = i" "\<not> dead i" "cal_dayOf cal (createdAt r) = d" "dailyMetric (kindOf r) = m"
      by blast
    moreover have "createdAt r \<ge> cal_dayStart cal (cal_today cal - 3)"
      using assms(1) r(4) day_start[of "createdAt r"] by (simp add: createdAt_def)
    moreover have "kindOf r \<in> {1, 6, 7, 16, 9735}" using r(5) assms(2) by (auto simp: dailyMetric_def split: if_splits)
    ultimately have "(d, m, i) \<in> set xs" using assms(2) unfolding xs_def by force
    then show "i \<in> (\<lambda>(d, m, i). i) ` {x \<in> set xs. (\<lambda>(d, m, i). (d, m)) x = (d, m)}" by force
  qed (auto simp: xs_def)
  moreover have "?I = {}" if "(d, m) \<notin> (\<lambda>(d, m, i). (d, m)) ` set xs"
    unfolding ids using that by force
  ultimately show ?thesis by (auto simp: countDistinct_card)
qed

end



end
