(* ===== verification/Api.thy ===== *)
theory Api
  imports Access Rate_Limit Store Stats
begin

text \<open>
  The REST API (\<open>internal/api/api.go\<close>): the query parameters, the handlers as functions from
  what the store and the statistics answer to the HTTP reply, and the middleware every route is
  wrapped in. The JSON encoding of a reply body is not modelled: the body is the value encoded.
  A query is the list of values of every key, in order of appearance.
\<close>

type_synonym url_values = "string \<Rightarrow> string list"

datatype body =
    Text string
  | Events "event list"
  | DailyRows "daily_row list"
  | DauRows "(int \<times> nat) list"
  | EngagementMap "string \<rightharpoonup> nat"
  | FollowerCount string nat
  | Health bool nat

datatype reply = Reply nat body

record handler =
  h_limiter :: bool
  h_access :: "access option"
  h_breadth :: RejectFilterBreadth

section \<open>Definitions\<close>

subsection \<open>Parameters\<close>

definition digit :: "char \<Rightarrow> bool" where
  "digit c \<longleftrightarrow> between 48 57 c"

text \<open>\<open>strconv.Atoi\<close>: an optional sign and at least one digit, in the range of \<open>int64\<close>.\<close>

definition natVal :: "string \<Rightarrow> nat" where
  "natVal s = foldl (\<lambda>n c. n * 10 + (byte c - 48)) 0 s"

definition Atoi :: "string \<Rightarrow> int option" where
  "Atoi s =
     (let neg = (s \<noteq> [] \<and> hd s = CHR ''-'');
          ds = (if s \<noteq> [] \<and> (hd s = CHR ''-'' \<or> hd s = CHR ''+'') then tl s else s);
          v = (if neg then - int (natVal ds) else int (natVal ds)) in
      if ds = [] \<or> \<not> list_all digit ds \<or> v < - (2 ^ 63) \<or> v \<ge> 2 ^ 63 then None else Some v)"

text \<open>\<open>url.Values.Get\<close>: the first value, or the empty string.\<close>

definition qget :: "url_values \<Rightarrow> string \<Rightarrow> string" where
  "qget q key = (case q key of [] \<Rightarrow> [] | v # _ \<Rightarrow> v)"

definition queryInt :: "url_values \<Rightarrow> string \<Rightarrow> int \<Rightarrow> int" where
  "queryInt q key def =
     (let s = qget q key in
      if s = [] then def
      else case Atoi s of None \<Rightarrow> def | Some n \<Rightarrow> if n < 1 then def else n)"

definition parseInts :: "string list \<Rightarrow> int list" where
  "parseInts ss = List.map_filter Atoi ss"

definition eventsFilter :: "url_values \<Rightarrow> RejectFilterBreadth \<Rightarrow> nostr_filter" where
  "eventsFilter q breadth =
     (let ids0 = q ''id''; authors0 = q ''author'';
          ids = (if rb_MaxIDs breadth > 0 \<and> int (length ids0) > rb_MaxIDs breadth
                 then take (nat (rb_MaxIDs breadth)) ids0 else ids0);
          authors = (if rb_MaxAuthors breadth > 0 \<and> int (length authors0) > rb_MaxAuthors breadth
                     then take (nat (rb_MaxAuthors breadth)) authors0 else authors0);
          limit = (case Atoi (qget q ''limit'') of None \<Rightarrow> 100 | Some n \<Rightarrow> if n < 1 then 100 else n) in
      \<lparr>f_ids = ids, f_kinds = parseInts (q ''kind''), f_authors = authors, f_tags = [],
       f_since = None, f_until = None, f_limit = min limit 1000\<rparr>)"

subsection \<open>Handlers\<close>

definition writeErr :: "string \<Rightarrow> reply" where
  "writeErr e = Reply 500 (Text e)"

text \<open>\<open>health\<close>: whether the ping succeeds, and the row count, 0 when its query fails.\<close>

definition health :: "bool \<Rightarrow> nat option \<Rightarrow> reply" where
  "health chOK rows =
     (let events = (if chOK then (case rows of None \<Rightarrow> 0 | Some n \<Rightarrow> n) else 0) in
      Reply (if \<not> chOK then 503 else 200) (Health chOK events))"

definition daily :: "url_values \<Rightarrow> (int \<Rightarrow> string + daily_row list) \<Rightarrow> reply" where
  "daily q stats =
     (case stats (queryInt q ''days'' 30) of Inl e \<Rightarrow> writeErr e | Inr rows \<Rightarrow> Reply 200 (DailyRows rows))"

definition dau :: "url_values \<Rightarrow> (int \<Rightarrow> string + (int \<times> nat) list) \<Rightarrow> reply" where
  "dau q stats =
     (case stats (queryInt q ''days'' 30) of Inl e \<Rightarrow> writeErr e | Inr rows \<Rightarrow> Reply 200 (DauRows rows))"

text \<open>The path after the route's prefix. The mux calls the handler only for paths with that prefix.\<close>

definition noteEngagement :: "string \<Rightarrow> (string \<Rightarrow> string + (string \<rightharpoonup> nat)) \<Rightarrow> reply" where
  "noteEngagement path stats =
     (let i = drop (length ''/v1/note/'') path in
      if i = [] then Reply 400 (Text ''missing note id'')
      else case stats i of Inl e \<Rightarrow> writeErr e | Inr m \<Rightarrow> Reply 200 (EngagementMap m))"

definition followers :: "string \<Rightarrow> (string \<Rightarrow> string + nat) \<Rightarrow> reply" where
  "followers path stats =
     (let pk = drop (length ''/v1/pubkey/'') path in
      if pk = [] then Reply 400 (Text ''missing pubkey'')
      else case stats pk of Inl e \<Rightarrow> writeErr e | Inr n \<Rightarrow> Reply 200 (FollowerCount pk n))"

definition events :: "url_values \<Rightarrow> RejectFilterBreadth \<Rightarrow> (nostr_filter \<Rightarrow> string + event list) \<Rightarrow> reply" where
  "events q breadth query =
     (case query (eventsFilter q breadth) of Inl e \<Rightarrow> writeErr e | Inr es \<Rightarrow> Reply 200 (Events es))"

subsection \<open>Routes\<close>

text \<open>\<open>Register\<close>: the routes with whether they are public.\<close>

definition routes :: "(string \<times> bool) list" where
  "routes = [(''/v1/health'', True), (''/v1/stats/daily'', False), (''/v1/stats/dau'', False),
     (''/v1/note/'', False), (''/v1/pubkey/'', False), (''/v1/events'', False)]"

text \<open>One registered handler: the rate limit outside, authentication inside, then the handler.
  \<open>None\<close> is a panic of the authentication.\<close>

definition wrapped :: "handler \<Rightarrow> auth_lib \<Rightarrow> instant \<Rightarrow> string \<Rightarrow> bool \<Rightarrow> http_request \<Rightarrow> reply \<Rightarrow> limiter \<Rightarrow>
    reply option \<times> limiter" where
  "wrapped h lib now ip public r inner l =
     (let (limited, l1) = (if h_limiter h then limiterHTTP now ip l else (None, l)) in
      case limited of
        Some code \<Rightarrow> (Some (Reply code (Text ''rate limit exceeded'')), l1)
      | None \<Rightarrow>
          (case (if public then None else h_access h) of
             None \<Rightarrow> (Some inner, l1)
           | Some a \<Rightarrow>
               (case HTTPAuth lib (now div second) a r of
                  Next \<Rightarrow> (Some inner, l1)
                | Answer code msg \<Rightarrow> (Some (Reply code (Text msg)), l1)
                | HandlerPanic \<Rightarrow> (None, l1))))"

section \<open>Lemmas\<close>

text \<open>Integers as a client prints them.\<close>

definition showInt :: "int \<Rightarrow> string" where
  "showInt v = (if v < 0 then CHR ''-'' # decimalOf (nat (- v)) else decimalOf (nat v))"

lemma natVal_snoc: "natVal (s @ [c]) = natVal s * 10 + (byte c - 48)"
  by (simp add: natVal_def)

lemma digit_char: "d < 10 \<Longrightarrow> digit (char_of (48 + d)) \<and> byte (char_of (48 + d)) = 48 + d" for d :: nat
  by (simp add: digit_def between_def)

lemma decimalOf_digits: "list_all digit (decimalOf n) \<and> decimalOf n \<noteq> []"
proof (induction n rule: decimalOf.induct)
  case (1 n)
  then show ?case using digit_char[of n] digit_char[of "n mod 10"] by (cases "n < 10") (simp_all add: decimalOf.simps[of n])
qed

lemma natVal_decimalOf: "natVal (decimalOf n) = n"
proof (induction n rule: decimalOf.induct)
  case (1 n)
  show ?case
  proof (cases "n < 10")
    case True
    then show ?thesis using digit_char[of n] by (simp add: decimalOf.simps[of n] natVal_def)
  next
    case False
    then show ?thesis using 1 digit_char[of "n mod 10"] by (simp add: decimalOf.simps[of n] natVal_snoc)
  qed
qed

lemma Atoi_showInt: "- (2 ^ 63) \<le> v \<Longrightarrow> v < 2 ^ 63 \<Longrightarrow> Atoi (showInt v) = Some v"
proof -
  assume v: "- (2 ^ 63) \<le> v" "v < 2 ^ 63"
  have "\<not> digit (CHR ''-'')" "\<not> digit (CHR ''+'')" by (simp_all add: digit_def between_def)
  then have hd: "hd (decimalOf n) \<noteq> CHR ''-'' \<and> hd (decimalOf n) \<noteq> CHR ''+''" for n
    using decimalOf_digits[of n] by (cases "decimalOf n") auto
  show ?thesis
  proof (cases "v < 0")
    case True
    then show ?thesis using v decimalOf_digits[of "nat (- v)"] by (simp add: Atoi_def showInt_def natVal_decimalOf Let_def)
  next
    case False
    then show ?thesis using v hd[of "nat v"] decimalOf_digits[of "nat v"]
      by (simp add: Atoi_def showInt_def natVal_decimalOf Let_def nat_less_iff flip: not_less)
  qed
qed

lemma Atoi_range: "Atoi s = Some v \<Longrightarrow> - (2 ^ 63) \<le> v \<and> v < 2 ^ 63"
  unfolding Atoi_def Let_def by (auto split: if_splits)


section \<open>Properties\<close>

text \<open>C38. The API serves exactly whom it should: a handler's answer reaches the client iff the
  address is within the rate limit and the route is public, access control is absent, or the
  request authenticates; a request over the limit is answered 429 whatever else it carries, and
  only the health route is public.\<close>

theorem api_serves_exactly:
  "(fst (wrapped h lib now ip public r (Reply 200 b) l) = Some (Reply 200 b) \<longleftrightarrow>
      (\<not> h_limiter h \<or> fst (Allow now ip l)) \<and>
      (public \<or> h_access h = None \<or> HTTPAuth lib (now div second) (the (h_access h)) r = Next)) \<and>
   (h_limiter h \<and> \<not> fst (Allow now ip l) \<longrightarrow>
      fst (wrapped h lib now ip public r inner l) = Some (Reply 429 (Text ''rate limit exceeded''))) \<and>
   filter snd routes = [(''/v1/health'', True)]"
proof -
  have auth: "HTTPAuth lib t a r \<noteq> Answer 200 m" for t a m
    by (auto simp: HTTPAuth_def split: auth_result.splits if_splits)
  have lim: "fst (limiterHTTP now ip l) = (if fst (Allow now ip l) then None else Some 429)"
    by (simp add: limiterHTTP_def HTTPWhen_def split: prod.splits)
  have "fst (wrapped h lib now ip public r (Reply 200 b) l) = Some (Reply 200 b) \<longleftrightarrow>
      (\<not> h_limiter h \<or> fst (Allow now ip l)) \<and>
      (public \<or> h_access h = None \<or> HTTPAuth lib (now div second) (the (h_access h)) r = Next)"
    using lim auth[of "now div second"] unfolding wrapped_def
    by (auto simp: Let_def split: prod.splits option.splits http_outcome.splits if_splits)
  moreover have "fst (wrapped h lib now ip public r inner l) = Some (Reply 429 (Text ''rate limit exceeded''))"
    if "h_limiter h" "\<not> fst (Allow now ip l)"
    using that lim unfolding wrapped_def by (cases "limiterHTTP now ip l") simp
  moreover have "filter snd routes = [(''/v1/health'', True)]" by (simp add: routes_def)
  ultimately show ?thesis by blast
qed

definition demo_handler :: handler where
  "demo_handler = \<lparr>h_limiter = True, h_access = Some demo_access,
     h_breadth = \<lparr>rb_MaxIDs = 2, rb_MaxAuthors = 1000, rb_MaxKinds = 20, rb_MaxTags = 256\<rparr>\<rparr>"

theorem api_serves_exactly_witness:
  "fst (wrapped demo_handler demo_lib (1000 * second) ''a'' False demo_request (Reply 200 (Text ''ok'')) (NewLimiter 600)) =
     Some (Reply 200 (Text ''ok''))"
proof -
  have "fst (Allow (1000 * second) ''a'' (NewLimiter 600))" by (simp add: Allow_def NewLimiter_def Let_def)
  moreover have "HTTPAuth demo_lib (1000 * second div second) (the (h_access demo_handler)) demo_request = Next" by code_simp
  ultimately show ?thesis using api_serves_exactly[of demo_handler demo_lib "1000 * second" "''a''" False demo_request "Text ''ok''"
      "NewLimiter 600" "Reply 200 (Text ''ok'')"] by blast
qed

text \<open>The events endpoint asks for what the client wrote: printed kinds, ids, authors and a limit
  within the caps come back as exactly that filter, and whatever the query string holds, the
  filter's limit is between 1 and 1000 and its ids and authors are within the caps.\<close>

theorem events_filter_faithful:
  "(q ''kind'' = map showInt ks \<and> q ''limit'' = [showInt n] \<and> 1 \<le> n \<and> n \<le> 1000 \<and>
      list_all (\<lambda>k. - (2 ^ 63) \<le> k \<and> k < 2 ^ 63) ks \<and>
      int (length (q ''id'')) \<le> rb_MaxIDs b \<and> int (length (q ''author'')) \<le> rb_MaxAuthors b \<longrightarrow>
      eventsFilter q b = \<lparr>f_ids = q ''id'', f_kinds = ks, f_authors = q ''author'', f_tags = [], f_since = None,
        f_until = None, f_limit = n\<rparr>) \<and>
   1 \<le> f_limit (eventsFilter q b) \<and> f_limit (eventsFilter q b) \<le> 1000 \<and>
   (rb_MaxIDs b \<le> 0 \<or> int (length (f_ids (eventsFilter q b))) \<le> rb_MaxIDs b) \<and>
   (rb_MaxAuthors b \<le> 0 \<or> int (length (f_authors (eventsFilter q b))) \<le> rb_MaxAuthors b)"
proof -
  have kinds: "list_all (\<lambda>k. - (2 ^ 63) \<le> k \<and> k < 2 ^ 63) ks \<Longrightarrow> parseInts (map showInt ks) = ks" for ks
    unfolding parseInts_def by (induction ks) (simp_all add: List.map_filter_simps Atoi_showInt)
  have "eventsFilter q b = \<lparr>f_ids = q ''id'', f_kinds = ks, f_authors = q ''author'', f_tags = [], f_since = None,
        f_until = None, f_limit = n\<rparr>"
    if "q ''kind'' = map showInt ks" "q ''limit'' = [showInt n]" "1 \<le> n" "n \<le> 1000"
      "list_all (\<lambda>k. - (2 ^ 63) \<le> k \<and> k < 2 ^ 63) ks"
      "int (length (q ''id'')) \<le> rb_MaxIDs b" "int (length (q ''author'')) \<le> rb_MaxAuthors b"
    using that kinds[OF that(5)] Atoi_showInt[of n] by (simp add: eventsFilter_def Let_def qget_def)
  moreover have "1 \<le> f_limit (eventsFilter q b) \<and> f_limit (eventsFilter q b) \<le> 1000"
    by (simp add: eventsFilter_def Let_def split: option.splits)
  moreover have "rb_MaxIDs b \<le> 0 \<or> int (length (f_ids (eventsFilter q b))) \<le> rb_MaxIDs b"
    "rb_MaxAuthors b \<le> 0 \<or> int (length (f_authors (eventsFilter q b))) \<le> rb_MaxAuthors b"
    by (auto simp: eventsFilter_def Let_def)
  ultimately show ?thesis by blast
qed

definition demo_values :: url_values where
  "demo_values key = (if key = ''kind'' then map showInt [1, 9735] else if key = ''limit'' then [showInt 50] else [])"

theorem events_filter_faithful_witness:
  "eventsFilter demo_values (h_breadth demo_handler) =
     \<lparr>f_ids = [], f_kinds = [1, 9735], f_authors = [], f_tags = [], f_since = None, f_until = None, f_limit = 50\<rparr>"
proof -
  have "demo_values ''id'' = []" "demo_values ''author'' = []" by (simp_all add: demo_values_def)
  moreover have "demo_values ''kind'' = map showInt [1, 9735] \<and> demo_values ''limit'' = [showInt 50] \<and> 1 \<le> (50::int) \<and> (50::int) \<le> 1000 \<and>
      list_all (\<lambda>k. - (2 ^ 63) \<le> k \<and> k < 2 ^ 63) [1, 9735 :: int] \<and>
      int (length (demo_values ''id'')) \<le> rb_MaxIDs (h_breadth demo_handler) \<and>
      int (length (demo_values ''author'')) \<le> rb_MaxAuthors (h_breadth demo_handler)"
    by (simp add: demo_values_def demo_handler_def)
  ultimately show ?thesis
    using events_filter_faithful[of demo_values "[1, 9735]" 50 "h_breadth demo_handler"] by simp
qed

end
