(* ===== verification/Schema.thy ===== *)
theory Schema
  imports Store
begin

text \<open>
  The ClickHouse schema and the start of the store (\<open>internal/store/schema.go\<close>,
  \<open>feedDDL\<close> of \<open>internal/store/feed.go\<close>, \<open>ensureDatabase\<close> and \<open>Init\<close> of
  \<open>internal/store/store.go\<close>). The DDL is modelled as text, with the splitting into statements
  the code does; a run yields the statements sent, in order. How the server answers a statement
  or an introspection query is a parameter. Error texts are without Go's quoting of \<open>%q\<close>.
\<close>

section \<open>Definitions\<close>

definition lines :: "string list \<Rightarrow> string" where
  "lines ls = join [CHR 0x0A] ls"

subsection \<open>DDL texts\<close>

definition feedDays :: string where
  "feedDays = decimalOf (nat (feedRetention div hour div 24))"

definition tierColumns :: string where
  "tierColumns = ''id, pubkey, created_at, kind, content, sig, tags_raw, tags, reply_to''"

definition tagsDefaultExpr :: string where
  "tagsDefaultExpr =
     ''JSONExtract(tags_raw, 'Array(Array(String))')''"

definition tagEDefaultExpr :: string where
  "tagEDefaultExpr =
     ''arrayMap(x -> x[2], arrayFilter(x -> length(x) >= 2 AND x[1] = 'e', tags))''"

definition tagPDefaultExpr :: string where
  "tagPDefaultExpr =
     ''arrayMap(x -> x[2], arrayFilter(x -> length(x) >= 2 AND x[1] = 'p', tags))''"

definition tagTDefaultExpr :: string where
  "tagTDefaultExpr =
     ''arrayMap(x -> x[2], arrayFilter(x -> length(x) >= 2 AND x[1] = 't', tags))''"

definition tagDDefaultExpr :: string where
  "tagDDefaultExpr =
     ''arrayFirst(x -> length(x) >= 2 AND x[1] = 'd', tags)[2]''"

definition tierColumnsType :: "string" where
  "tierColumnsType = lines
     [[],
      ''  id           String,'',
      ''  pubkey       String,'',
      ''  created_at   UInt32,'',
      ''  kind         UInt32,'',
      ''  content      String,'',
      ''  sig          String,'',
      ''  tags_raw     String,'',
      ''  tags         Array(Array(String)) DEFAULT '' @ tagsDefaultExpr @ '','',
      ''  tag_e        Array(String) DEFAULT '' @ tagEDefaultExpr @ '','',
      ''  tag_p        Array(String) DEFAULT '' @ tagPDefaultExpr @ '','',
      ''  tag_t        Array(String) DEFAULT '' @ tagTDefaultExpr @ '','',
      ''  tag_d        String DEFAULT '' @ tagDDefaultExpr @ '','',
      ''  reply_to     String,'',
      ''  received_at  DateTime64(3) DEFAULT now64(3),'',
      ''  version      UInt32 MATERIALIZED created_at,'',
      ''  INDEX idx_id      id      TYPE bloom_filter(0.01) GRANULARITY 4,'',
      ''  INDEX idx_tag_e   tag_e   TYPE bloom_filter(0.01) GRANULARITY 4,'',
      ''  INDEX idx_tag_p   tag_p   TYPE bloom_filter(0.01) GRANULARITY 4,'',
      ''  INDEX idx_tag_t   tag_t   TYPE bloom_filter(0.01) GRANULARITY 4,'',
      ''  INDEX idx_pubkey pubkey TYPE bloom_filter(0.01) GRANULARITY 4'',
      []]"

definition tierDDL :: "string \<Rightarrow> string \<Rightarrow> string" where
  "tierDDL name ttlDelete =
     (let ttl = (if ttlDelete \<noteq> [] then CHR 0x0A # ''  TTL toDateTime(created_at) + INTERVAL '' @ ttlDelete @ '' DELETE'' else []) in
      lines
       [[],
        ''CREATE TABLE IF NOT EXISTS events_'' @ name @ '' ('' @ tierColumnsType,
        '') ENGINE = ReplacingMergeTree(version)'',
        ''  PARTITION BY toYYYYMM(toDateTime(created_at))'',
        ''  ORDER BY (kind, pubkey, created_at, id)'' @ ttl,
        ''  SETTINGS index_granularity = 8192;'',
        []])"

definition eventsViewDDL :: "string" where
  "eventsViewDDL = lines
     [[],
      ''CREATE OR REPLACE VIEW events_all AS'',
      ''  SELECT * FROM events_permanent'',
      ''  UNION ALL SELECT * FROM events_archive'',
      ''  UNION ALL SELECT * FROM events_social;'',
      []]"

definition tombstonesDDL :: "string" where
  "tombstonesDDL = lines
     [[],
      ''CREATE TABLE IF NOT EXISTS tombstones ('',
      ''  id         String,'',
      ''  reason     LowCardinality(String),'',
      ''  deleted_by String,'',
      ''  deleted_at DateTime64(3) DEFAULT now64(3)'',
      '') ENGINE = MergeTree ORDER BY (id, deleted_at);'',
      [],
      ''CREATE DICTIONARY IF NOT EXISTS tombstone_dict ('',
      ''  id String DEFAULT '' @ [CHR 0x27, CHR 0x27],
      '')'',
      ''PRIMARY KEY id'',
      ''SOURCE(CLICKHOUSE(TABLE 'tombstones'))'',
      ''LAYOUT(HASHED())'',
      ''LIFETIME(MIN 0 MAX 60);'',
      []]"

definition snapshotsDDL :: "string" where
  "snapshotsDDL = lines
     [[],
      ''CREATE TABLE IF NOT EXISTS stats_note_monthly ('',
      ''  note_id String,'',
      ''  month   Date,'',
      ''  metric  LowCardinality(String),'',
      ''  count   UInt64,'',
      ''  sats    UInt64'',
      '') ENGINE = SummingMergeTree'',
      ''  PARTITION BY toYYYYMM(month)'',
      ''  ORDER BY (note_id, month, metric);'',
      [],
      ''CREATE TABLE IF NOT EXISTS stats_daily ('',
      ''  day    Date,'',
      ''  metric LowCardinality(String),'',
      ''  value  UInt64'',
      '') ENGINE = SummingMergeTree'',
      ''  PARTITION BY toYYYYMM(day)'',
      ''  ORDER BY (day, metric);'',
      [],
      ''CREATE TABLE IF NOT EXISTS stats_daily_active ('',
      ''  day     Date,'',
      ''  authors AggregateFunction(uniq, String)'',
      '') ENGINE = AggregatingMergeTree ORDER BY day;'',
      [],
      ''CREATE TABLE IF NOT EXISTS author_follower_counts ('',
      ''  pubkey    String,'',
      ''  followers UInt64'',
      '') ENGINE = MergeTree ORDER BY pubkey;'',
      [],
      ''-- Staging twin for the followers swap: refresh builds into staging, then'',
      ''-- EXCHANGE TABLES swaps atomically (P3 F13). Truncated before each build.'',
      ''CREATE TABLE IF NOT EXISTS author_follower_counts_staging ('',
      ''  pubkey    String,'',
      ''  followers UInt64'',
      '') ENGINE = MergeTree ORDER BY pubkey;'',
      []]"

definition tierColumnsTypeNoIndexes :: "string" where
  "tierColumnsTypeNoIndexes = lines
     [[],
      ''  id           String,'',
      ''  pubkey       String,'',
      ''  created_at   UInt32,'',
      ''  kind         UInt32,'',
      ''  content      String,'',
      ''  sig          String,'',
      ''  tags_raw     String,'',
      ''  tags         Array(Array(String)),'',
      ''  tag_e        Array(String) DEFAULT '' @ tagEDefaultExpr @ '','',
      ''  tag_p        Array(String) DEFAULT '' @ tagPDefaultExpr @ '','',
      ''  tag_t        Array(String) DEFAULT '' @ tagTDefaultExpr @ '','',
      ''  tag_d        String DEFAULT '' @ tagDDefaultExpr @ '','',
      ''  reply_to     String,'',
      ''  received_at  DateTime64(3) DEFAULT now64(3)'']"

definition feedDDL :: "string" where
  "feedDDL = lines
     [[],
      ''CREATE TABLE IF NOT EXISTS events_feed ('' @ tierColumnsTypeNoIndexes,
      '') ENGINE = MergeTree'',
      ''  PARTITION BY toYYYYMMDD(toDateTime(created_at))'',
      ''  ORDER BY (created_at, id)'',
      ''  TTL toDateTime(created_at) + INTERVAL '' @ feedDays @ '' DAY DELETE'',
      ''  SETTINGS index_granularity = 8192;'',
      []]"

subsection \<open>Executing statements\<close>

record schema_io =
  io_exec :: "string \<Rightarrow> string option"
  io_haveIdx :: "string \<Rightarrow> string + nat"
  io_matTotal :: "string \<Rightarrow> string + nat"
  io_probe :: "string option"

definition truncateText :: "string \<Rightarrow> nat \<Rightarrow> string" where
  "truncateText s n = (if length s \<le> n then s else take n s @ [CHR 0xE2, CHR 0x80, CHR 0xA6])"

text \<open>The statements of a blob: its non-empty parts between semicolons.\<close>

definition statements :: "string \<Rightarrow> string list" where
  "statements q = filter (\<lambda>p. p \<noteq> []) (map trimSpace (splitOn (CHR '';'') q))"

text \<open>A step sends statements and may fail; the log collects what was sent.\<close>

type_synonym schema_step = "string list \<Rightarrow> string option \<times> string list"

fun execList :: "string \<Rightarrow> (string \<Rightarrow> string option) \<Rightarrow> string list \<Rightarrow> schema_step" where
  "execList what exec [] log = (None, log)"
| "execList what exec (s # ss) log =
     (case exec s of
        Some e \<Rightarrow> (Some (what @ '' failed on '' @ truncateText s 80 @ '': '' @ e), log @ [s])
      | None \<Rightarrow> execList what exec ss (log @ [s]))"

definition execParts :: "schema_io \<Rightarrow> string \<Rightarrow> schema_step" where
  "execParts io q = execList ''schema init'' (io_exec io) (statements q)"

fun runSteps :: "schema_step list \<Rightarrow> schema_step" where
  "runSteps [] log = (None, log)"
| "runSteps (st # sts) log = (case st log of (Some e, log1) \<Rightarrow> (Some e, log1) | (None, log1) \<Rightarrow> runSteps sts log1)"

definition alters :: "string \<Rightarrow> string list" where
  "alters table =
     [''ALTER TABLE '' @ table @ '' ADD COLUMN IF NOT EXISTS tags Array(Array(String)) DEFAULT '' @ tagsDefaultExpr @ '' AFTER tags_raw'',
      ''ALTER TABLE '' @ table @ '' MODIFY COLUMN tags Array(Array(String)) DEFAULT '' @ tagsDefaultExpr,
      ''ALTER TABLE '' @ table @ '' MODIFY COLUMN tag_e Array(String) DEFAULT '' @ tagEDefaultExpr,
      ''ALTER TABLE '' @ table @ '' MODIFY COLUMN tag_p Array(String) DEFAULT '' @ tagPDefaultExpr,
      ''ALTER TABLE '' @ table @ '' MODIFY COLUMN tag_t Array(String) DEFAULT '' @ tagTDefaultExpr,
      ''ALTER TABLE '' @ table @ '' MODIFY COLUMN tag_d String DEFAULT '' @ tagDDefaultExpr,
      ''ALTER TABLE '' @ table @ '' ADD INDEX IF NOT EXISTS idx_pubkey pubkey TYPE bloom_filter(0.01) GRANULARITY 4'',
      ''ALTER TABLE '' @ table @ '' DROP INDEX IF EXISTS idx_content'']"

definition materializeStmt :: "string \<Rightarrow> string" where
  "materializeStmt table = ''ALTER TABLE '' @ table @ '' MATERIALIZE INDEX idx_pubkey''"

definition backfillStmt :: "string \<Rightarrow> string" where
  "backfillStmt table =
     ''ALTER TABLE '' @ table @ '' UPDATE tags = JSONExtract(tags_raw, 'Array(Array(String))') WHERE empty(tags)''"

text \<open>The migration of one tier table. A failed mutation is only logged.\<close>

definition migrateTier :: "schema_io \<Rightarrow> string \<Rightarrow> schema_step" where
  "migrateTier io tier log =
     (let table = ''events_'' @ tier in
      case io_haveIdx io table of
        Inl e \<Rightarrow> (Some (''index introspection failed for '' @ table @ '': '' @ e), log)
      | Inr haveIdx \<Rightarrow>
          let matTotal = (case io_matTotal io table of Inl e \<Rightarrow> 1 | Inr n \<Rightarrow> n) in
          case execList ''schema column/index migration'' (io_exec io) (alters table) log of
            (Some e, log1) \<Rightarrow> (Some e, log1)
          | (None, log1) \<Rightarrow>
              (None, log1 @ (if haveIdx = 0 \<or> matTotal = 0 then [materializeStmt table] else []) @ [backfillStmt table]))"

definition probeDict :: "schema_io \<Rightarrow> schema_step" where
  "probeDict io log = (map_option (\<lambda>e. ''tombstone dictionary startup sanity probe failed: '' @ e) (io_probe io), log)"

definition initSchema :: "schema_io \<Rightarrow> (string \<Rightarrow> string) \<Rightarrow> schema_step" where
  "initSchema io retention =
     runSteps (map (\<lambda>t. execParts io (tierDDL t (retention t))) activeTiers @
       [execParts io tombstonesDDL, execParts io snapshotsDDL, execParts io feedDDL] @
       map (migrateTier io) activeTiers @ [execParts io eventsViewDDL, probeDict io])"

subsection \<open>Starting the store\<close>

text \<open>How the calls of \<open>Init\<close> end: the bootstrap, the three pools, the schema, and the backfill of the
  feed.\<close>

record init_io =
  ii_bootOpen :: "string option"
  ii_bootExec :: "string option"
  ii_openWrite :: "string option"
  ii_schema :: schema_io
  ii_backfill :: "send_outcome \<times> string option"
  ii_openRead :: "string option"
  ii_openStats :: "string option"

text \<open>The error, and the store the tables \<open>existing\<close> and \<open>feed\<close> give. The failure of the backfill is
  only logged.\<close>

definition InitStore :: "init_io \<Rightarrow> string \<Rightarrow> (string \<Rightarrow> string) \<Rightarrow> nat \<Rightarrow> int \<Rightarrow> (string \<Rightarrow> event list) \<Rightarrow> event list \<Rightarrow>
    string + store" where
  "InitStore io db retention maxSize now existing feed =
     (case fst (ensureDatabase (ii_bootOpen io) (ii_bootExec io) db) of
        Some e \<Rightarrow> Inl e
      | None \<Rightarrow>
          case ii_openWrite io of
            Some e \<Rightarrow> Inl e
          | None \<Rightarrow>
              case fst (initSchema (ii_schema io) retention []) of
                Some e \<Rightarrow> Inl e
              | None \<Rightarrow>
                  let s = snd (backfillFeed (fst (ii_backfill io)) (snd (ii_backfill io)) now (Init maxSize existing feed)) in
                  case ii_openRead io of
                    Some e \<Rightarrow> Inl e
                  | None \<Rightarrow> (case ii_openStats io of Some e \<Rightarrow> Inl e | None \<Rightarrow> Inr s))"

section \<open>Lemmas\<close>

text \<open>A statement without the comment lines before it, and what it starts with.\<close>

fun uncomment :: "nat \<Rightarrow> string \<Rightarrow> string" where
  "uncomment 0 s = s"
| "uncomment (Suc n) s =
     (if take 2 s = ''--'' then uncomment n (drop 1 (dropWhile (\<lambda>c. c \<noteq> CHR 0x0A) s)) else s)"

definition startsWith :: "string \<Rightarrow> string \<Rightarrow> bool" where
  "startsWith p s \<longleftrightarrow> take (length p) s = p"

definition isCreate :: "string \<Rightarrow> bool" where
  "isCreate s \<longleftrightarrow>
     (let t = uncomment (length s) s in
      startsWith ''CREATE TABLE IF NOT EXISTS '' t \<or> startsWith ''CREATE DICTIONARY IF NOT EXISTS '' t \<or>
      startsWith ''CREATE OR REPLACE VIEW '' t)"

lemma startsWith_append: "startsWith p (p @ s)"
  by (simp add: startsWith_def)

lemma execList_ok: "execList what exec ss log = (None, log') \<Longrightarrow> log' = log @ ss"
proof (induction ss arbitrary: log)
  case (Cons s ss)
  then have "execList what exec ss (log @ [s]) = (None, log')" by (simp split: option.splits)
  from Cons.IH[OF this] show ?case by simp
qed simp

lemma execList_log: "\<exists>n. snd (execList what exec ss log) = log @ take n ss"
proof (induction ss arbitrary: log)
  case (Cons s ss)
  obtain n where "snd (execList what exec ss (log @ [s])) = (log @ [s]) @ take n ss" using Cons by blast
  then have "snd (execList what exec (s # ss) log) = log @ take (if exec s = None then Suc n else 1) (s # ss)"
    by (auto split: option.splits)
  then show ?case by blast
qed simp

text \<open>Steps that send a fixed list when they succeed.\<close>

definition sends :: "string list \<Rightarrow> schema_step \<Rightarrow> bool" where
  "sends ss st \<longleftrightarrow> (\<forall>log log'. st log = (None, log') \<longrightarrow> log' = log @ ss)"

lemma runSteps_sends: "list_all2 sends sss sts \<Longrightarrow> sends (concat sss) (runSteps sts)"
proof (induction sss sts rule: list_all2_induct)
  case (Cons ss sss st sts)
  show ?case unfolding sends_def
  proof (intro allI impI)
    fix log log'
    assume "runSteps (st # sts) log = (None, log')"
    then obtain log1 where "st log = (None, log1)" "runSteps sts log1 = (None, log')"
      by (auto split: prod.splits option.splits)
    then have "log1 = log @ ss" "log' = log1 @ concat sss" using Cons unfolding sends_def by blast+
    then show "log' = log @ concat (ss # sss)" by simp
  qed
qed (simp add: sends_def)

lemma execParts_sends: "sends (statements q) (execParts io q)"
  using execList_ok by (auto simp: sends_def execParts_def)

definition migration :: "schema_io \<Rightarrow> string \<Rightarrow> string list" where
  "migration io tier =
     (let table = ''events_'' @ tier in
      alters table @
      (if io_haveIdx io table = Inr 0 \<or> io_matTotal io table = Inr 0 then [materializeStmt table] else []) @ [backfillStmt table])"

lemma migrateTier_sends: "sends (migration io tier) (migrateTier io tier)"
  by (auto simp: sends_def migrateTier_def migration_def Let_def dest: execList_ok split: sum.splits prod.splits option.splits)

lemma probe_sends: "sends [] (probeDict io)"
  by (simp add: sends_def probeDict_def)

text \<open>The statement a tier's table is created with.\<close>

definition tierLines :: "string \<Rightarrow> string \<Rightarrow> string list" where
  "tierLines name ttlDelete =
     [''CREATE TABLE IF NOT EXISTS events_'' @ name @ '' ('' @ tierColumnsType, '') ENGINE = ReplacingMergeTree(version)'',
      ''  PARTITION BY toYYYYMM(toDateTime(created_at))'',
      ''  ORDER BY (kind, pubkey, created_at, id)'' @
        (if ttlDelete \<noteq> [] then CHR 0x0A # ''  TTL toDateTime(created_at) + INTERVAL '' @ ttlDelete @ '' DELETE'' else []),
      ''  SETTINGS index_granularity = 8192'']"

definition tierBody :: "string \<Rightarrow> string \<Rightarrow> string" where
  "tierBody name ttlDelete = lines (tierLines name ttlDelete)"

text \<open>Statements are read off the lines of a text: a block of lines whose last one ends in a semicolon
  is one statement, and blank lines between blocks do not count.\<close>

definition block :: "string list \<Rightarrow> bool" where
  "block ls \<longleftrightarrow> ls \<noteq> [] \<and> list_all (\<lambda>l. CHR '';'' \<notin> set l) ls \<and> hd ls \<noteq> [] \<and> \<not> space (hd (hd ls)) \<and>
     last ls \<noteq> [] \<and> \<not> space (last (last ls))"

definition closed :: "string list \<Rightarrow> string list" where
  "closed ls = butlast ls @ [last ls @ '';'']"

lemma lines_Cons: "ls \<noteq> [] \<Longrightarrow> lines (l # ls) = l @ CHR 0x0A # lines ls"
  by (cases ls) (simp_all add: lines_def)

lemma lines_cut: "rest \<noteq> [] \<Longrightarrow> lines (ls @ (x @ '';'') # rest) = lines (ls @ [x]) @ '';'' @ lines ([] # rest)"
proof (induction ls)
  case Nil
  then show ?case by (simp add: lines_Cons) (simp add: lines_def)
qed (simp add: lines_Cons)

lemma semicolon_lines: "CHR '';'' \<notin> set (lines ls) \<longleftrightarrow> list_all (\<lambda>l. CHR '';'' \<notin> set l) ls"
proof (induction ls)
  case (Cons l ls)
  then show ?case by (cases "ls = []") (simp_all add: lines_Cons, simp add: lines_def)
qed (simp add: lines_def)

lemma lines_ends:
  "ls \<noteq> [] \<Longrightarrow> hd ls \<noteq> [] \<Longrightarrow> lines ls \<noteq> [] \<and> hd (lines ls) = hd (hd ls)"
  "ls \<noteq> [] \<Longrightarrow> last ls \<noteq> [] \<Longrightarrow> lines ls \<noteq> [] \<and> last (lines ls) = last (last ls)"
proof -
  show "ls \<noteq> [] \<Longrightarrow> hd ls \<noteq> [] \<Longrightarrow> lines ls \<noteq> [] \<and> hd (lines ls) = hd (hd ls)"
    by (cases ls; cases "tl ls = []") (simp_all add: lines_Cons, simp add: lines_def)
  show "ls \<noteq> [] \<Longrightarrow> last ls \<noteq> [] \<Longrightarrow> lines ls \<noteq> [] \<and> last (lines ls) = last (last ls)"
  proof (induction ls)
    case (Cons l ls)
    then show ?case by (cases "ls = []") (simp_all add: lines_Cons, simp add: lines_def)
  qed simp
qed

lemma statements_newline: "statements (CHR 0x0A # s) = statements s"
proof -
  obtain y ys where "splitOn (CHR '';'') s = y # ys" by (cases "splitOn (CHR '';'') s"; cases s) (auto split: if_splits list.splits)
  moreover have "trimSpace (CHR 0x0A # y) = trimSpace y"
    using trimSpace_padded[of "[CHR 0x0A]" "[]" y] by (simp add: space_def)
  ultimately show ?thesis by (simp add: statements_def)
qed

lemma statements_blank: "rest \<noteq> [] \<Longrightarrow> statements (lines ([] # rest)) = statements (lines rest)"
  by (simp add: lines_Cons statements_newline)

lemma statements_end: "statements (lines [[]]) = []"
  by (simp add: lines_def statements_def trimSpace_def)

lemma statements_block:
  assumes "block ls" "rest \<noteq> []"
  shows "statements (lines (closed ls @ rest)) = lines ls # statements (lines rest)"
proof -
  have ls: "butlast ls @ [last ls] = ls" "ls \<noteq> []" using assms(1) by (simp_all add: block_def)
  have cut: "lines (closed ls @ rest) = lines ls @ CHR '';'' # lines ([] # rest)"
    using lines_cut[OF assms(2), of "butlast ls" "last ls"] ls by (simp add: closed_def)
  have "trimSpace (lines ls) = lines ls" "lines ls \<noteq> []"
    using lines_ends[of ls] assms(1) by (auto simp: block_def intro!: trimSpace_clean)
  moreover have "CHR '';'' \<notin> set (lines ls)" using assms(1) by (simp add: semicolon_lines block_def)
  ultimately show ?thesis unfolding cut
    using splitOn_append[of "CHR '';''" "lines ls" "lines ([] # rest)"] statements_blank[OF assms(2)]
    by (simp add: statements_def)
qed

lemma startsWith_iff: "startsWith p s \<longleftrightarrow> (\<exists>t. s = p @ t)"
  unfolding startsWith_def by (metis append_eq_conv_conj)

lemma startsWith_lines: "ls \<noteq> [] \<Longrightarrow> startsWith p (hd ls) \<Longrightarrow> startsWith p (lines ls)"
  by (cases ls; cases "tl ls = []") (auto simp: lines_Cons startsWith_iff, simp add: lines_def)

definition createLine :: "string \<Rightarrow> bool" where
  "createLine l \<longleftrightarrow> startsWith ''CREATE TABLE IF NOT EXISTS '' l \<or> startsWith ''CREATE DICTIONARY IF NOT EXISTS '' l \<or>
     startsWith ''CREATE OR REPLACE VIEW '' l"

lemma isCreate_lines:
  assumes "ls \<noteq> []" "createLine (hd ls)"
  shows "isCreate (lines ls)"
proof -
  have start: "createLine (lines ls)" using assms startsWith_lines[OF assms(1)] unfolding createLine_def by blast
  then have "take 2 (lines ls) = ''CR''" unfolding createLine_def startsWith_iff by (elim disjE exE) simp_all
  then have "uncomment n (lines ls) = lines ls" for n by (cases n) simp_all
  then show ?thesis using start by (simp add: isCreate_def createLine_def)
qed

lemma uncomment_enough: "length s \<le> n \<Longrightarrow> length s \<le> m \<Longrightarrow> uncomment n s = uncomment m s"
proof (induction n s arbitrary: m rule: uncomment.induct)
  case (2 n s)
  let ?t = "drop 1 (dropWhile (\<lambda>c. c \<noteq> CHR 0x0A) s)"
  show ?case
  proof (cases "take 2 s = ''--''")
    case True
    then have "s \<noteq> []" by auto
    moreover have "length (dropWhile (\<lambda>c. c \<noteq> CHR 0x0A) s) \<le> length s" by (rule length_dropWhile_le)
    ultimately have t: "length ?t < length s" by (cases s) auto
    then obtain k where "m = Suc k" using 2(3) by (cases m) auto
    then show ?thesis using True 2 t by simp
  qed (cases m; simp)
next
  case (1 s)
  then show ?case by (cases m) simp_all
qed

lemma isCreate_comment:
  assumes "take 2 l = ''--''" "CHR 0x0A \<notin> set l" "ls \<noteq> []" "isCreate (lines ls)"
  shows "isCreate (lines (l # ls))"
proof -
  have "take 2 (lines (l # ls)) = ''--''"
    using assms(1,3) startsWith_lines[of "l # ls" "''--''"] by (simp add: startsWith_def numeral_2_eq_2)
  moreover have "dropWhile (\<lambda>c. c \<noteq> CHR 0x0A) (l @ CHR 0x0A # t) = CHR 0x0A # t" for t
    using assms(2) by (induction l) auto
  then have "drop 1 (dropWhile (\<lambda>c. c \<noteq> CHR 0x0A) (lines (l # ls))) = lines ls" using assms(3) by (simp add: lines_Cons)
  moreover obtain n where "length (lines (l # ls)) = Suc n" "length (lines ls) \<le> n" using assms(3) by (simp add: lines_Cons)
  ultimately have "uncomment (length (lines (l # ls))) (lines (l # ls)) = uncomment (length (lines ls)) (lines ls)"
    using uncomment_enough[of "lines ls" n "length (lines ls)"] by simp
  then show ?thesis using assms(4) by (simp add: isCreate_def)
qed

lemmas block_simps = statements_blank statements_block statements_end isCreate_lines append_is_Nil_conv list.distinct
  not_False_eq_True HOL.simp_thms list.pred_inject list.size One_nat_def Suc_eq_numeral

lemma tier_statement:
  assumes "CHR '';'' \<notin> set name" "CHR '';'' \<notin> set ttlDelete"
  shows "statements (tierDDL name ttlDelete) = [tierBody name ttlDelete]"
proof -
  have ddl: "tierDDL name ttlDelete = lines ([] # closed (tierLines name ttlDelete) @ [[]])"
    by (simp add: tierDDL_def tierLines_def closed_def Let_def)
  have "CHR '';'' \<notin> set tierColumnsType" unfolding tierColumnsType_def semicolon_lines by code_simp
  then have "block (tierLines name ttlDelete)" using assms by (simp add: block_def tierLines_def space_def)
  then show ?thesis unfolding ddl tierBody_def by (simp only: block_simps)
qed

lemma tierBody_creates: "isCreate (tierBody name ttlDelete)"
  unfolding tierBody_def by (rule isCreate_lines) (simp_all add: tierLines_def createLine_def startsWith_def)

lemma tombstone_statements: "length (statements tombstonesDDL) = 2 \<and> list_all isCreate (statements tombstonesDDL)"
proof -
  let ?table = "[''CREATE TABLE IF NOT EXISTS tombstones ('', ''  id         String,'', ''  reason     LowCardinality(String),'',
      ''  deleted_by String,'', ''  deleted_at DateTime64(3) DEFAULT now64(3)'', '') ENGINE = MergeTree ORDER BY (id, deleted_at)'']"
  let ?dict = "[''CREATE DICTIONARY IF NOT EXISTS tombstone_dict ('', ''  id String DEFAULT '' @ [CHR 0x27, CHR 0x27], '')'',
      ''PRIMARY KEY id'', ''SOURCE(CLICKHOUSE(TABLE 'tombstones'))'', ''LAYOUT(HASHED())'', ''LIFETIME(MIN 0 MAX 60)'']"
  have ddl: "tombstonesDDL = lines ([] # closed ?table @ [] # closed ?dict @ [[]])"
    by (simp add: tombstonesDDL_def closed_def)
  have "block ?table" "block ?dict" "createLine (hd ?table)" "createLine (hd ?dict)" by code_simp+
  then show ?thesis unfolding ddl
    by (simp only: block_simps)
qed

lemma feed_statements: "length (statements feedDDL) = 1 \<and> list_all isCreate (statements feedDDL)"
proof -
  let ?table = "[''CREATE TABLE IF NOT EXISTS events_feed ('' @ tierColumnsTypeNoIndexes, '') ENGINE = MergeTree'',
      ''  PARTITION BY toYYYYMMDD(toDateTime(created_at))'', ''  ORDER BY (created_at, id)'',
      ''  TTL toDateTime(created_at) + INTERVAL '' @ feedDays @ '' DAY DELETE'', ''  SETTINGS index_granularity = 8192'']"
  have ddl: "feedDDL = lines ([] # closed ?table @ [[]])" by (simp add: feedDDL_def closed_def)
  have "CHR '';'' \<notin> set feedDays" by code_simp
  moreover have "CHR '';'' \<notin> set tierColumnsTypeNoIndexes"
    unfolding tierColumnsTypeNoIndexes_def semicolon_lines by code_simp
  ultimately have "block ?table" by (simp add: block_def space_def)
  moreover have "createLine (hd ?table)" by (simp add: createLine_def startsWith_def)
  ultimately show ?thesis unfolding ddl by (simp only: block_simps)
qed

lemma view_statements: "length (statements eventsViewDDL) = 1 \<and> list_all isCreate (statements eventsViewDDL)"
proof -
  let ?view = "[''CREATE OR REPLACE VIEW events_all AS'', ''  SELECT * FROM events_permanent'',
      ''  UNION ALL SELECT * FROM events_archive'', ''  UNION ALL SELECT * FROM events_social'']"
  have ddl: "eventsViewDDL = lines ([] # closed ?view @ [[]])" by (simp add: eventsViewDDL_def closed_def)
  have "block ?view" "createLine (hd ?view)" by code_simp+
  then show ?thesis unfolding ddl by (simp only: block_simps)
qed

lemma snapshot_statements: "length (statements snapshotsDDL) = 5 \<and> list_all isCreate (statements snapshotsDDL)"
proof -
  let ?monthly = "[''CREATE TABLE IF NOT EXISTS stats_note_monthly ('', ''  note_id String,'', ''  month   Date,'',
      ''  metric  LowCardinality(String),'', ''  count   UInt64,'', ''  sats    UInt64'', '') ENGINE = SummingMergeTree'',
      ''  PARTITION BY toYYYYMM(month)'', ''  ORDER BY (note_id, month, metric)'']"
  let ?daily = "[''CREATE TABLE IF NOT EXISTS stats_daily ('', ''  day    Date,'', ''  metric LowCardinality(String),'',
      ''  value  UInt64'', '') ENGINE = SummingMergeTree'', ''  PARTITION BY toYYYYMM(day)'', ''  ORDER BY (day, metric)'']"
  let ?active = "[''CREATE TABLE IF NOT EXISTS stats_daily_active ('', ''  day     Date,'',
      ''  authors AggregateFunction(uniq, String)'', '') ENGINE = AggregatingMergeTree ORDER BY day'']"
  let ?counts = "[''CREATE TABLE IF NOT EXISTS author_follower_counts ('', ''  pubkey    String,'', ''  followers UInt64'',
      '') ENGINE = MergeTree ORDER BY pubkey'']"
  let ?staging = "[''CREATE TABLE IF NOT EXISTS author_follower_counts_staging ('', ''  pubkey    String,'', ''  followers UInt64'',
      '') ENGINE = MergeTree ORDER BY pubkey'']"
  let ?c1 = "''-- Staging twin for the followers swap: refresh builds into staging, then''"
  let ?c2 = "''-- EXCHANGE TABLES swaps atomically (P3 F13). Truncated before each build.''"
  have ddl: "snapshotsDDL = lines ([] # closed ?monthly @ [] # closed ?daily @ [] # closed ?active @ [] # closed ?counts @
      [] # closed (?c1 # ?c2 # ?staging) @ [[]])"
    by (simp add: snapshotsDDL_def closed_def)
  have "block ?monthly" "block ?daily" "block ?active" "block ?counts" "block (?c1 # ?c2 # ?staging)" by code_simp+
  moreover have "createLine (hd ?monthly)" "createLine (hd ?daily)" "createLine (hd ?active)" "createLine (hd ?counts)"
    "createLine (hd ?staging)" by code_simp+
  moreover from this(5) have "isCreate (lines (?c1 # ?c2 # ?staging))"
    by (intro isCreate_comment isCreate_lines) simp_all
  ultimately show ?thesis unfolding ddl by (simp only: block_simps)
qed

lemma feedInsert_set: "set (snd (feedInsert oc es table)) \<subseteq> set table \<union> set es"
  by (cases oc) auto

lemma backfill_tiers: "s_tiers (snd (backfillFeed oc cnt now s)) = s_tiers s"
  by (auto simp: backfillFeed_def Let_def split: option.splits prod.splits)

lemma backfill_feed: "feedEvents (s_fw (snd (backfillFeed oc cnt now s))) \<subseteq> feedEvents (s_fw s) \<union> stored s"
proof -
  let ?es = "concat (map (\<lambda>t. case s_tiers s t of Some b \<Rightarrow> b_table b | None \<Rightarrow> []) activeTiers)"
  have es: "set ?es \<subseteq> stored s"
  proof
    fix x
    assume "x \<in> set ?es"
    then obtain t b where "s_tiers s t = Some b" "x \<in> set (b_table b)" by (auto split: option.splits) metis
    then show "x \<in> stored s" unfolding stored_def by (intro UN_I[of b]) (rule ranI)
  qed
  show ?thesis
  proof (cases "cnt = None \<and> length (fw_table (s_fw s)) = 0")
    case True
    obtain ok table where ins: "feedInsert oc (filter (\<lambda>e. uint (r_created_at (rowFromEvent e)) \<ge> now - feedRetention div second) ?es)
        (fw_table (s_fw s)) = (ok, table)" by fastforce
    have "set table \<subseteq> set (fw_table (s_fw s)) \<union>
        set (filter (\<lambda>e. uint (r_created_at (rowFromEvent e)) \<ge> now - feedRetention div second) ?es)"
      using feedInsert_set[of oc _ "fw_table (s_fw s)"] ins by (metis snd_conv)
    then have "set table \<subseteq> set (fw_table (s_fw s)) \<union> set ?es" by (rule order_trans) (intro Un_mono order_refl filter_is_subset)
    then show ?thesis using True ins es by (auto simp: backfillFeed_def Let_def feedEvents_def)
  next
    case False
    then show ?thesis by (auto simp: backfillFeed_def split: option.splits)
  qed
qed

lemma InitStore_result:
  assumes "InitStore io db retention maxSize now existing feed = Inr s"
  shows "s = snd (backfillFeed (fst (ii_backfill io)) (snd (ii_backfill io)) now (Init maxSize existing feed))"
    and "s_tiers s = s_tiers (Init maxSize existing feed)"
proof -
  show "s = snd (backfillFeed (fst (ii_backfill io)) (snd (ii_backfill io)) now (Init maxSize existing feed))"
    using assms by (auto simp: InitStore_def Let_def split: option.splits)
  then show "s_tiers s = s_tiers (Init maxSize existing feed)" by (simp add: backfill_tiers)
qed

lemma InitStore_stored:
  assumes "InitStore io db retention maxSize now existing feed = Inr s"
  shows "stored s = (\<Union>t \<in> set activeTiers. set (existing t))"
  unfolding stored_def InitStore_result(2)[OF assms] by (auto simp: Init_def ran_def)

lemma InitStore_sinv:
  assumes "InitStore io db retention maxSize now existing feed = Inr s" "0 < maxSize"
    and "set feed \<subseteq> (\<Union>t \<in> set activeTiers. set (existing t))"
  shows "sinv s"
proof -
  let ?s0 = "Init maxSize existing feed"
  have inv0: "sinv ?s0" by (rule Init_sinv[OF assms(2,3)])
  have tiers: "s_tiers s = s_tiers ?s0" by (rule InitStore_result(2)[OF assms(1)])
  have "feedEvents (s_fw s) \<subseteq> feedEvents (s_fw ?s0) \<union> stored ?s0"
    unfolding InitStore_result(1)[OF assms(1)] by (rule backfill_feed)
  then show ?thesis using inv0 tiers unfolding sinv_def stored_def by auto
qed

section \<open>Properties\<close>

lemma initSchema_sends:
  assumes "\<forall>t. CHR '';'' \<notin> set (retention t)"
  shows "sends (map (\<lambda>t. tierBody t (retention t)) activeTiers @ statements tombstonesDDL @ statements snapshotsDDL @
      statements feedDDL @ concat (map (migration io) activeTiers) @ statements eventsViewDDL) (initSchema io retention)"
proof -
  have tier: "sends [tierBody t (retention t)] (execParts io (tierDDL t (retention t)))" if "t \<in> set activeTiers" for t
  proof -
    have "CHR '';'' \<notin> set t" using that by (auto simp: activeTiers_def tier_defs)
    then show ?thesis using execParts_sends[of "tierDDL t (retention t)" io] tier_statement[of t "retention t"] assms by simp
  qed
  have "list_all2 sends
      (map (\<lambda>t. [tierBody t (retention t)]) activeTiers @ [statements tombstonesDDL, statements snapshotsDDL, statements feedDDL] @
        map (migration io) activeTiers @ [statements eventsViewDDL, []])
      (map (\<lambda>t. execParts io (tierDDL t (retention t))) activeTiers @
       [execParts io tombstonesDDL, execParts io snapshotsDDL, execParts io feedDDL] @
       map (migrateTier io) activeTiers @ [execParts io eventsViewDDL, probeDict io])"
  proof (intro list_all2_appendI)
    show "list_all2 sends (map (\<lambda>t. [tierBody t (retention t)]) activeTiers)
        (map (\<lambda>t. execParts io (tierDDL t (retention t))) activeTiers)"
      using tier by (simp add: list_all2_map1 list_all2_map2 list_all2_same)
    show "list_all2 sends [statements tombstonesDDL, statements snapshotsDDL, statements feedDDL]
        [execParts io tombstonesDDL, execParts io snapshotsDDL, execParts io feedDDL]" by (simp add: execParts_sends)
    show "list_all2 sends (map (migration io) activeTiers) (map (migrateTier io) activeTiers)"
      by (simp add: list_all2_map1 list_all2_map2 list_all2_same migrateTier_sends)
    show "list_all2 sends [statements eventsViewDDL, []] [execParts io eventsViewDDL, probeDict io]"
      by (simp add: execParts_sends probe_sends)
  qed
  from runSteps_sends[OF this] show ?thesis unfolding initSchema_def by (simp add: concat_map_singleton)
qed


definition demo_schema :: schema_io where
  "demo_schema = \<lparr>io_exec = (\<lambda>s. None), io_haveIdx = (\<lambda>t. Inr 1), io_matTotal = (\<lambda>t. Inl ''denied''), io_probe = None\<rparr>"

lemma demo_schema_runs: "fst (initSchema demo_schema retention []) = None"
proof -
  have exec: "fst (execList what (\<lambda>s. None) ss log) = None" for what ss log by (induction ss arbitrary: log) simp_all
  have steps: "fst (runSteps sts log) = None" if "\<forall>st \<in> set sts. \<forall>log. fst (st log) = None" for sts log
    using that
  proof (induction sts arbitrary: log)
    case (Cons st sts)
    obtain log1 where "st log = (None, log1)" using Cons.prems by (metis list.set_intros(1) prod.collapse)
    then show ?case using Cons by simp
  qed simp
  have "fst (execParts demo_schema q log) = None" "fst (migrateTier demo_schema t log) = None" "fst (probeDict demo_schema log) = None"
    for q t log
    using exec by (auto simp: execParts_def migrateTier_def probeDict_def demo_schema_def Let_def split: prod.splits option.splits)
      (metis fst_conv option.distinct(1))
  then show ?thesis unfolding initSchema_def by (intro steps) auto
qed


text \<open>A started store is well-formed: when \<open>Init\<close> succeeds on tables whose feed mirrors rows of
  the tiers, the store satisfies its invariant, also when the backfill of the feed fails; every tier
  has a batcher with nothing pending, and what the tables held is still stored.\<close>

theorem init_establishes_invariant:
  assumes "InitStore io db retention maxSize now existing feed = Inr s" "0 < maxSize"
    and "set feed \<subseteq> (\<Union>t \<in> set activeTiers. set (existing t))"
  shows "sinv s \<and> stored s = (\<Union>t \<in> set activeTiers. set (existing t)) \<and>
    (\<forall>t \<in> set activeTiers. \<exists>b. s_tiers s t = Some b \<and> b_in b = [] \<and> w_buf b = [] \<and> w_pending b = [])"
proof (intro conjI ballI)
  show "sinv s" by (rule InitStore_sinv[OF assms])
  show "stored s = (\<Union>t \<in> set activeTiers. set (existing t))" by (rule InitStore_stored[OF assms(1)])
  show "\<exists>b. s_tiers s t = Some b \<and> b_in b = [] \<and> w_buf b = [] \<and> w_pending b = []" if "t \<in> set activeTiers" for t
    using that by (simp add: InitStore_result(2)[OF assms(1)] Init_def newBatcher_def Let_def)
qed

definition demo_init :: init_io where
  "demo_init = \<lparr>ii_bootOpen = None, ii_bootExec = None, ii_openWrite = None, ii_schema = demo_schema,
     ii_backfill = (SendOK, None), ii_openRead = None, ii_openStats = None\<rparr>"

theorem init_establishes_invariant_witness:
  "\<exists>s. InitStore demo_init ''archive_relay'' (\<lambda>t. ''1 YEAR'') 10 1700000000 (\<lambda>t. if t = TierArchive then [demo_note] else []) [] = Inr s \<and>
     sinv s \<and> demo_note \<in> stored s"
proof -
  let ?i = "InitStore demo_init ''archive_relay'' (\<lambda>t. ''1 YEAR'') 10 1700000000 (\<lambda>t. if t = TierArchive then [demo_note] else []) []"
  have "fst (ensureDatabase None None ''archive_relay'') = None" by code_simp
  then obtain s where s: "?i = Inr s" using demo_schema_runs by (simp add: InitStore_def demo_init_def)
  have "TierArchive \<in> set activeTiers" by (simp add: activeTiers_def)
  then have "demo_note \<in> (\<Union>t \<in> set activeTiers. set (if t = TierArchive then [demo_note] else []))" by auto
  then show ?thesis using init_establishes_invariant[OF s] s by auto
qed

end
