(* ===== verification/Startup.thy ===== *)
theory Startup
  imports Relay_Hooks Priority Api Control_Open Schema
begin

text \<open>
  Configuration and process life cycle (\<open>internal/config/config.go\<close>,
  \<open>cmd/archive-relay/main.go\<close>): the defaults, what \<open>main\<close> starts in which order and hands to
  whom, and what runs when it returns or exits. Reading the file and the YAML decoder are
  parameters of \<open>Load\<close>. \<open>main\<close> opens the control file, the store and access control as their
  theories model it, on the disks and with the faults of \<open>boot\<close>, and yields the sequence of things
  it does; \<open>os.Exit\<close> runs no deferred call, a return runs them last-in first-out.
\<close>

record Relay_cfg =
  cf_addr :: string
  cf_serviceURL :: string

record ClickHouse_cfg =
  cf_chAddr :: string
  cf_database :: string
  cf_username :: string
  cf_password :: string

record Batch_cfg =
  cf_maxSize :: int
  cf_maxAge :: duration

record Retention_cfg =
  cf_permanent :: string
  cf_archive :: string
  cf_social :: string

record Policy_cfg =
  cf_maxIDs :: int
  cf_maxAuthors :: int
  cf_maxKinds :: int
  cf_maxTags :: int
  cf_defaultSinceHours :: int

record Crawler_cfg =
  cf_priorityPubkeys :: "string list"
  cf_relays :: "string list"
  cf_interval :: duration

record Auth_cfg =
  cf_enabled :: bool
  cf_allowPubkeys :: "string list"
  cf_adminPubkeys :: "string list"

record config =
  cf_Relay :: Relay_cfg
  cf_ClickHouse :: ClickHouse_cfg
  cf_SQLitePath :: string
  cf_Batch :: Batch_cfg
  cf_Retention :: Retention_cfg
  cf_Classifier :: override
  cf_Policy :: Policy_cfg
  cf_Crawler :: Crawler_cfg
  cf_Auth :: Auth_cfg

section \<open>Definitions\<close>

subsection \<open>Configuration\<close>

definition defaults :: config where
  "defaults =
     \<lparr>cf_Relay = \<lparr>cf_addr = '':3334'', cf_serviceURL = []\<rparr>,
      cf_ClickHouse = \<lparr>cf_chAddr = ''localhost:9000'', cf_database = ''archive_relay'', cf_username = ''default'', cf_password = []\<rparr>,
      cf_SQLitePath = ''./control.db'',
      cf_Batch = \<lparr>cf_maxSize = 5000, cf_maxAge = 5 * second\<rparr>,
      cf_Retention = \<lparr>cf_permanent = [], cf_archive = ''10 YEAR'', cf_social = ''1 YEAR''\<rparr>,
      cf_Classifier = Map.empty,
      cf_Policy = \<lparr>cf_maxIDs = 1000, cf_maxAuthors = 1000, cf_maxKinds = 20, cf_maxTags = 256, cf_defaultSinceHours = 48\<rparr>,
      cf_Crawler = \<lparr>cf_priorityPubkeys = [], cf_relays = [], cf_interval = 10 * minute\<rparr>,
      cf_Auth = \<lparr>cf_enabled = False, cf_allowPubkeys = [], cf_adminPubkeys = []\<rparr>\<rparr>"

definition Load :: "(string \<Rightarrow> string + string) \<Rightarrow> (string \<Rightarrow> config \<Rightarrow> string + config) \<Rightarrow> string \<Rightarrow> string + config" where
  "Load readFile unmarshal path =
     (if path \<noteq> [] then (case readFile path of Inl e \<Rightarrow> Inl e | Inr b \<Rightarrow> unmarshal b defaults)
      else Inr defaults)"

subsection \<open>Main\<close>

definition splitSources :: "string \<Rightarrow> string list" where
  "splitSources s = filter (\<lambda>v. v \<noteq> []) (map trimSpace (splitOn (CHR '','') s))"

text \<open>What \<open>main\<close> hands to the components.\<close>

definition breadthOf :: "config \<Rightarrow> RejectFilterBreadth" where
  "breadthOf cfg = \<lparr>rb_MaxIDs = cf_maxIDs (cf_Policy cfg), rb_MaxAuthors = cf_maxAuthors (cf_Policy cfg),
     rb_MaxKinds = cf_maxKinds (cf_Policy cfg), rb_MaxTags = cf_maxTags (cf_Policy cfg)\<rparr>"

definition relayDeps :: "config \<Rightarrow> access option \<Rightarrow> deps" where
  "relayDeps cfg acc = \<lparr>dp_sched = Some (60 * second), dp_limiter = True, dp_breadth = breadthOf cfg, dp_access = acc,
     dp_serviceURL = cf_serviceURL (cf_Relay cfg), dp_defaultSinceHours = cf_defaultSinceHours (cf_Policy cfg)\<rparr>"

definition mainLimiter :: limiter where "mainLimiter = NewLimiter 600"

datatype action =
    WarmDedup
  | SetOnFlushed
  | StartWriterGo
  | StartPruneGo
  | GoFirehose "string list"
  | GoPriority
  | GoStats
  | GoRefreshLoop
  | GoScheduler
  | RegisterRoutes
  | GoPprof
  | Listen deps
  | StoreClose
  | StopWriterCall
  | Wcancel
  | Cancel
  | CdbClose
  | Exit nat

text \<open>What a process is started on: the configuration file and its decoder, the control file, the
  tables of the event store, and how the calls that can fail end.\<close>

record boot =
  bo_readFile :: "string \<Rightarrow> string + string"
  bo_unmarshal :: "string \<Rightarrow> config \<Rightarrow> string + config"
  bo_open :: open_io
  bo_file :: control_file
  bo_init :: init_io
  bo_now :: int
  bo_tiers :: "string \<Rightarrow> event list"
  bo_feed :: "event list"
  bo_parseURL :: "string \<Rightarrow> (string \<times> string) option"
  bo_loadAllowed :: fault
  bo_serve :: fault

definition retentionOf :: "config \<Rightarrow> string \<Rightarrow> string" where
  "retentionOf cfg t =
     (if t = TierPermanent then cf_permanent (cf_Retention cfg)
      else if t = TierArchive then cf_archive (cf_Retention cfg)
      else if t = TierSocial then cf_social (cf_Retention cfg) else [])"

text \<open>The first three steps of \<open>main\<close>, each of which exits when it fails.\<close>

definition started :: "string \<Rightarrow> boot \<Rightarrow> (config \<times> control_db \<times> store) option" where
  "started configPath b =
     (case Load (bo_readFile b) (bo_unmarshal b) configPath of
        Inl e \<Rightarrow> None
      | Inr cfg \<Rightarrow>
          case fst (Open (bo_open b) (bo_file b)) of
            Inl e \<Rightarrow> None
          | Inr cdb \<Rightarrow>
              case InitStore (bo_init b) (cf_database (cf_ClickHouse cfg)) (retentionOf cfg) (nat (cf_maxSize (cf_Batch cfg)))
                     (bo_now b) (bo_tiers b) (bo_feed b) of
                Inl e \<Rightarrow> None
              | Inr s \<Rightarrow> Some (cfg, cdb, s))"

text \<open>The access control of the configuration: \<open>Inl\<close> where \<open>main\<close> exits.\<close>

definition bootAccess :: "boot \<Rightarrow> config \<Rightarrow> control_db \<Rightarrow> string + access option" where
  "bootAccess b cfg cdb =
     (if \<not> cf_enabled (cf_Auth cfg) then Inr None
      else if cf_serviceURL (cf_Relay cfg) = [] then Inl ''auth.enabled requires relay.serviceURL (set the canonical relay URL)''
      else case NewAccess (bo_parseURL b) (bo_loadAllowed b) True (cf_allowPubkeys (cf_Auth cfg)) (cf_adminPubkeys (cf_Auth cfg))
                  (cf_serviceURL (cf_Relay cfg)) cdb of
        Inl e \<Rightarrow> Inl e
      | Inr a \<Rightarrow> Inr (Some a))"

definition ingestion :: "string \<Rightarrow> config \<Rightarrow> action list" where
  "ingestion sources cfg =
     [WarmDedup, SetOnFlushed, StartWriterGo, StartPruneGo, GoFirehose (splitSources sources)] @
     (if length (cf_priorityPubkeys (cf_Crawler cfg)) > 0 \<or> length (cf_relays (cf_Crawler cfg)) > 0 then [GoPriority] else []) @
     [GoStats]"

text \<open>The deferred calls, in the order they are deferred.\<close>

definition deferredCalls :: "action list" where
  "deferredCalls = [CdbClose, Cancel, Wcancel, StopWriterCall, StoreClose]"

definition main :: "string \<Rightarrow> string \<Rightarrow> boot \<Rightarrow> action list" where
  "main configPath sources b =
     (case started configPath b of
        None \<Rightarrow> [Exit 1]
      | Some (cfg, cdb, s) \<Rightarrow>
          case bootAccess b cfg cdb of
            Inl e \<Rightarrow> ingestion sources cfg @ [Exit 1]
          | Inr acc \<Rightarrow>
              ingestion sources cfg @ (if acc \<noteq> None then [GoRefreshLoop] else []) @
              [GoScheduler, RegisterRoutes, GoPprof, Listen (relayDeps cfg acc)] @
              (if bo_serve b \<noteq> None then [Exit 1] else rev deferredCalls))"

text \<open>\<open>refreshLoop\<close>: one refresh per tick.\<close>

fun refreshLoop :: "fault list \<Rightarrow> control_db \<Rightarrow> access \<Rightarrow> access" where
  "refreshLoop [] db a = a"
| "refreshLoop (flt # flts) db a = refreshLoop flts db (Refresh flt db a)"

section \<open>Properties\<close>

text \<open>The default configuration is sound: its batches and its rate limit are positive, the
  scheduler's ticker does not panic, the database name is accepted, the retention intervals do not
  break a statement, and the default window of the global feed is one the feed mirror covers.\<close>

theorem default_config_sound:
  "Load readFile unmarshal [] = Inr defaults \<and> 0 < cf_maxSize (cf_Batch defaults) \<and> 0 < l_perMinute mainLimiter \<and>
   (\<exists>buffer. dp_sched (relayDeps defaults acc) = Some buffer \<and> tickerPeriod buffer = Some (15 * second)) \<and>
   fst (ensureDatabase None None (cf_database (cf_ClickHouse defaults))) = None \<and>
   (\<forall>t. CHR '';'' \<notin> set (retentionOf defaults t)) \<and>
   0 < dp_defaultSinceHours (relayDeps defaults acc) \<and> dp_defaultSinceHours (relayDeps defaults acc) \<le> 164 \<and>
   bootAccess b defaults cdb = Inr None"
proof -
  have "\<exists>buffer. dp_sched (relayDeps defaults acc) = Some buffer \<and> tickerPeriod buffer = Some (15 * second)"
    by (simp add: relayDeps_def tickerPeriod_def)
  moreover have "fst (ensureDatabase None None (cf_database (cf_ClickHouse defaults))) = None"
    by (simp add: defaults_def ensureDatabase_def identifierRe_def letter_def between_def)
  ultimately show ?thesis
    by (simp add: Load_def defaults_def relayDeps_def mainLimiter_def NewLimiter_def bootAccess_def retentionOf_def)
qed

lemma Listen_started:
  assumes "Listen dp \<in> set (main configPath sources b)"
  obtains cfg cdb s acc where "started configPath b = Some (cfg, cdb, s)" "bootAccess b cfg cdb = Inr acc" "dp = relayDeps cfg acc"
proof -
  obtain cfg cdb s where st: "started configPath b = Some (cfg, cdb, s)"
    using assms by (cases "started configPath b") (auto simp: main_def)
  show ?thesis
  proof (cases "bootAccess b cfg cdb")
    case (Inl e)
    then show ?thesis using assms st by (simp add: main_def ingestion_def split: if_splits)
  next
    case (Inr acc)
    then have "dp = relayDeps cfg acc" using assms st by (simp add: main_def ingestion_def deferredCalls_def split: if_splits)
    then show ?thesis using that st Inr by blast
  qed
qed

lemma NewAccess_result:
  "NewAccess pu flt en allow admin url db = Inr a \<Longrightarrow> a_enabled a = en \<and> a_allowed a = toSet allow \<union> tableSet db"
  by (auto simp: NewAccess_def LoadAllowedSet_def rebuild_def tableSet_def Let_def split: option.splits)

lemma bootAccess_enabled:
  assumes "bootAccess b cfg cdb = Inr acc" "cf_enabled (cf_Auth cfg)"
  shows "cf_serviceURL (cf_Relay cfg) \<noteq> [] \<and>
    (\<exists>a. acc = Some a \<and> a_enabled a \<and> a_allowed a = toSet (cf_allowPubkeys (cf_Auth cfg)) \<union> tableSet cdb)"
proof -
  have url: "cf_serviceURL (cf_Relay cfg) \<noteq> []" using assms by (auto simp: bootAccess_def)
  then obtain a where "NewAccess (bo_parseURL b) (bo_loadAllowed b) True (cf_allowPubkeys (cf_Auth cfg)) (cf_adminPubkeys (cf_Auth cfg))
      (cf_serviceURL (cf_Relay cfg)) cdb = Inr a" "acc = Some a"
    using assms by (auto simp: bootAccess_def split: sum.splits)
  then show ?thesis using url NewAccess_result by blast
qed

lemma started_parts:
  assumes "started configPath b = Some (cfg, cdb, s)"
  shows "Load (bo_readFile b) (bo_unmarshal b) configPath = Inr cfg"
    and "Open (bo_open b) (bo_file b) = (Inr cdb, snd (Open (bo_open b) (bo_file b)))"
    and "InitStore (bo_init b) (cf_database (cf_ClickHouse cfg)) (retentionOf cfg) (nat (cf_maxSize (cf_Batch cfg)))
           (bo_now b) (bo_tiers b) (bo_feed b) = Inr s"
  using assms by (auto simp: started_def prod_eq_iff split: sum.splits)


text \<open>A start on empty disks with the default configuration.\<close>

definition demo_boot :: boot where
  "demo_boot = \<lparr>bo_readFile = (\<lambda>p. Inl ''no such file''), bo_unmarshal = (\<lambda>bs c. Inr c), bo_open = sound_io, bo_file = old_file,
     bo_init = demo_init, bo_now = 0, bo_tiers = (\<lambda>t. []), bo_feed = [], bo_parseURL = (\<lambda>u. None), bo_loadAllowed = None,
     bo_serve = None\<rparr>"

lemma demo_boot_starts: "\<exists>cdb s. started [] demo_boot = Some (defaults, cdb, s)"
proof -
  have "fst (ensureDatabase None None (cf_database (cf_ClickHouse defaults))) = None"
    by (simp add: defaults_def ensureDatabase_def identifierRe_def letter_def between_def)
  then obtain s where s: "InitStore demo_init (cf_database (cf_ClickHouse defaults)) (retentionOf defaults)
      (nat (cf_maxSize (cf_Batch defaults))) 0 (\<lambda>t. []) [] = Inr s"
    using demo_schema_runs by (simp add: InitStore_def demo_init_def)
  obtain cdb where "fst (Open sound_io old_file) = Inr cdb"
    by (simp add: Open_def sound_io_def migrateCrawlState_def schema_effect old_file_def tableInfo_def)
  then show ?thesis using s by (simp add: started_def demo_boot_def Load_def)
qed

lemma demo_boot_listens: "Listen (relayDeps defaults None) \<in> set (main [] ''wss://a'' demo_boot)"
  using demo_boot_starts by (auto simp: main_def bootAccess_def defaults_def)


text \<open>A graceful stop loses nothing by its order: when every call succeeds and the server is closed
  by a signal, the store is closed first, flushing the batchers, then the writer of seen ids is
  drained, and only then is the control database closed; and the flush callback and the writer
  are in place before the first crawler starts.\<close>

theorem graceful_shutdown_order:
  assumes "started configPath b = Some (cfg, cdb, s)" "bootAccess b cfg cdb = Inr acc" "bo_serve b = None"
  shows "\<exists>before mid. main configPath sources b =
      before @ [GoFirehose (splitSources sources)] @ mid @ [StoreClose, StopWriterCall, Wcancel, Cancel, CdbClose] \<and>
    {SetOnFlushed, StartWriterGo} \<subseteq> set before \<and> {GoPriority, GoScheduler} \<inter> set before = {} \<and>
    {StoreClose, StopWriterCall, CdbClose} \<inter> (set before \<union> set mid) = {}"
proof -
  let ?before = "[WarmDedup, SetOnFlushed, StartWriterGo, StartPruneGo]"
  let ?mid = "(if length (cf_priorityPubkeys (cf_Crawler cfg)) > 0 \<or> length (cf_relays (cf_Crawler cfg)) > 0 then [GoPriority] else []) @
     [GoStats] @ (if acc \<noteq> None then [GoRefreshLoop] else []) @ [GoScheduler, RegisterRoutes, GoPprof, Listen (relayDeps cfg acc)]"
  have "main configPath sources b = ?before @ [GoFirehose (splitSources sources)] @ ?mid @
      [StoreClose, StopWriterCall, Wcancel, Cancel, CdbClose]"
    using assms by (simp add: main_def ingestion_def deferredCalls_def)
  then show ?thesis by (intro exI[of _ ?before] exI[of _ ?mid]) simp
qed

text \<open>A failing server skips the flush: when access control cannot be set up, or the server ends
  with an error, the process exits although the crawlers are already ingesting, without closing
  the store, so what the batchers hold is not flushed.\<close>

theorem exit_skips_flush:
  assumes "started configPath b = Some (cfg, cdb, s)" "(\<exists>e. bootAccess b cfg cdb = Inl e) \<or> bo_serve b \<noteq> None"
  shows "GoFirehose (splitSources sources) \<in> set (main configPath sources b) \<and> last (main configPath sources b) = Exit 1 \<and>
    StoreClose \<notin> set (main configPath sources b) \<and> StopWriterCall \<notin> set (main configPath sources b)"
  using assms by (auto simp: main_def ingestion_def split: sum.splits)

text \<open>The source list is read back as written: non-empty relay URLs without commas and without
  surrounding blanks, joined by commas, give exactly those sources.\<close>

theorem sources_roundtrip:
  assumes "urls \<noteq> []"
    and "list_all (\<lambda>u. u \<noteq> [] \<and> CHR '','' \<notin> set u \<and> \<not> space (hd u) \<and> \<not> space (last u)) urls"
  shows "splitSources (join '','' urls) = urls"
proof -
  have "splitOn (CHR '','') (join '','' urls) = urls"
    using splitOn_join[OF assms(1)] assms(2) by (simp add: list_all_iff)
  moreover have "map trimSpace urls = urls" using assms(2) by (induction urls) (simp_all add: trimSpace_clean)
  moreover have "filter (\<lambda>v. v \<noteq> []) urls = urls" using assms(2) by (induction urls) simp_all
  ultimately show ?thesis by (simp add: splitSources_def)
qed

theorem sources_roundtrip_witness:
  "splitSources (join '','' [''wss://nos.lol'', ''wss://relay.damus.io'']) = [''wss://nos.lol'', ''wss://relay.damus.io'']"
  by (rule sources_roundtrip) (simp_all add: space_def)

end
