(* ===== verification/Crawler_Run.thy ===== *)
theory Crawler_Run
  imports Firehose
begin

text \<open>
  The crawler as a whole (\<open>internal/crawler/crawler.go\<close>, \<open>New\<close> and \<open>Run\<close>): one goroutine per source,
  all sharing the store and the deduplicator. A run interleaves the steps of the sources in any
  order; an input names the source that takes it. With no source the crawler returns at once.
\<close>

record crawler =
  cw_sources :: "string \<rightharpoonup> source"
  cw_shared :: "dedup \<times> store"
  cw_log :: "(event \<times> bool) list"

section \<open>Definitions\<close>

text \<open>\<open>cw_log\<close> is a history: every event a source received and whether it was ingested.\<close>

definition startCrawler :: "string list \<Rightarrow> instant \<Rightarrow> dedup \<times> store \<Rightarrow> crawler" where
  "startCrawler urls start p =
     \<lparr>cw_sources = (\<lambda>u. if u \<in> set urls then Some (newSource start) else None), cw_shared = p, cw_log = []\<rparr>"

fun received :: "src_input \<Rightarrow> bool \<Rightarrow> (event \<times> bool) list" where
  "received (Received ev) new = [(ev, new)]"
| "received _ new = []"

definition crawlStep :: "crawl_env \<Rightarrow> string \<times> instant \<times> src_input \<Rightarrow> crawler \<Rightarrow> crawler option" where
  "crawlStep env = (\<lambda>(url, now, inp) cw.
     case cw_sources cw url of
       None \<Rightarrow> None
     | Some c \<Rightarrow>
         map_option (\<lambda>(c1, p1).
           cw\<lparr>cw_sources := (cw_sources cw)(url \<mapsto> c1), cw_shared := p1,
              cw_log := cw_log cw @ received inp (src_ingested c1 \<noteq> src_ingested c)\<rparr>)
           (srcStep env (now, inp) (c, cw_shared cw)))"

fun runCrawler :: "crawl_env \<Rightarrow> (string \<times> instant \<times> src_input) list \<Rightarrow> crawler \<Rightarrow> crawler option" where
  "runCrawler env [] cw = Some cw"
| "runCrawler env (i # inputs) cw = (case crawlStep env i cw of None \<Rightarrow> None | Some cw1 \<Rightarrow> runCrawler env inputs cw1)"

definition receivedCount :: "(string \<times> instant \<times> src_input) list \<Rightarrow> nat" where
  "receivedCount inputs = length (filter (\<lambda>(url, now, inp). received inp True \<noteq> []) inputs)"

section \<open>Lemmas\<close>

lemma srcStep_no_event:
  assumes "srcStep env (now, inp) (c, p) = Some (c1, p1)" "received inp True = []"
  shows "p1 = ce_others env now p"
  using assms by (cases inp; cases "src_phase c") (auto simp: source_step split: if_splits)

text \<open>A step either ingests what it received, or leaves the deduplicator alone.\<close>

lemma crawlStep_cases:
  assumes "crawlStep env (url, now, inp) cw = Some cw'" "\<forall>now p. fst (ce_others env now p) = fst p"
  obtains (event) ev new d' s' where "inp = Received ev"
      "ingest now (ce_override env) (ce_checkID env) (ce_checkSignature env) ev (ce_others env now (cw_shared cw)) = (new, d', s')"
      "cw_shared cw' = (d', s')" "cw_log cw' = cw_log cw @ [(ev, new)]"
  | (other) "received inp True = []" "fst (cw_shared cw') = fst (cw_shared cw)" "cw_log cw' = cw_log cw"
proof -
  obtain c c1 p1 where c: "cw_sources cw url = Some c" "srcStep env (now, inp) (c, cw_shared cw) = Some (c1, p1)"
    "cw_shared cw' = p1" "cw_log cw' = cw_log cw @ received inp (src_ingested c1 \<noteq> src_ingested c)"
    using assms(1) by (auto simp: crawlStep_def split: option.splits)
  show ?thesis
  proof (cases "received inp True = []")
    case True
    then have "received inp b = []" for b by (cases inp) simp_all
    then show ?thesis using other[OF True] srcStep_no_event[OF c(2) True] assms(2) c(3,4) by simp
  next
    case False
    then obtain ev where Received: "inp = Received ev" by (cases inp) simp_all
    obtain new d' s' where r: "ingest now (ce_override env) (ce_checkID env) (ce_checkSignature env) ev
        (ce_others env now (cw_shared cw)) = (new, d', s')" by (metis prod_cases3)
    have "p1 = (d', s')" "src_ingested c1 \<noteq> src_ingested c \<longleftrightarrow> new"
      using c(2) r Received by (cases "src_phase c"; auto simp: source_step split: if_splits)+
    then show ?thesis using event[OF Received r] c(3,4) Received by simp
  qed
qed

lemma ingest_protects:
  assumes "ingest now ov cid csig ev (d, s) = (new, d', s')" "safe_for k (Suc n) d"
  shows "safe_for k n d' \<and> (new \<longrightarrow> parseEventID (ev_id ev) \<noteq> Some k)"
proof -
  have seen: "Seen (ev_id ev) d" if "parseEventID (ev_id ev) = Some k" using safe_seen[OF assms(2) that] .
  then have "safe_for k n d'" using ingest_safe assms unfolding ingest_def by blast
  moreover have "\<not> new" if "parseEventID (ev_id ev) = Some k"
    using seen[OF that] assms(1) by (simp add: ingest_def ingestStep_eq)
  ultimately show ?thesis by blast
qed

lemma ingest_claims:
  assumes "ingest now ov cid csig ev (d, s) = (True, d', s')" "finite (d_cur d)" "parseEventID (ev_id ev) = Some k" "n < d_memCap d"
  shows "safe_for k n d'"
proof -
  have "\<not> Seen (ev_id ev) d" "d' = snd (CheckAndMark now (ev_id ev) d)"
    using assms(1) by (auto simp: ingest_def ingestStep_eq Let_def split: if_splits)
  then show ?thesis using assms(2-4) by (auto simp: safe_for_def Seen_def CheckAndMark_def insertLocked_def Let_def)
qed

definition claims :: "event_key \<Rightarrow> (event \<times> bool) list \<Rightarrow> (event \<times> bool) list" where
  "claims k log = filter (\<lambda>(ev, new). new \<and> parseEventID (ev_id ev) = Some k) log"

lemma claims_simps [simp]: "claims k [] = []" "claims k (xs @ ys) = claims k xs @ claims k ys"
  "claims k [(ev, new)] = (if new \<and> parseEventID (ev_id ev) = Some k then [(ev, new)] else [])"
  by (simp_all add: claims_def)

text \<open>Once an id is protected, no source wins it again.\<close>

lemma protected_run:
  assumes "runCrawler env inputs cw = Some cw'" "\<forall>now p. fst (ce_others env now p) = fst p"
    "safe_for k (receivedCount inputs) (fst (cw_shared cw))"
  shows "claims k (cw_log cw') = claims k (cw_log cw)"
  using assms
proof (induction inputs arbitrary: cw)
  case (Cons i inputs)
  obtain url now inp where i: "i = (url, now, inp)" by (cases i)
  obtain cw1 where step: "crawlStep env (url, now, inp) cw = Some cw1" "runCrawler env inputs cw1 = Some cw'"
    using Cons.prems(1) i by (auto split: option.splits)
  from step(1) Cons.prems(2) show ?case
  proof (cases rule: crawlStep_cases)
    case (event ev new d' s')
    obtain d s where p: "ce_others env now (cw_shared cw) = (d, s)" "fst (cw_shared cw) = d"
      using Cons.prems(2) by (metis prod.collapse)
    have "safe_for k (Suc (receivedCount inputs)) d" using Cons.prems(3) i event(1) p(2) by (simp add: receivedCount_def)
    from ingest_protects[OF event(2)[unfolded p(1)] this]
    have "safe_for k (receivedCount inputs) (fst (cw_shared cw1))" "claims k (cw_log cw1) = claims k (cw_log cw)"
      using event(3,4) by simp_all
    then show ?thesis using Cons.IH[OF step(2) Cons.prems(2)] by simp
  next
    case other
    then have "receivedCount (i # inputs) = receivedCount inputs" using i by (simp add: receivedCount_def)
    then show ?thesis using Cons.IH[OF step(2) Cons.prems(2)] Cons.prems(3) other by simp
  qed
qed simp

lemma ingest_keeps_cache:
  assumes "ingest now ov cid csig ev (d, s) = (new, d', s')" "finite (d_cur d)"
  shows "finite (d_cur d') \<and> d_memCap d' = d_memCap d"
  using assms by (auto simp: ingest_def ingestStep_eq Let_def CheckAndMark_def insertLocked_def Unmark_def
      split: if_splits option.splits)

lemma run_claims_once:
  assumes "runCrawler env inputs cw = Some cw'" "\<forall>now p. fst (ce_others env now p) = fst p"
    "finite (d_cur (fst (cw_shared cw)))" "receivedCount inputs \<le> d_memCap (fst (cw_shared cw))" "claims k (cw_log cw) = []"
  shows "length (claims k (cw_log cw')) \<le> 1"
  using assms
proof (induction inputs arbitrary: cw)
  case (Cons i inputs)
  obtain url now inp where i: "i = (url, now, inp)" by (cases i)
  obtain cw1 where step: "crawlStep env (url, now, inp) cw = Some cw1" "runCrawler env inputs cw1 = Some cw'"
    using Cons.prems(1) i by (auto split: option.splits)
  from step(1) Cons.prems(2) show ?case
  proof (cases rule: crawlStep_cases)
    case (event ev new d' s')
    obtain d s where p: "ce_others env now (cw_shared cw) = (d, s)" "fst (cw_shared cw) = d"
      using Cons.prems(2) by (metis prod.collapse)
    note ing = event(2)[unfolded p(1)]
    have n: "receivedCount inputs < d_memCap d" using Cons.prems(4) i event(1) p(2) by (simp add: receivedCount_def)
    have fin: "finite (d_cur d)" using Cons.prems(3) p(2) by simp
    have keep: "finite (d_cur (fst (cw_shared cw1)))" "receivedCount inputs \<le> d_memCap (fst (cw_shared cw1))"
      using ingest_keeps_cache[OF ing fin] event(3) n by simp_all
    show ?thesis
    proof (cases "new \<and> parseEventID (ev_id ev) = Some k")
      case True
      have "ingest now (ce_override env) (ce_checkID env) (ce_checkSignature env) ev (d, s) = (True, d', s')" using ing True by simp
      from ingest_claims[OF this fin conjunct2[OF True] n] have "claims k (cw_log cw') = claims k (cw_log cw1)"
        using protected_run[OF step(2) Cons.prems(2)] event(3) by simp
      then show ?thesis using event(4) Cons.prems(5) True by simp
    next
      case False
      then show ?thesis using Cons.IH[OF step(2) Cons.prems(2) keep] event(4) Cons.prems(5) by auto
    qed
  next
    case other
    moreover have "receivedCount (i # inputs) = receivedCount inputs" using i other(1) by (simp add: receivedCount_def)
    ultimately show ?thesis using Cons.IH[OF step(2) Cons.prems(2)] Cons.prems(3-5) by simp
  qed
qed simp

section \<open>Properties\<close>


definition two_sources :: "(string \<times> instant \<times> src_input) list" where
  "two_sources = [(''wss://a'', 0, SubscribeOK), (''wss://b'', 1, SubscribeOK), (''wss://a'', 2, Received demo_hex),
     (''wss://b'', 3, Received demo_hex)]"

lemma source_subscribes:
  assumes "cw_sources cw url = Some c" "src_phase c = Connecting"
  shows "\<exists>c' cw'. crawlStep env (url, now, SubscribeOK) cw = Some cw' \<and> cw_sources cw' = (cw_sources cw)(url \<mapsto> c') \<and>
    src_phase c' = Live \<and> cw_log cw' = cw_log cw"
  using assms by (auto simp: crawlStep_def source_step)

lemma source_receives:
  assumes "cw_sources cw url = Some c" "src_phase c = Live"
  shows "\<exists>c' cw' new. crawlStep env (url, now, Received ev) cw = Some cw' \<and> cw_sources cw' = (cw_sources cw)(url \<mapsto> c') \<and>
    cw_log cw' = cw_log cw @ [(ev, new)]"
proof -
  obtain c1 p1 where "srcStep env (now, Received ev) (c, cw_shared cw) = Some (c1, p1)"
    using assms(2) by (cases "ingest now (ce_override env) (ce_checkID env) (ce_checkSignature env) ev (ce_others env now (cw_shared cw))")
      (auto simp: srcStep_def Let_def)
  then show ?thesis using assms(1) by (auto simp: crawlStep_def)
qed

lemma two_sources_run:
  "\<exists>cw. runCrawler demo_crawl two_sources (startCrawler [''wss://a'', ''wss://b''] 0 demo_pair) = Some cw \<and>
     map fst (cw_log cw) = [demo_hex, demo_hex]"
proof -
  let ?cw = "startCrawler [''wss://a'', ''wss://b''] 0 demo_pair"
  have start: "cw_sources ?cw ''wss://a'' = Some (newSource 0)" "cw_sources ?cw ''wss://b'' = Some (newSource 0)"
    "src_phase (newSource 0) = Connecting" "cw_log ?cw = []" by (simp_all add: startCrawler_def newSource_def)
  obtain c1 cw1 where s1: "crawlStep demo_crawl (''wss://a'', 0, SubscribeOK) ?cw = Some cw1"
    "cw_sources cw1 = (cw_sources ?cw)(''wss://a'' \<mapsto> c1)" "src_phase c1 = Live" "cw_log cw1 = []"
    using source_subscribes[OF start(1,3)] start(4) by metis
  have b: "cw_sources cw1 ''wss://b'' = Some (newSource 0)" using s1(2) start(2) by simp
  obtain c2 cw2 where s2: "crawlStep demo_crawl (''wss://b'', 1, SubscribeOK) cw1 = Some cw2"
    "cw_sources cw2 = (cw_sources cw1)(''wss://b'' \<mapsto> c2)" "src_phase c2 = Live" "cw_log cw2 = []"
    using source_subscribes[OF b start(3)] s1(4) by metis
  have a: "cw_sources cw2 ''wss://a'' = Some c1" using s1(2) s2(2) by simp
  obtain c3 cw3 n3 where s3: "crawlStep demo_crawl (''wss://a'', 2, Received demo_hex) cw2 = Some cw3"
    "cw_sources cw3 = (cw_sources cw2)(''wss://a'' \<mapsto> c3)" "cw_log cw3 = [(demo_hex, n3)]"
    using source_receives[OF a s1(3)] s2(4) by (metis append_Nil)
  have b: "cw_sources cw3 ''wss://b'' = Some c2" using s2(2) s3(2) by simp
  obtain cw4 n4 where s4: "crawlStep demo_crawl (''wss://b'', 3, Received demo_hex) cw3 = Some cw4"
    "cw_log cw4 = [(demo_hex, n3), (demo_hex, n4)]"
    using source_receives[OF b s2(3)] s3(3) by (metis append_Cons append_Nil)
  show ?thesis using s1(1) s2(1) s3(1) s4 by (simp add: two_sources_def)
qed


end
