(* ===== verification/Lifecycle.thy ===== *)
theory Lifecycle
  imports Ingest Schema
begin

text \<open>
  The life of a relay process across its components: how a deletion passes from the store's
  hook through the tombstone writer to the readers, how a process started on the disks a crashed
  one left decides what it has already seen, and what a graceful stop (\<open>cmd/archive-relay/main.go\<close>:
  \<open>s.Close\<close>, then \<open>dedup.StopWriter\<close>) leaves on the disks. The components' steps are those of
  Batcher, Tombstone, Store and Ingest.
\<close>

section \<open>Deletions\<close>

text \<open>The ids the last confirmed reload of the tombstone dictionary covers, and a writer that has
  nothing left to do.\<close>

definition dictIDs :: "tombstoneWriter \<Rightarrow> string set" where
  "dictIDs w = tr_id ` set (take (t_visible w) (t_acked w))"

definition caughtUp :: "tombstoneWriter \<Rightarrow> bool" where
  "caughtUp w \<longleftrightarrow> t_in w = [] \<and> t_buf w = [] \<and> \<not> t_dirty w"

definition discardedIDs :: "tombstoneWriter \<Rightarrow> string set" where
  "discardedIDs w = tr_id ` set (t_discarded w)"

lemma tsteps_reachable: "tstep\<^sup>*\<^sup>* w w' \<Longrightarrow> treachable w \<Longrightarrow> treachable w'"
  by (induction rule: rtranclp_induct) (auto intro: t_step)

lemma takeReq_accepted [simp]: "t_accepted (takeReq oc req w) = t_accepted w"
  by (simp add: takeReq_def appendReq_def Let_def)

lemma maybeReload_frames [simp]:
  "t_accepted (maybeReload ro now fin w) = t_accepted w" "t_in (maybeReload ro now fin w) = t_in w"
  "t_buf (maybeReload ro now fin w) = t_buf w" "t_discarded (maybeReload ro now fin w) = t_discarded w"
  "t_retrying (maybeReload ro now fin w) = t_retrying w" "t_done (maybeReload ro now fin w) = t_done w"
  "t_draining (maybeReload ro now fin w) = t_draining w"
  by (simp_all add: maybeReload_def reload_def Let_def)

lemma tstep_accepted: "tstep w w' \<Longrightarrow> set (t_accepted w) \<subseteq> set (t_accepted w')"
  by (induction rule: tstep.induct) (auto simp: onReq_def onTickT_def drainEnd_def reload_def Let_def)

lemma tsteps_accepted: "tstep\<^sup>*\<^sup>* w w' \<Longrightarrow> set (t_accepted w) \<subseteq> set (t_accepted w')"
  by (induction rule: rtranclp_induct) (use tstep_accepted in blast)+

lemma srun_tombstones: "sstep\<^sup>*\<^sup>* s s' \<Longrightarrow> tstep\<^sup>*\<^sup>* (s_tw s) (s_tw s')"
proof (induction rule: rtranclp_induct)
  case (step y z)
  from step(2) have "s_tw z = s_tw y \<or> tstep (s_tw y) (s_tw z)" by (induction rule: sstep.induct) simp_all
  then show ?case using step(3) by (auto intro: rtranclp.rtrancl_into_rtrancl)
qed simp

lemma tombstone_run: "tstep\<^sup>*\<^sup>* (s_tw s) w \<Longrightarrow> sstep\<^sup>*\<^sup>* s (s\<lparr>s_tw := w\<rparr>)"
proof (induction rule: rtranclp_induct)
  case (step y z)
  have "sstep (s\<lparr>s_tw := y\<rparr>) (s\<lparr>s_tw := y\<rparr>\<lparr>s_tw := z\<rparr>)" by (rule sstep.s_tombstone) (use step(2) in simp)
  then show ?case using step(3) by (simp add: rtranclp.rtrancl_into_rtrancl)
qed simp

text \<open>Once the writer has caught up, the dictionary covers every accepted id that was not
  discarded.\<close>

lemma caughtUp_covers:
  assumes "treachable w" "caughtUp w" "r \<in> set (t_accepted w)" "tr_id r \<notin> discardedIDs w"
  shows "tr_id r \<in> dictIDs w"
proof -
  have inv: "accounted w" "tracked w" using treachable_inv[OF assms(1)] by (simp_all add: tinv_def)
  have "set_mset (mset (t_accepted w)) = set (t_acked w) \<union> set (t_discarded w)"
    using inv(1) assms(2) unfolding accounted_def caughtUp_def by (simp del: set_mset_mset add: set_mset_mset)
  then have "r \<in> set (t_acked w)" using assms(3,4) by (auto simp: discardedIDs_def)
  moreover have "t_visible w = length (t_acked w)" using inv(2) assms(2) by (simp add: tracked_def caughtUp_def)
  ultimately show ?thesis by (simp add: dictIDs_def)
qed

text \<open>A healthy writer catches up: a tick empties the buffer, every queued request is taken
  without a discard, and a second tick at a time when a reload is due confirms them.\<close>

definition healthy :: "tombstoneWriter \<Rightarrow> bool" where
  "healthy w \<longleftrightarrow> t_draining w = None \<and> \<not> t_done w"

lemma tick_flushes:
  assumes "treachable w" "healthy w" "reloadDue now w"
  shows "tstep w (onTickT (\<lambda>_. SendOK) ProbeFound now fin w)"
    and "t_buf (onTickT (\<lambda>_. SendOK) ProbeFound now fin w) = []" "\<not> t_retrying (onTickT (\<lambda>_. SendOK) ProbeFound now fin w)"
    and "t_in (onTickT (\<lambda>_. SendOK) ProbeFound now fin w) = t_in w" "\<not> t_dirty (onTickT (\<lambda>_. SendOK) ProbeFound now fin w)"
    and "t_discarded (onTickT (\<lambda>_. SendOK) ProbeFound now fin w) = t_discarded w" "healthy (onTickT (\<lambda>_. SendOK) ProbeFound now fin w)"
proof -
  show "tstep w (onTickT (\<lambda>_. SendOK) ProbeFound now fin w)"
    using assms(2) by (intro tstep.t_tick) (simp_all add: healthy_def)
  show "\<not> t_dirty (onTickT (\<lambda>_. SendOK) ProbeFound now fin w)"
    using tick_makes_visible[OF assms(1,3), of fin] by (simp add: Let_def)
  show "t_buf (onTickT (\<lambda>_. SendOK) ProbeFound now fin w) = []" "\<not> t_retrying (onTickT (\<lambda>_. SendOK) ProbeFound now fin w)"
    "t_in (onTickT (\<lambda>_. SendOK) ProbeFound now fin w) = t_in w"
    "t_discarded (onTickT (\<lambda>_. SendOK) ProbeFound now fin w) = t_discarded w" "healthy (onTickT (\<lambda>_. SendOK) ProbeFound now fin w)"
    using flushAllBuf_OK[of w] assms(2) by (simp_all add: onTickT_def healthy_def)
qed

lemma takeReq_healthy:
  assumes "length (t_buf w) < tombstoneBatchMax" "\<not> t_retrying w"
  shows "t_discarded (takeReq (\<lambda>_. SendOK) req w) = t_discarded w \<and> \<not> t_retrying (takeReq (\<lambda>_. SendOK) req w) \<and>
    length (t_buf (takeReq (\<lambda>_. SendOK) req w)) < tombstoneBatchMax \<and> t_in (takeReq (\<lambda>_. SendOK) req w) = t_in w \<and>
    t_draining (takeReq (\<lambda>_. SendOK) req w) = t_draining w"
  using assms flushAllBuf_OK[of "appendReq req w"]
  by (auto simp: takeReq_def appendReq_def Let_def tombstoneRetainedMax_def)

lemma queue_drains:
  "treachable w \<Longrightarrow> healthy w \<Longrightarrow> length (t_buf w) < tombstoneBatchMax \<Longrightarrow> \<not> t_retrying w \<Longrightarrow>
    \<exists>w'. tstep\<^sup>*\<^sup>* w w' \<and> treachable w' \<and> healthy w' \<and> t_in w' = [] \<and> t_discarded w' = t_discarded w"
proof (induction "length (t_in w)" arbitrary: w)
  case 0
  then show ?case by (intro exI[of _ w]) simp
next
  case (Suc n)
  obtain req rest where q: "t_in w = req # rest" using Suc.hyps(2) by (cases "t_in w") auto
  let ?w1 = "onReq (\<lambda>_. SendOK) ProbeFound 0 0 req (w\<lparr>t_in := rest\<rparr>)"
  have step: "tstep w ?w1" using Suc.prems(2) q by (intro tstep.t_req) (simp_all add: healthy_def)
  have "length (t_buf (w\<lparr>t_in := rest\<rparr>)) < tombstoneBatchMax" "\<not> t_retrying (w\<lparr>t_in := rest\<rparr>)" using Suc.prems by simp_all
  from takeReq_healthy[OF this, of req] have w1: "healthy ?w1" "length (t_buf ?w1) < tombstoneBatchMax" "\<not> t_retrying ?w1"
    "n = length (t_in ?w1)" "t_discarded ?w1 = t_discarded w"
    using Suc.prems(2) Suc.hyps(2) q by (simp_all add: onReq_def healthy_def)
  from Suc.hyps(1)[OF w1(4) t_step[OF Suc.prems(1) step] w1(1-3)] step w1(5) show ?case
    by (metis converse_rtranclp_into_rtranclp)
qed

lemma reload_time: "\<exists>now. reloadDue now w"
  by (cases "t_lastReload w") (auto simp: reloadDue_def intro: exI[of _ "_ + tombstoneReloadEvery"])

lemma writer_catches_up:
  assumes "treachable w" "healthy w"
  shows "\<exists>w'. tstep\<^sup>*\<^sup>* w w' \<and> caughtUp w' \<and> t_discarded w' = t_discarded w"
proof -
  obtain n1 where "reloadDue n1 w" using reload_time by blast
  note t1 = tick_flushes[OF assms this, of 0]
  let ?w1 = "onTickT (\<lambda>_. SendOK) ProbeFound n1 0 w"
  have "length (t_buf ?w1) < tombstoneBatchMax" using t1(2) by simp
  from queue_drains[OF t_step[OF assms(1) t1(1)] t1(7) this t1(3)] obtain w2 where
    w2: "tstep\<^sup>*\<^sup>* ?w1 w2" "treachable w2" "healthy w2" "t_in w2 = []" "t_discarded w2 = t_discarded ?w1" by blast
  obtain n2 where "reloadDue n2 w2" using reload_time by blast
  note t2 = tick_flushes[OF w2(2,3) this, of 0]
  let ?w3 = "onTickT (\<lambda>_. SendOK) ProbeFound n2 0 w2"
  have "tstep\<^sup>*\<^sup>* w ?w3" using t1(1) w2(1) t2(1) by (meson converse_rtranclp_into_rtranclp rtranclp.rtrancl_into_rtrancl)
  moreover have "caughtUp ?w3" using t2(2,4,5) w2(4) by (simp add: caughtUp_def)
  ultimately show ?thesis using t1(6) t2(6) w2(5) by auto
qed

text \<open>A deletion the store accepted has put its id into the writer's queue.\<close>

lemma DeleteEvent_accepted:
  assumes "DeleteEvent evt s = (None, s1)"
  shows "tstep (s_tw s) (s_tw s1) \<and> healthy (s_tw s1) = healthy (s_tw s) \<and> t_discarded (s_tw s1) = t_discarded (s_tw s) \<and>
    (\<exists>r \<in> set (t_accepted (s_tw s1)). tr_id r = ev_id evt) \<and> s1 = s\<lparr>s_tw := s_tw s1\<rparr>"
proof -
  let ?r = "\<lparr>tr_id = ev_id evt, tr_reason = ''nip09'', tr_deletedBy = ev_pubkey evt\<rparr>"
  have "length (t_in (s_tw s)) < tombstoneQueueCap" "s1 = s\<lparr>s_tw := push ?r (s_tw s)\<rparr>"
    using assms by (auto simp: DeleteEvent_def retireIDs_def retire_def split: if_splits)
  then show ?thesis using tstep.t_push[of "s_tw s" ?r] by (auto simp: healthy_def push_def)
qed

text \<open>Whatever path serves a query, its events are not in the dictionary.\<close>

lemma collectEvents_live:
  assumes "clickhouse tables dead conn" "collectEvents hasFeed now cancelled conn ov f = Inr es" "e \<in> set es"
  shows "\<not> dead (ev_id e)"
proof -
  have live: "where_holds dead f r \<Longrightarrow> \<not> dead (ev_id (scanEvent r))" for r
    using where_not_dead[of dead f r] by (simp add: scanEvent_def)
  from assms(2) consider "collectFeed conn ov f = Inr es" | "collectTiers cancelled conn ov f = Inr es"
    by (auto simp: collectEvents_def split: if_splits sum.splits)
  then show ?thesis
  proof cases
    case 1
    then show ?thesis using live clickhouse.feed_member[OF assms(1) 1 assms(3)] by blast
  next
    case 2
    then show ?thesis using live clickhouse.tiers_member[OF assms(1) 2 assms(3)] by blast
  qed
qed

section \<open>Crash and restart\<close>

text \<open>What survives a process: the tables of the tiers, the feed table and the control database. A
  life starts a store and a deduplicator on them, runs the whole for any time, and ends at any
  point; what was in memory is gone.\<close>

record disk =
  dk_tiers :: "string \<Rightarrow> event list"
  dk_feed :: "event list"
  dk_db :: control_db

definition leaves :: "store \<Rightarrow> control_db \<Rightarrow> disk" where
  "leaves s db = \<lparr>dk_tiers = (\<lambda>t. case s_tiers s t of None \<Rightarrow> [] | Some b \<Rightarrow> b_table b), dk_feed = fw_table (s_fw s), dk_db = db\<rparr>"

inductive life :: "nat \<Rightarrow> nat \<Rightarrow> disk \<Rightarrow> disk \<Rightarrow> bool" for maxSize cap where
  life: "InitStore io name retention maxSize now (dk_tiers dk) (dk_feed dk) = Inr s \<Longrightarrow>
     Warm flt (dk_db dk) (NewDedup cap) = (err, d) \<Longrightarrow>
     ystep\<^sup>*\<^sup>* (s, StartWriter d, dk_db dk) (s', d', db') \<Longrightarrow> life maxSize cap dk (leaves s' db')"

definition diskEvents :: "disk \<Rightarrow> event set" where
  "diskEvents dk = (\<Union>t \<in> set activeTiers. set (dk_tiers dk t))"

text \<open>Every id recorded as seen is that of a stored event, and the feed mirrors stored events.\<close>

definition consistent :: "disk \<Rightarrow> bool" where
  "consistent dk \<longleftrightarrow> set (dk_feed dk) \<subseteq> diskEvents dk \<and> sr_id ` set (c_seen (dk_db dk)) \<subseteq> ev_id ` diskEvents dk"

lemma leaves_events:
  assumes "sinv s"
  shows "diskEvents (leaves s db) = stored s"
proof -
  have tier: "dk_tiers (leaves s db) t = b_table b" if "s_tiers s t = Some b" for t b using that by (simp add: leaves_def)
  have active: "t \<in> set activeTiers \<longleftrightarrow> (\<exists>b. s_tiers s t = Some b)" for t using assms by (auto simp: sinv_def)
  have "x \<in> diskEvents (leaves s db) \<longleftrightarrow> (\<exists>t b. s_tiers s t = Some b \<and> x \<in> set (b_table b))" for x
    unfolding diskEvents_def UN_iff Bex_def active using tier by (metis option.inject)
  then show ?thesis by (simp add: set_eq_iff stored_iff)
qed

lemma Warm_cache:
  assumes "Warm flt db d = (err, d')"
  shows "d_writeQ d' = d_writeQ d \<and> d_prev d' = d_prev d \<and>
    d_cur d' \<subseteq> d_cur d \<union> {k. \<exists>i \<in> sr_id ` set (c_seen db). parseEventID i = Some k}"
proof -
  have "k \<in> {k. \<exists>i \<in> sr_id ` set (c_seen db). parseEventID i = Some k}"
    if "k \<in> set (List.map_filter parseEventID (take n (map sr_id (rev (c_seen db)))))" for k n
  proof -
    obtain i where "i \<in> set (take n (map sr_id (rev (c_seen db))))" "parseEventID i = Some k"
      using \<open>k \<in> _\<close> by (auto simp: map_filter_def)
    then show ?thesis using in_set_takeD[of i n] by (metis (mono_tags, lifting) list.set_map mem_Collect_eq set_rev)
  qed
  then show ?thesis using assms by (auto simp: Warm_def LoadRecentSeen_def split: option.splits sum.splits)
qed

lemma life_consistent:
  assumes "life maxSize cap dk dk'" "0 < maxSize" "consistent dk"
  shows "consistent dk'"
  using assms
proof (induction rule: life.induct)
  case (life io name retention now dk s flt err d s' d' db')
  have inv: "sinv s" using InitStore_sinv[OF life(1,4)] life(5) by (simp add: consistent_def diskEvents_def)
  have events: "stored s = diskEvents dk" using InitStore_stored[OF life(1)] by (simp add: diskEvents_def)
  have "d_writeQ (StartWriter d) = []" using Warm_cache[OF life(2)] by (simp add: StartWriter_def NewDedup_def)
  then have "yinv {} (s, StartWriter d, dk_db dk)" using inv life(5) events by (auto simp: yinv_def recordedIDs_def consistent_def)
  then have "yinv {} (s', d', db')" by (rule ysteps_yinv[OF life(3)])
  then have inv': "sinv s'" and ids: "sr_id ` set (c_seen db') \<subseteq> ev_id ` stored s'" by (simp_all add: yinv_def recordedIDs_def)
  have "fw_table (s_fw s') = dk_feed (leaves s' db')" "dk_db (leaves s' db') = db'" by (simp_all add: leaves_def)
  moreover have "set (fw_table (s_fw s')) \<subseteq> stored s'" using inv' by (auto simp: sinv_def feedEvents_def)
  ultimately show ?case unfolding consistent_def leaves_events[OF inv'] using ids by simp
qed

lemma lives_consistent: "(life maxSize cap)\<^sup>*\<^sup>* dk dk' \<Longrightarrow> 0 < maxSize \<Longrightarrow> consistent dk \<Longrightarrow> consistent dk'"
  by (induction rule: rtranclp_induct) (auto intro: life_consistent)

lemma warmed_seen:
  assumes "Warm flt db (NewDedup cap) = (err, d)" "Seen i d"
  shows "\<exists>j \<in> sr_id ` set (c_seen db). parseEventID j = parseEventID i"
  using assms(2) Warm_cache[OF assms(1)] by (fastforce simp: Seen_def NewDedup_def split: option.splits)

section \<open>Graceful stop\<close>

text \<open>The stop of one tier's batcher inside \<open>Close\<close>: \<open>shutdown\<close>, then the worker's final flush with
  the given outcomes, its chunks handed to the feed writer and to the deduplicator. \<open>main\<close> runs it
  for every tier and then stops the writer of seen ids. \<open>None\<close> means that the outcomes ran out.\<close>

definition stopTier :: "instant \<Rightarrow> string \<Rightarrow> send_outcome list \<Rightarrow> store \<times> dedup \<Rightarrow> (store \<times> dedup) option" where
  "stopTier now t ocs = (\<lambda>(s, d).
     case s_tiers s t of
       None \<Rightarrow> Some (s, d)
     | Some b \<Rightarrow>
         map_option (\<lambda>b'. ((setTier t b' s)\<lparr>s_fw := fold offer (newOffers b b') (s_fw s)\<rparr>,
             fold (OnFlushed now) (flushedChunks b b') d)) (onStop ocs (shutdown b)))"

fun stopTiers :: "instant \<Rightarrow> (string \<times> send_outcome list) list \<Rightarrow> store \<times> dedup \<Rightarrow> (store \<times> dedup) option" where
  "stopTiers now [] p = Some p"
| "stopTiers now ((t, ocs) # stops) p =
     (case stopTier now t ocs p of None \<Rightarrow> None | Some p1 \<Rightarrow> stopTiers now stops p1)"

definition gracefulStop :: "instant \<Rightarrow> (string \<times> send_outcome list) list \<Rightarrow> drain_outcome list \<Rightarrow>
    store \<times> dedup \<times> control_db \<Rightarrow> (store \<times> dedup \<times> control_db) option" where
  "gracefulStop now stops drains = (\<lambda>(s, d, db).
     case stopTiers now stops (s, d) of
       None \<Rightarrow> None
     | Some (s1, d1) \<Rightarrow> map_option (\<lambda>(d2, db2). (s1, d2, db2)) (StopWriter drains d1 db))"

text \<open>A final flush whose sends succeed stores everything and hands exactly what was waiting to the
  callback.\<close>

lemma stop_flushes_all:
  assumes "bvalid b" "w_state b \<noteq> Stopped" "set ocs \<subseteq> {SendOK}" "length (waiting b) \<le> length ocs"
  obtains b' where "onStop ocs (shutdown b) = Some b'" "bstep (shutdown b) b'" "concat (flushedChunks b b') = waiting b"
    "set (b_accepted b) \<subseteq> set (b_table b')"
proof -
  have valid: "bvalid (shutdown b)" by (rule bstep_valid[OF assms(1) bstep.b_shutdown])
  have same: "waiting (shutdown b) = waiting b" "b_accepted (shutdown b) = b_accepted b" "b_acked (shutdown b) = b_acked b"
    "b_flushed (shutdown b) = b_flushed b" "w_state (shutdown b) = w_state b" "b_stop (shutdown b)"
    by (simp_all add: shutdown_def waiting_def)
  obtain b' where b': "onStop ocs (shutdown b) = Some b'" "b_acked b' = b_accepted b"
    using onStop_accounts[of "shutdown b" ocs] valid assms(2-4) same by (auto simp: bvalid_def)
  have step: "bstep (shutdown b) b'" using bstep.b_stop[of "shutdown b" ocs b'] b'(1) assms(2) same by simp
  have valid': "bvalid b'" by (rule bstep_valid[OF valid step])
  obtain cs where cs: "b_flushed b' = b_flushed b @ cs" using onStop_flushed[OF b'(1)] same by (auto simp: prefix_def)
  have "b_acked b @ concat cs = b_accepted b"
    using valid' assms(1) b'(2) cs by (simp add: bvalid_def durable_def)
  moreover have "b_acked b @ waiting b = b_accepted b" using assms(1) by (simp add: bvalid_def binv_def fifo_def)
  ultimately have "concat cs = waiting b" by (metis same_append_eq)
  then have "concat (flushedChunks b b') = waiting b" using cs by (simp add: flushedChunks_def)
  moreover have "set (b_accepted b) \<subseteq> set (b_table b')" using bvalid_stored[OF valid'] b'(2) by simp
  ultimately show ?thesis using that b'(1) step by blast
qed

text \<open>Such a stop is a run of the whole.\<close>

lemma stopTier_run:
  assumes "sinv s" "s_tiers s t = Some b" "bstep (shutdown b) b'"
  shows "ystep\<^sup>*\<^sup>* (s, d, db)
    ((setTier t b' s)\<lparr>s_fw := fold offer (newOffers b b') (s_fw s)\<rparr>, fold (OnFlushed now) (flushedChunks b b') d, db)"
proof -
  have same: "b_flushed (shutdown b) = b_flushed b" "b_offered (shutdown b) = b_offered b" by (simp_all add: shutdown_def)
  have "ystep (s, d, db) (setTier t (shutdown b) s, d, db)"
    using ystep.y_batcher[OF assms(2) bstep.b_shutdown, of d db 0] by (simp add: newOffers_def flushedChunks_def same setTier_def)
  moreover have "s_tiers (setTier t (shutdown b) s) t = Some (shutdown b)" by simp
  from ystep.y_batcher[OF this assms(3), of d db now]
  have "ystep (setTier t (shutdown b) s, d, db)
      ((setTier t b' s)\<lparr>s_fw := fold offer (newOffers b b') (s_fw s)\<rparr>, fold (OnFlushed now) (flushedChunks b b') d, db)"
    by (simp add: newOffers_def flushedChunks_def same setTier_def)
  ultimately show ?thesis by (meson converse_rtranclp_into_rtranclp r_into_rtranclp)
qed

text \<open>The queue of seen ids takes the ids \<open>I\<close>, unless a drop is counted.\<close>

definition queuedIDs :: "dedup \<Rightarrow> string set" where
  "queuedIDs d = sr_id ` set (concat (d_writeQ d))"

definition handed :: "string set \<Rightarrow> dedup \<Rightarrow> dedup \<Rightarrow> bool" where
  "handed I d d' \<longleftrightarrow> queuedIDs d \<subseteq> queuedIDs d' \<and> d_droppedWrites d \<le> d_droppedWrites d' \<and>
     (d_droppedWrites d' = d_droppedWrites d \<longrightarrow> I \<subseteq> queuedIDs d') \<and> d_writerRunning d' = d_writerRunning d \<and>
     (length (d_writeQ d) \<le> writeQueueCap \<longrightarrow> length (d_writeQ d') \<le> writeQueueCap)"

lemma handed_refl: "handed {} d d"
  by (simp add: handed_def)

lemma handed_trans: "handed I d d1 \<Longrightarrow> handed J d1 d2 \<Longrightarrow> handed (I \<union> J) d d2"
  by (auto simp: handed_def)

lemma OnFlushed_handed: "handed (ev_id ` set c) d (OnFlushed now c d)"
proof -
  have mark: "d_writeQ (MarkMany now ids d) = d_writeQ d \<and> d_droppedWrites (MarkMany now ids d) = d_droppedWrites d \<and>
      d_writerRunning (MarkMany now ids d) = d_writerRunning d" for ids
    by (induction now ids d rule: MarkMany.induct) (auto simp: insertLocked_def Let_def split: option.splits)
  have ids: "sr_id ` seenRef ` X = ev_id ` X" for X by (simp add: image_image seenRef_def)
  show ?thesis using mark[of "map ev_id c"] ids[of "set c"]
    by (auto simp: OnFlushed_def Let_def queuedIDs_def handed_def image_Un)
qed

lemma fold_OnFlushed_handed: "handed (ev_id ` set (concat cs)) d (fold (OnFlushed now) cs d)"
proof (induction cs arbitrary: d)
  case (Cons c cs)
  show ?case using handed_trans[OF OnFlushed_handed Cons.IH, of c d now] by (simp add: image_Un)
qed (simp add: handed_refl)

lemma drain_writes_all:
  "set ocs \<subseteq> {DrainWritten} \<Longrightarrow> length q \<le> length ocs \<Longrightarrow>
    \<exists>d' db'. drainLoop ocs q d db = Some (d', db') \<and> d_droppedWrites d' = d_droppedWrites d \<and>
      c_seen db' = fold (insertIgnore sr_id) (concat q) (c_seen db)"
  by (induction ocs q d db rule: drainLoop.induct) (auto simp: MarkSeenBatch_ok)

text \<open>The outcomes of a stop in which nothing fails and every tier's final flush is long enough.\<close>

definition cleanStops :: "(string \<times> send_outcome list) list \<Rightarrow> store \<Rightarrow> bool" where
  "cleanStops stops s \<longleftrightarrow> distinct (map fst stops) \<and>
     (\<forall>(t, ocs) \<in> set stops. \<forall>b. s_tiers s t = Some b \<longrightarrow>
        w_state b \<noteq> Stopped \<and> set ocs \<subseteq> {SendOK} \<and> length (waiting b) \<le> length ocs)"

definition waitingIDs :: "string set \<Rightarrow> store \<Rightarrow> string set" where
  "waitingIDs T s = {ev_id e | e t b. t \<in> T \<and> s_tiers s t = Some b \<and> e \<in> set (waiting b)}"

lemma stopTier_ok:
  assumes "sinv s" "cleanStops ((t, ocs) # stops) s"
  shows "\<exists>s1 d1. stopTier now t ocs (s, d) = Some (s1, d1) \<and> ystep\<^sup>*\<^sup>* (s, d, db) (s1, d1, db) \<and>
    handed (waitingIDs {t} s) d d1 \<and> (\<forall>b. s_tiers s t = Some b \<longrightarrow> set (b_accepted b) \<subseteq> stored s1) \<and>
    (\<forall>u. u \<noteq> t \<longrightarrow> s_tiers s1 u = s_tiers s u)"
proof (cases "s_tiers s t")
  case None
  then show ?thesis by (auto simp: stopTier_def waitingIDs_def handed_def)
next
  case (Some b)
  have b: "bvalid b" "w_state b \<noteq> Stopped" "set ocs \<subseteq> {SendOK}" "length (waiting b) \<le> length ocs"
    using assms Some by (auto simp: sinv_def ran_def cleanStops_def)
  obtain b' where b': "onStop ocs (shutdown b) = Some b'" "bstep (shutdown b) b'" "concat (flushedChunks b b') = waiting b"
    "set (b_accepted b) \<subseteq> set (b_table b')" by (rule stop_flushes_all[OF b])
  let ?s1 = "(setTier t b' s)\<lparr>s_fw := fold offer (newOffers b b') (s_fw s)\<rparr>"
  have "waitingIDs {t} s = ev_id ` set (waiting b)" using Some by (auto simp: waitingIDs_def)
  then have "handed (waitingIDs {t} s) d (fold (OnFlushed now) (flushedChunks b b') d)"
    using fold_OnFlushed_handed[of "flushedChunks b b'" d now] b'(3) by simp
  moreover have "s_tiers ?s1 t = Some b'" by simp
  then have "set (b_table b') \<subseteq> stored ?s1" unfolding subset_iff stored_iff by blast
  ultimately show ?thesis using Some b' stopTier_run[OF assms(1) Some b'(2), of d db now] by (auto simp: stopTier_def)
qed

lemma ysteps_store: "ystep\<^sup>*\<^sup>* p q \<Longrightarrow> sstep\<^sup>*\<^sup>* (fst p) (fst q)"
  by (induction rule: rtranclp_induct) (use ystep_store in \<open>blast intro: rtranclp_trans\<close>)+

lemma cleanStops_rest:
  assumes "cleanStops ((t, ocs) # stops) s" "\<forall>u. u \<noteq> t \<longrightarrow> s_tiers s1 u = s_tiers s u"
  shows "cleanStops stops s1" "waitingIDs (fst ` set stops) s1 = waitingIDs (fst ` set stops) s"
proof -
  have same: "s_tiers s1 u = s_tiers s u" if "u \<in> fst ` set stops" for u
    using that assms by (auto simp: cleanStops_def)
  then show "waitingIDs (fst ` set stops) s1 = waitingIDs (fst ` set stops) s" unfolding waitingIDs_def by auto
  have "w_state b \<noteq> Stopped \<and> set oc \<subseteq> {SendOK} \<and> length (waiting b) \<le> length oc"
    if "(u, oc) \<in> set stops" "s_tiers s1 u = Some b" for u oc b
  proof -
    have "s_tiers s u = Some b" using that same[of u] by (metis fst_conv image_eqI)
    moreover have "(u, oc) \<in> set ((t, ocs) # stops)" using that(1) by simp
    ultimately show ?thesis using assms(1) unfolding cleanStops_def by (metis (mono_tags, lifting) case_prodD)
  qed
  moreover have "distinct (map fst stops)" using assms(1) by (simp add: cleanStops_def)
  ultimately show "cleanStops stops s1" unfolding cleanStops_def by blast
qed

lemma stopTiers_ok:
  assumes "sinv s" "cleanStops stops s"
  shows "\<exists>s1 d1. stopTiers now stops (s, d) = Some (s1, d1) \<and> ystep\<^sup>*\<^sup>* (s, d, db) (s1, d1, db) \<and>
    handed (waitingIDs (fst ` set stops) s) d d1 \<and>
    (\<forall>t \<in> fst ` set stops. \<forall>b. s_tiers s t = Some b \<longrightarrow> set (b_accepted b) \<subseteq> stored s1)"
  using assms
proof (induction stops arbitrary: s d)
  case Nil
  then show ?case by (auto simp: waitingIDs_def handed_def)
next
  case (Cons st stops)
  obtain t ocs where st: "st = (t, ocs)" by (cases st)
  obtain s1 d1 where one: "stopTier now t ocs (s, d) = Some (s1, d1)" "ystep\<^sup>*\<^sup>* (s, d, db) (s1, d1, db)"
    "handed (waitingIDs {t} s) d d1" "\<forall>b. s_tiers s t = Some b \<longrightarrow> set (b_accepted b) \<subseteq> stored s1"
    "\<forall>u. u \<noteq> t \<longrightarrow> s_tiers s1 u = s_tiers s u"
    using stopTier_ok[OF Cons.prems(1), of t ocs stops now d db] Cons.prems(2) st by blast
  note rest = cleanStops_rest[OF Cons.prems(2)[unfolded st] one(5)]
  have run1: "sstep\<^sup>*\<^sup>* s s1" using ysteps_store[OF one(2)] by simp
  obtain s2 d2 where two: "stopTiers now stops (s1, d1) = Some (s2, d2)" "ystep\<^sup>*\<^sup>* (s1, d1, db) (s2, d2, db)"
    "handed (waitingIDs (fst ` set stops) s1) d1 d2"
    "\<forall>u \<in> fst ` set stops. \<forall>b. s_tiers s1 u = Some b \<longrightarrow> set (b_accepted b) \<subseteq> stored s2"
    using Cons.IH[OF srun_sinv[OF run1 Cons.prems(1)] rest(1)] by blast
  have run2: "sstep\<^sup>*\<^sup>* s1 s2" using ysteps_store[OF two(2)] by simp
  have "handed (waitingIDs {t} s \<union> waitingIDs (fst ` set stops) s) d d2" using handed_trans[OF one(3) two(3)] rest(2) by simp
  moreover have "waitingIDs {t} s \<union> waitingIDs (fst ` set stops) s = waitingIDs (fst ` set (st # stops)) s"
    using st by (auto simp: waitingIDs_def)
  moreover have "set (b_accepted b) \<subseteq> stored s2" if "u \<in> fst ` set (st # stops)" "s_tiers s u = Some b" for u b
  proof (cases "u = t")
    case True
    then show ?thesis using that(2) one(4) srun_stored[OF run2] by (metis subset_trans)
  next
    case False
    then have "u \<in> fst ` set stops" "s_tiers s1 u = Some b" using that one(5) st by simp_all
    then show ?thesis using two(4) by blast
  qed
  ultimately show ?case using one(1) two(1) st rtranclp_trans[OF one(2) two(2)] by auto
qed

lemma gracefulStop_ok:
  assumes "sinv s" "cleanStops stops s" "d_writerRunning d" "length (d_writeQ d) \<le> writeQueueCap"
    and "set drains \<subseteq> {DrainWritten}" "writeQueueCap \<le> length drains"
  shows "\<exists>s' d' db'. gracefulStop now stops drains (s, d, db) = Some (s', d', db') \<and>
    ystep\<^sup>*\<^sup>* (s, d, db) (s', d', db') \<and>
    (\<forall>t \<in> fst ` set stops. \<forall>b. s_tiers s t = Some b \<longrightarrow> set (b_accepted b) \<subseteq> stored s') \<and>
    (d_droppedWrites d' = d_droppedWrites d \<longrightarrow>
       queuedIDs d \<union> waitingIDs (fst ` set stops) s \<subseteq> sr_id ` set (c_seen db'))"
proof -
  obtain s1 d1 where stop: "stopTiers now stops (s, d) = Some (s1, d1)" "ystep\<^sup>*\<^sup>* (s, d, db) (s1, d1, db)"
    "handed (waitingIDs (fst ` set stops) s) d d1"
    "\<forall>t \<in> fst ` set stops. \<forall>b. s_tiers s t = Some b \<longrightarrow> set (b_accepted b) \<subseteq> stored s1"
    using stopTiers_ok[OF assms(1,2), of now d db] by blast
  have d1: "d_writerRunning d1" "length (d_writeQ d1) \<le> length drains"
    using stop(3) assms(3,4,6) by (auto simp: handed_def)
  obtain d2 db' where drain: "drainLoop drains (d_writeQ d1) d1 db = Some (d2, db')" "d_droppedWrites d2 = d_droppedWrites d1"
    "c_seen db' = fold (insertIgnore sr_id) (concat (d_writeQ d1)) (c_seen db)"
    using drain_writes_all[OF assms(5) d1(2)] by blast
  let ?d' = "d2\<lparr>d_writerRunning := False\<rparr>"
  have writer: "StopWriter drains d1 db = Some (?d', db')" using drain(1) d1(1) by (simp add: StopWriter_def drainQueued_def)
  have "ystep (s1, d1, db) (s1, ?d', db')" by (rule ystep.y_stop[OF writer])
  then have run: "ystep\<^sup>*\<^sup>* (s, d, db) (s1, ?d', db')" using stop(2) by (rule rtranclp.rtrancl_into_rtrancl[rotated])
  have "queuedIDs d1 \<subseteq> sr_id ` set (c_seen db')"
    unfolding drain(3) queuedIDs_def by (simp add: fold_insertIgnore_image)
  then have "d_droppedWrites ?d' = d_droppedWrites d \<longrightarrow>
      queuedIDs d \<union> waitingIDs (fst ` set stops) s \<subseteq> sr_id ` set (c_seen db')"
    using stop(3) drain(2) by (auto simp: handed_def)
  then show ?thesis using stop(1,4) writer run by (auto simp: gracefulStop_def)
qed

section \<open>Concrete runs\<close>

text \<open>A stored note, its deletion, and the store after the tombstone writer has taken the request
  and ticked.\<close>

definition kept_store :: store where
  "kept_store = Init 10 (\<lambda>t. if t = TierArchive then [demo_note] else []) []"

definition deleted_store :: store where
  "deleted_store = snd (DeleteEvent demo_note kept_store)"

definition hidden_store :: store where
  "hidden_store = deleted_store\<lparr>s_tw := onTickT (\<lambda>_. SendOK) ProbeFound 0 1
     (onReq (\<lambda>_. SendOK) ProbeFound 0 0 (hd (t_in (s_tw deleted_store))) ((s_tw deleted_store)\<lparr>t_in := []\<rparr>))\<rparr>"

definition dict_world :: world where
  "dict_world = demo_world\<lparr>wd_conn := (\<lambda>s. run_select (storeTables s) (\<lambda>i. i \<in> dictIDs (s_tw s)))\<rparr>"

lemma hidden_values:
  "fst (DeleteEvent demo_note kept_store) = None" "caughtUp (s_tw hidden_store)" "t_discarded (s_tw hidden_store) = []"
  "map ev_id (projr (fst (QueryEvents dict_world [] False 0 Map.empty match_all kept_store))) = [ev_id demo_note]"
  "isl (fst (QueryEvents dict_world [] False 0 Map.empty match_all hidden_store)) = False"
  "t_in (s_tw deleted_store) \<noteq> []" "tl (t_in (s_tw deleted_store)) = []" "healthy (s_tw deleted_store)"
  by code_simp+

lemma hidden_run: "sstep\<^sup>*\<^sup>* deleted_store hidden_store"
proof -
  let ?w = "s_tw deleted_store"
  let ?w1 = "onReq (\<lambda>_. SendOK) ProbeFound 0 0 (hd (t_in ?w)) (?w\<lparr>t_in := []\<rparr>)"
  have q: "t_in ?w = hd (t_in ?w) # []" using hidden_values(6,7) by (metis list.collapse)
  have "tstep ?w ?w1" using hidden_values(8) q by (intro tstep.t_req) (simp_all add: healthy_def)
  moreover have "healthy ?w1" by code_simp
  then have "tstep ?w1 (onTickT (\<lambda>_. SendOK) ProbeFound 0 1 ?w1)" by (intro tstep.t_tick) (simp_all add: healthy_def)
  ultimately have "tstep\<^sup>*\<^sup>* ?w (onTickT (\<lambda>_. SendOK) ProbeFound 0 1 ?w1)" by (meson converse_rtranclp_into_rtranclp r_into_rtranclp)
  from tombstone_run[OF this] show ?thesis by (simp add: hidden_store_def)
qed

text \<open>Disks that hold one event, recorded as seen.\<close>

definition kept_disk :: disk where
  "kept_disk = \<lparr>dk_tiers = (\<lambda>t. if t = TierArchive then [demo_hex] else []), dk_feed = [],
     dk_db = emptyDB\<lparr>c_seen := [seenRef demo_hex]\<rparr>\<rparr>"

lemma kept_disk_consistent: "consistent kept_disk"
  by (auto simp: consistent_def kept_disk_def diskEvents_def activeTiers_def seenRef_def)

lemma kept_disk_lives: "\<exists>dk. life 10 4 kept_disk dk \<and> dk_db dk = dk_db kept_disk"
proof -
  have "fst (ensureDatabase None None ''archive_relay'') = None" by code_simp
  then obtain s where s: "InitStore demo_init ''archive_relay'' (\<lambda>t. ''1 YEAR'') 10 0 (dk_tiers kept_disk) (dk_feed kept_disk) = Inr s"
    using demo_schema_runs by (simp add: InitStore_def demo_init_def)
  obtain err d where d: "Warm None (dk_db kept_disk) (NewDedup 4) = (err, d)" by (rule prod.exhaust)
  show ?thesis using life.life[OF s d rtranclp.rtrancl_refl] by (intro exI[of _ "leaves s (dk_db kept_disk)"]) (simp add: leaves_def)
qed

definition demo_stops :: "(string \<times> send_outcome list) list" where
  "demo_stops = map (\<lambda>t. (t, [SendOK])) activeTiers"

lemma demo_stops_clean: "cleanStops demo_stops demo_store"
proof -
  have "distinct (map fst demo_stops)" by code_simp
  moreover have "list_all (\<lambda>(t, ocs). case s_tiers demo_store t of None \<Rightarrow> True
      | Some b \<Rightarrow> w_state b \<noteq> Stopped \<and> ocs = [SendOK] \<and> length (waiting b) \<le> 1) demo_stops" by code_simp
  ultimately show ?thesis by (force simp: cleanStops_def list_all_iff split: option.splits)
qed

lemma demo_stop_drops_none:
  "case gracefulStop 7 demo_stops (replicate 64 DrainWritten) (demo_store, StartWriter (NewDedup 5), emptyDB) of
     None \<Rightarrow> False | Some (s', d', db') \<Rightarrow> d_droppedWrites d' = 0"
  by code_simp

end
