(* ===== verification/Spec2Isabelle.thy ===== *)
theory Spec2Isabelle
  imports Classifier Batcher Tombstone Event_Row Filter_SQL Store_Read Admission Feed_Writer Store
    Control Control_Open Dedup Ingest Scheduler Rate_Limit Access Relay_Hooks Firehose Priority Stats Api
    Startup Schema Crawler_Run Lifecycle
begin

text \<open>
  \<^bold>\<open>The archive relay, verified.\<close> The program is a Nostr relay that archives events from upstream
  relays and from clients into ClickHouse, keeps its small mutable state in an embedded SQLite file,
  and answers queries over websocket (through the khatru framework) and over a REST API. All paths
  below are under \<open>src/\<close>.

  \<^bold>\<open>How the parts interact.\<close> Clients' events and filters pass the gates of \<open>internal/policy\<close> (scope,
  access control, rate limit, filter breadth) in the order \<open>internal/relay\<close> installs them; the
  crawlers of \<open>internal/crawler\<close> bring events from other relays through \<open>ingest\<close>, which asks the
  deduplicator first. Both write into \<open>internal/store\<close>: an event is routed to a tier by its kind and
  queued in the tier's batcher, whose goroutine inserts chunks, tells the deduplicator which ids are
  stored and offers the events to the recent-feed writer. Deletions and replaced versions go through
  the tombstone writer; every read excludes tombstoned ids. \<open>internal/scheduler\<close> parks future-dated
  events in \<open>internal/control\<close>, \<open>internal/stats\<close> recomputes snapshot tables, \<open>internal/api\<close> serves
  them, and \<open>cmd/archive-relay/main.go\<close> starts and stops everything.

  \<^bold>\<open>Which theory models what.\<close>
  \<^item> \<open>Relay_Prelude\<close>: times and durations in nanoseconds, send outcomes, Go slices and strings, and
    the lemmas on lists, strings and words the components share.
  \<^item> \<open>Classifier\<close> (\<open>store/classifier.go\<close>): events, filters, kinds to tiers.
  \<^item> \<open>Batcher\<close> (\<open>store/batcher.go\<close>): \<open>batcher\<close> is the channel, the worker's locals and the table; the
    closures of \<open>run\<close> are functions and \<open>bstep\<close> is its \<open>select\<close> loop with the producers' calls.
  \<^item> \<open>Tombstone\<close> (\<open>store/tombstone.go\<close>): the same for the tombstone writer (\<open>tstep\<close>) with the
    dictionary reloads.
  \<^item> \<open>Event_Row\<close> (\<open>rowFromEvent\<close>, \<open>scanEvent\<close>, tag columns, reply target), \<open>Filter_SQL\<close>
    (\<open>store/filter_sql.go\<close>, as text with arguments and by meaning), \<open>Store_Read\<close> (query routing, tier
    and feed paths, COUNT), \<open>Admission\<close> (the read semaphores), \<open>Feed_Writer\<close> (\<open>store/feed.go\<close>),
    \<open>Store\<close> (writes, replacement, deletion, backfill, shutdown), \<open>Schema\<close> (\<open>store/schema.go\<close> and
    \<open>Init\<close>): the rest of \<open>internal/store\<close>.
  \<^item> \<open>Control\<close> and \<open>Control_Open\<close> (\<open>control/control.go\<close>): the tables with every statement, and opening
    a file of any release.
  \<^item> \<open>Dedup\<close>, \<open>Ingest\<close>, \<open>Firehose\<close>, \<open>Crawler_Run\<close>, \<open>Priority\<close> (\<open>internal/crawler\<close>): the cache of seen
    ids with its durable writer, the ingest step, the reconnecting source as a state machine, all
    sources interleaved, the priority tick.
  \<^item> \<open>Scheduler\<close>, \<open>Rate_Limit\<close> (\<open>policy/ratelimit.go\<close>, \<open>policy/reject.go\<close>), \<open>Access\<close>
    (\<open>policy/auth.go\<close>), \<open>Relay_Hooks\<close> (\<open>relay/relay.go\<close>), \<open>Stats\<close>, \<open>Api\<close>, \<open>Startup\<close>
    (\<open>config/config.go\<close>, \<open>main.go\<close>).
  \<^item> \<open>Lifecycle\<close>: deletion, crash and restart, and graceful stop over several components at once;
    their properties are in this theory.

  \<^bold>\<open>How state and effects are modelled.\<close> A struct is a record, a goroutine's locals are fields of
  its component's record, and fields marked as history in the theories (what was accepted,
  acknowledged, offered, answered) only record. A goroutine is a step relation whose steps are its
  \<open>select\<close> cases; a call that waits for another goroutine takes the steps of all the others while it
  waits as an argument, and theorems quantify over every legal one. Calls into ClickHouse, SQLite,
  the network and the clock take how they end as arguments, so every error path is a branch. 32-bit
  columns are words, so conversions wrap as in Go.

  \<^bold>\<open>What is assumed.\<close> ClickHouse's answer to a SELECT is the locale \<open>clickhouse\<close> (rows of the table
  that satisfy the conditions, ordered, collapsed and limited), interpreted by the executable
  \<open>run_select\<close>; its calendar functions are the locale \<open>server_calendar\<close>, interpreted by the
  Gregorian calendar in UTC. khatru runs hooks in order until one rejects (\<open>hook_runner\<close>). The JSON
  decoder, tag lookup, id and signature checks of go-nostr, URL and IP parsing and the YAML decoder
  are parameters.

  \<^bold>\<open>What the lemmas show.\<close>
  \<^item> Nothing accepted is lost: the batcher refines a durable FIFO log, a flush answered without error
    covers what was accepted before it, retries recover, and shutdown accounts for every event; the
    same for tombstones and for the durable record of seen ids.
  \<^item> Readers see the right events: the WHERE clause is NIP-01, queries are sound, complete up to the
    limit and return one version, over the tiers and over the feed, which holds stored events only.
  \<^item> Replacement and deletion: a version is retired only after a better one is stored; superseded
    versions are retired; a deletion takes effect once the writer has caught up, and it can.
  \<^item> Across crashes only stored events count as seen; a graceful stop leaves everything on disk.
  \<^item> Gates are exact: HTTP authentication, allow-list decisions, the hooks' order, the API's routes,
    the rate limit, read admission.
  \<^item> Crawling leaves no gap on reconnect, sources that deliver the same event ingest it once, progress is recorded only after the end of stored events,
    and any relay that can serve a pubkey is used; future-dated events are parked and published.
  \<^item> Statistics equal their definition over the live rows; the schema is sent completely and a started
    store satisfies the store's invariant; an old control file is migrated without loss.

  \<^bold>\<open>Interfaces.\<close> \<open>durable_log\<close> (what the store needs of a batcher), \<open>worker_kept\<close>, \<open>step_kept\<close> and
  \<open>batcher_kept\<close> (properties the worker's closures keep), \<open>seen_filter\<close> (what ingestion needs of a
  deduplicator), \<open>allow_list\<close> and \<open>refreshed_allow_list\<close> (access control), \<open>rolling_rollup\<close> (the
  refresh jobs), \<open>clickhouse\<close>, \<open>server_calendar\<close>, \<open>hook_runner\<close>; each is interpreted on the model's
  own definitions in the theory that provides them.

  \<^bold>\<open>Bounds and fuel.\<close> Loops of the source that end are total functions. The final flush, the drain
  of the seen writer and the graceful stop consume one given outcome per send and are \<open>None\<close> when
  the outcomes run out; the theorems show that as many outcomes as waiting events (queued batches)
  are enough. Endless loops (a source, a ticker) are runs over the list of what they see.

  \<^bold>\<open>Not modelled.\<close> Logging, pprof, the HTTP server and websocket transport, JSON encoding of
  answers, opening and pooling driver connections (\<open>openConn\<close>, \<open>New\<close>, \<open>Ping\<close>, \<open>CH\<close>) and the
  launching of goroutines, none of which decides anything about the state above.
\<close>

section \<open>Properties that span components\<close>



text \<open>C3. No crash makes the relay skip an event it does not have: after any number of process lives,
  each started on the disks the one before left and ended at any point, a warmed deduplicator
  regards an id as seen only if an event with that id is in a tier's table; every other event wins
  its first check and goes on to be ingested.\<close>

theorem crash_skips_only_stored:
  assumes "0 < maxSize" "(life maxSize cap)\<^sup>*\<^sup>* dk0 dk" "consistent dk0" "Warm flt (dk_db dk) (NewDedup cap) = (err, d)"
  shows "(\<exists>e \<in> diskEvents dk. parseEventID (ev_id e) = parseEventID i) \<or> fst (CheckAndMark now i d)"
proof (cases "Seen i d")
  case True
  have "consistent dk" by (rule lives_consistent[OF assms(2,1,3)])
  moreover obtain j where "j \<in> sr_id ` set (c_seen (dk_db dk))" "parseEventID j = parseEventID i"
    using warmed_seen[OF assms(4) True] by blast
  ultimately have "j \<in> ev_id ` diskEvents dk" by (auto simp: consistent_def)
  then show ?thesis using \<open>parseEventID j = parseEventID i\<close> by blast
next
  case False
  then show ?thesis using cache.claim_unseen by blast
qed

theorem crash_skips_only_stored_witness:
  "\<exists>dk err d. life 10 4 kept_disk dk \<and> Warm None (dk_db dk) (NewDedup 4) = (err, d) \<and> Seen demo_id d \<and>
     (\<exists>e \<in> diskEvents dk. parseEventID (ev_id e) = parseEventID demo_id)"
proof -
  obtain dk where dk: "life 10 4 kept_disk dk" "dk_db dk = dk_db kept_disk" using kept_disk_lives by blast
  obtain err d where d: "Warm None (dk_db dk) (NewDedup 4) = (err, d)" by (rule prod.exhaust)
  have seen: "Seen demo_id d"
    using d dk(2) demo_keys(1)
    by (auto simp: Warm_def LoadRecentSeen_def kept_disk_def emptyDB_def seenRef_def demo_hex_def NewDedup_def Seen_def map_filter_def)
  then have "\<not> fst (CheckAndMark 0 demo_id d)" using cache.claim_unseen by blast
  then show ?thesis
    using crash_skips_only_stored[OF _ r_into_rtranclp[where r = "life 10 4", OF dk(1)] kept_disk_consistent d, of demo_id 0] dk(1) d seen
    by auto
qed



end
